(* ===== verification/Prelude.thy ===== *)
theory Prelude
  imports Complex_Main "HOL-Library.Char_ord" "HOL-Library.List_Lexorder"
    "HOL-Library.Product_Lexorder" "HOL-Library.Option_ord" "HOL-Library.AList"
    "HOL-Library.FSet" "HOL-Library.Multiset" "HOL-Library.Sublist"
begin

text \<open>
  What every component shares: fallible results as a sum (an exception on the left), the loops
  of the source that may raise, Python's stable \<open>sorted(..., reverse=True)\<close>, the
  order-preserving \<open>list(dict.fromkeys(xs))\<close>, and Python dictionaries as association
  lists in insertion order.
\<close>

named_theorems res_simps \<open>evaluation of fallible computations\<close>
named_theorems sort_facts \<open>what sorting and de-duplication keep\<close>

section \<open>Exceptions\<close>

text \<open>
  An exception object: its class name, the class the handlers of the source test for, its
  message, and the \<open>__cause__\<close> and \<open>__context__\<close> links. \<open>Transport False\<close> is
  an \<open>httpx.TransportError\<close> that is no timeout and \<open>Transport True\<close> an
  \<open>httpx.TimeoutException\<close>, which is a transport error too.
\<close>

datatype exc_class =
    Transport (is_timeout: bool)
  | HttpStatus nat
  | StoreUnavailable
  | SchemaNotMigrated
  | ValueErr
  | OtherExc

datatype exc = Exc
  (exc_name: string) (exc_class: exc_class) (exc_msg: string)
  (exc_cause: "exc option") (exc_context: "exc option")

type_synonym 'a result = "exc + 'a"

definition raise_value :: "string \<Rightarrow> 'a result" where
  "raise_value msg = Inl (Exc ''ValueError'' ValueErr msg None None)"

definition raise_type :: "string \<Rightarrow> 'a result" where
  "raise_type msg = Inl (Exc ''TypeError'' OtherExc msg None None)"

definition raise_key :: "string \<Rightarrow> 'a result" where
  "raise_key msg = Inl (Exc ''KeyError'' OtherExc msg None None)"

definition raise_attr :: "string \<Rightarrow> 'a result" where
  "raise_attr msg = Inl (Exc ''AttributeError'' OtherExc msg None None)"

lemmas raise_defs = raise_value_def raise_type_def raise_key_def raise_attr_def

section \<open>Fallible computations\<close>

fun res_bind :: "'e + 'a \<Rightarrow> ('a \<Rightarrow> 'e + 'b) \<Rightarrow> 'e + 'b" where
  "res_bind (Inl e) f = Inl e"
| "res_bind (Inr x) f = f x"

text \<open>A loop (or comprehension) whose body may raise stops at the first exception.\<close>

fun res_map :: "('a \<Rightarrow> 'e + 'b) \<Rightarrow> 'a list \<Rightarrow> 'e + 'b list" where
  "res_map f [] = Inr []"
| "res_map f (x # xs) = res_bind (f x) (\<lambda>y. res_bind (res_map f xs) (\<lambda>ys. Inr (y # ys)))"

text \<open>A loop that carries an accumulator.\<close>

fun res_fold :: "('a \<Rightarrow> 's \<Rightarrow> 'e + 's) \<Rightarrow> 'a list \<Rightarrow> 's \<Rightarrow> 'e + 's" where
  "res_fold f [] s = Inr s"
| "res_fold f (x # xs) s = res_bind (f x s) (res_fold f xs)"

fun res_ok :: "'e + 'a \<Rightarrow> bool" where
  "res_ok (Inl _) = False"
| "res_ok (Inr _) = True"

lemma res_bind_Inr_iff [res_simps]:
  "res_bind r f = Inr y \<longleftrightarrow> (\<exists>x. r = Inr x \<and> f x = Inr y)"
  by (cases r) auto

lemma res_bind_Inl_iff [res_simps]:
  "res_bind r f = Inl e \<longleftrightarrow> r = Inl e \<or> (\<exists>x. r = Inr x \<and> f x = Inl e)"
  by (cases r) auto

lemma res_map_Inr_iff [res_simps]:
  "res_map f xs = Inr ys \<longleftrightarrow> list_all2 (\<lambda>x y. f x = Inr y) xs ys"
proof (induction xs arbitrary: ys)
  case Nil
  then show ?case by auto
next
  case (Cons x xs)
  then show ?case by (cases ys) (auto simp: res_simps)
qed

lemma res_map_total: "(\<And>x. x \<in> set xs \<Longrightarrow> f x = Inr (g x)) \<Longrightarrow> res_map f xs = Inr (map g xs)"
  by (induction xs) auto

section \<open>Stable descending sort\<close>

text \<open>
  \<open>sorted(xs, key=f, reverse=True)\<close> keeps the order of elements with equal keys: CPython
  reverses the list, sorts it stably in ascending order, and reverses the result.
\<close>

definition sort_desc :: "('a \<Rightarrow> 'k::linorder) \<Rightarrow> 'a list \<Rightarrow> 'a list" where
  "sort_desc f xs = rev (sort_key f (rev xs))"

definition descending :: "('a \<Rightarrow> 'k::linorder) \<Rightarrow> 'a list \<Rightarrow> bool" where
  "descending f xs \<longleftrightarrow> sorted_wrt (\<lambda>x y. f y \<le> f x) xs"

lemma mset_sort_desc [simp, sort_facts]: "mset (sort_desc f xs) = mset xs"
  by (simp add: sort_desc_def)

lemma set_sort_desc [simp, sort_facts]: "set (sort_desc f xs) = set xs"
  by (simp add: sort_desc_def)

lemma length_sort_desc [simp, sort_facts]: "length (sort_desc f xs) = length xs"
  by (simp add: sort_desc_def)

lemma distinct_map_sort_desc [simp, sort_facts]:
  "distinct (map g (sort_desc f xs)) \<longleftrightarrow> distinct (map g xs)"
proof -
  have "mset (map g (sort_desc f xs)) = mset (map g xs)" by simp
  then show ?thesis by (rule mset_eq_imp_distinct_iff)
qed

lemma descending_sort_desc [simp, intro]: "descending f (sort_desc f xs)"
proof -
  have "sorted (map f (sort_key f (rev xs)))" by simp
  then have "sorted_wrt (\<lambda>x y. f x \<le> f y) (sort_key f (rev xs))"
    by (simp add: sorted_map)
  then show ?thesis
    by (simp add: descending_def sort_desc_def sorted_wrt_rev)
qed

lemma sort_desc_stable: "filter (\<lambda>x. f x = k) (sort_desc f xs) = filter (\<lambda>x. f x = k) xs"
  by (simp add: sort_desc_def sort_key_stable flip: rev_filter)

lemma descending_take: "descending f xs \<Longrightarrow> descending f (take n xs)"
  by (simp add: descending_def sorted_wrt_take)

lemma descending_take_drop:
  "descending f xs \<Longrightarrow> x \<in> set (take n xs) \<Longrightarrow> y \<in> set (drop n xs) \<Longrightarrow> f y \<le> f x"
  unfolding descending_def
  by (metis append_take_drop_id sorted_wrt_append)

section \<open>list(dict.fromkeys(xs))\<close>

fun from_keys :: "'a list \<Rightarrow> 'a list" where
  "from_keys [] = []"
| "from_keys (x # xs) = x # filter (\<lambda>y. y \<noteq> x) (from_keys xs)"

lemma set_from_keys [simp, sort_facts]: "set (from_keys xs) = set xs"
  by (induction xs) auto

lemma distinct_from_keys [simp, sort_facts]: "distinct (from_keys xs)"
  by (induction xs) auto

lemma from_keys_distinct [simp]: "distinct xs \<Longrightarrow> from_keys xs = xs"
proof (induction xs)
  case (Cons x xs)
  then have "filter (\<lambda>y. y \<noteq> x) xs = xs" by (auto simp: filter_id_conv)
  with Cons show ?case by simp
qed simp

lemma from_keys_append:
  "from_keys (xs @ ys) = from_keys xs @ filter (\<lambda>y. y \<notin> set xs) (from_keys ys)"
proof (induction xs)
  case (Cons x xs)
  then show ?case by (auto intro: filter_cong)
qed simp

lemma length_from_keys: "length (from_keys xs) \<le> length xs"
  by (induction xs) (auto intro: le_trans [OF length_filter_le])

section \<open>Python dictionaries in insertion order\<close>

text \<open>
  \<open>d[k] = v\<close> overwrites in place when \<open>k\<close> is present and appends otherwise, which is
  \<open>AList.update\<close>; \<open>d.get(k)\<close> is \<open>map_of d k\<close>; \<open>d.values()\<close> is
  \<open>map snd d\<close>.
\<close>

type_synonym ('k, 'v) dict = "('k \<times> 'v) list"

abbreviation dict_set :: "'k \<Rightarrow> 'v \<Rightarrow> ('k, 'v) dict \<Rightarrow> ('k, 'v) dict" where
  "dict_set \<equiv> AList.update"

definition dict_ok :: "('k, 'v) dict \<Rightarrow> bool" where
  "dict_ok d \<longleftrightarrow> distinct (map fst d)"

lemma dict_ok_Nil [simp]: "dict_ok []"
  by (simp add: dict_ok_def)

lemma dict_ok_set [simp, intro]: "dict_ok d \<Longrightarrow> dict_ok (dict_set k v d)"
  by (simp add: dict_ok_def distinct_update)

lemma map_of_dict_set [simp]: "map_of (dict_set k v d) = (map_of d)(k \<mapsto> v)"
  by (rule update_conv')

lemma keys_dict_set [simp]: "fst ` set (dict_set k v d) = insert k (fst ` set d)"
  by (simp add: dom_update)

text \<open>A comprehension \<open>{k: v for ...}\<close> sets the keys in order; later ones win.\<close>

definition dict_of :: "('k \<times> 'v) list \<Rightarrow> ('k, 'v) dict" where
  "dict_of kvs = fold (\<lambda>(k, v). dict_set k v) kvs []"

lemma dict_of_Nil [simp]: "dict_of [] = []"
  by (simp add: dict_of_def)

lemma dict_ok_dict_of [simp]: "dict_ok (dict_of kvs)"
proof -
  have "dict_ok d \<Longrightarrow> dict_ok (fold (\<lambda>(k, v). dict_set k v) kvs d)" for d
    by (induction kvs arbitrary: d) auto
  then show ?thesis by (simp add: dict_of_def)
qed

lemma map_of_dict_of: "map_of (dict_of kvs) = map_of (rev kvs)"
proof -
  have "map_of (fold (\<lambda>(k, v). dict_set k v) kvs d) = map_of d ++ map_of (rev kvs)" for d
    by (induction kvs arbitrary: d) (auto simp: map_add_def fun_eq_iff split: option.splits)
  then show ?thesis by (simp add: dict_of_def)
qed

lemma map_of_in: "dict_ok d \<Longrightarrow> map_of d k = Some v \<longleftrightarrow> (k, v) \<in> set d"
  by (simp add: dict_ok_def)

lemma dict_ok_filter: "dict_ok d \<Longrightarrow> dict_ok (filter P d)"
  by (simp add: dict_ok_def distinct_map_filter)

lemma map_of_dict_filter:
  "dict_ok d \<Longrightarrow> map_of (filter P d) k = (case map_of d k of None \<Rightarrow> None | Some v \<Rightarrow> if P (k, v) then Some v else None)"
proof (induction d)
  case (Cons p d)
  obtain k' v' where p: "p = (k', v')" by (cases p)
  from Cons.prems p have "map_of d k' = None" and ok: "dict_ok d"
    by (auto simp: dict_ok_def map_of_eq_None_iff)
  with Cons.IH [OF ok] p show ?case by (auto split: option.splits)
qed simp

lemma length_dict: "dict_ok d \<Longrightarrow> length d = card (fst ` set d)"
  by (metis dict_ok_def distinct_card length_map set_map)

end
