(* ===== verification/PyText.thy ===== *)
theory PyText
  imports Prelude
begin

text \<open>
  Python's \<open>str\<close> methods and the regular expressions the source uses, over Isabelle's
  \<open>string\<close>. A \<open>char\<close> is one code point below 256, and every classification below
  (\<open>\s\<close>, \<open>\w\<close>, \<open>\d\<close>, \<open>lower\<close>, \<open>upper\<close>) is the one CPython uses on these
  code points. A code point from 256 on has no \<open>char\<close>; where the source writes one
  (the horizontal ellipsis, the em dash) the model writes \<open>sub_char\<close>, the ASCII
  substitute character, which like them is neither a letter, a digit nor white space.
\<close>

section \<open>Characters\<close>

definition cp :: "char \<Rightarrow> nat" where
  "cp c = of_char c"

definition sub_char :: char where
  "sub_char = CHR 0x1A"

definition is_space :: "char \<Rightarrow> bool" where
  "is_space c \<longleftrightarrow> (let n = cp c in (9 \<le> n \<and> n \<le> 13) \<or> (28 \<le> n \<and> n \<le> 32) \<or> n = 133 \<or> n = 160)"

definition is_digit :: "char \<Rightarrow> bool" where
  "is_digit c \<longleftrightarrow> 48 \<le> cp c \<and> cp c \<le> 57"

definition is_word :: "char \<Rightarrow> bool" where
  "is_word c \<longleftrightarrow> (let n = cp c in
     (48 \<le> n \<and> n \<le> 57) \<or> (65 \<le> n \<and> n \<le> 90) \<or> n = 95 \<or> (97 \<le> n \<and> n \<le> 122) \<or> n = 170
     \<or> n = 178 \<or> n = 179 \<or> n = 181 \<or> n = 185 \<or> n = 186 \<or> (188 \<le> n \<and> n \<le> 190)
     \<or> (192 \<le> n \<and> n \<le> 214) \<or> (216 \<le> n \<and> n \<le> 246) \<or> 248 \<le> n)"

definition lower_char :: "char \<Rightarrow> char" where
  "lower_char c = (let n = cp c in
     if (65 \<le> n \<and> n \<le> 90) \<or> (192 \<le> n \<and> n \<le> 214) \<or> (216 \<le> n \<and> n \<le> 222)
     then char_of (n + 32) else c)"

definition upper_char :: "char \<Rightarrow> string" where
  "upper_char c = (let n = cp c in
     if (97 \<le> n \<and> n \<le> 122) \<or> (224 \<le> n \<and> n \<le> 246) \<or> (248 \<le> n \<and> n \<le> 254)
     then [char_of (n - 32)]
     else if n = 223 then ''SS'' else if n = 181 \<or> n = 255 then [sub_char] else [c])"

lemmas char_defs = cp_def is_space_def is_digit_def is_word_def lower_char_def upper_char_def

lemma cp_bound: "cp c < 256"
  by (simp add: cp_def)

lemma cp_char_of: "n < 256 \<Longrightarrow> cp (char_of n) = n"
  by (simp add: cp_def of_char_of)

lemma cp_eq_iff: "cp c = cp d \<longleftrightarrow> c = d"
  by (simp add: cp_def)

lemma lower_char_idem [simp]: "lower_char (lower_char c) = lower_char c"
  using cp_bound [of c] by (auto simp: lower_char_def Let_def cp_char_of)

lemma is_space_space [simp]: "is_space (CHR '' '')"
  by (simp add: is_space_def cp_def)

lemma sub_char_plain [simp]: "\<not> is_space sub_char" "\<not> is_word sub_char" "\<not> is_digit sub_char"
  by (simp_all add: char_defs sub_char_def Let_def)

section \<open>str methods\<close>

definition lower :: "string \<Rightarrow> string" where
  "lower s = map lower_char s"

definition upper :: "string \<Rightarrow> string" where
  "upper s = concat (map upper_char s)"

definition lstrip :: "string \<Rightarrow> string" where
  "lstrip s = dropWhile is_space s"

definition rstrip :: "string \<Rightarrow> string" where
  "rstrip s = rev (dropWhile is_space (rev s))"

definition strip :: "string \<Rightarrow> string" where
  "strip s = rstrip (lstrip s)"

text \<open>\<open>t in s\<close>\<close>

fun contains :: "string \<Rightarrow> string \<Rightarrow> bool" where
  "contains t [] = (t = [])"
| "contains t (c # s) = (prefix t (c # s) \<or> contains t s)"

text \<open>\<open>s.split()\<close>, \<open>s.split(c)\<close> and \<open>sep.join(ws)\<close>\<close>

fun split_ws_from :: "string \<Rightarrow> string \<Rightarrow> string list" where
  "split_ws_from w [] = (if w = [] then [] else [w])"
| "split_ws_from w (c # s) =
     (if is_space c then (if w = [] then split_ws_from [] s else w # split_ws_from [] s)
      else split_ws_from (w @ [c]) s)"

abbreviation split_ws :: "string \<Rightarrow> string list" where
  "split_ws \<equiv> split_ws_from []"

fun split_on_from :: "char \<Rightarrow> string \<Rightarrow> string \<Rightarrow> string list" where
  "split_on_from sep w [] = [w]"
| "split_on_from sep w (c # s) =
     (if c = sep then w # split_on_from sep [] s else split_on_from sep (w @ [c]) s)"

abbreviation split_on :: "char \<Rightarrow> string \<Rightarrow> string list" where
  "split_on sep \<equiv> split_on_from sep []"

fun join :: "string \<Rightarrow> string list \<Rightarrow> string" where
  "join sep [] = []"
| "join sep [w] = w"
| "join sep (w # ws) = w @ sep @ join sep ws"

text \<open>Decimal digits of an integer, \<open>str(n)\<close>, and zero padding.\<close>

fun nat_digits :: "nat \<Rightarrow> string" where
  "nat_digits n = (if n < 10 then [char_of (48 + n)] else nat_digits (n div 10) @ [char_of (48 + n mod 10)])"

declare nat_digits.simps [simp del]

definition int_str :: "int \<Rightarrow> string" where
  "int_str i = (if i < 0 then CHR ''-'' # nat_digits (nat (- i)) else nat_digits (nat i))"

definition digit_val :: "char \<Rightarrow> nat" where
  "digit_val c = cp c - 48"

definition digits_val :: "string \<Rightarrow> nat" where
  "digits_val s = foldl (\<lambda>a c. 10 * a + digit_val c) 0 s"

section \<open>Regular expressions as scanners\<close>

text \<open>
  A matcher looks at the character before the position and the rest of the text, and gives the
  length of the match there with the value the caller wants, or \<open>None\<close>. \<open>re_scan\<close> is
  \<open>re.finditer\<close> and \<open>re_sub\<close> is \<open>re.sub\<close>: leftmost matches, not overlapping; the
  counter skips the rest of a match. Every pattern of the source matches at least one character.
\<close>

type_synonym 'a matcher = "char option \<Rightarrow> string \<Rightarrow> (nat \<times> 'a) option"

fun re_scan :: "'a matcher \<Rightarrow> char option \<Rightarrow> nat \<Rightarrow> string \<Rightarrow> 'a list" where
  "re_scan m p k [] = []"
| "re_scan m p (Suc k) (c # s) = re_scan m (Some c) k s"
| "re_scan m p 0 (c # s) =
     (case m p (c # s) of
        None \<Rightarrow> re_scan m (Some c) 0 s
      | Some (n, v) \<Rightarrow> v # re_scan m (Some c) (n - 1) s)"

fun re_sub :: "string matcher \<Rightarrow> char option \<Rightarrow> nat \<Rightarrow> string \<Rightarrow> string" where
  "re_sub m p k [] = []"
| "re_sub m p (Suc k) (c # s) = re_sub m (Some c) k s"
| "re_sub m p 0 (c # s) =
     (case m p (c # s) of
        None \<Rightarrow> c # re_sub m (Some c) 0 s
      | Some (n, r) \<Rightarrow> r @ re_sub m (Some c) (n - 1) s)"

definition word_before :: "char option \<Rightarrow> bool" where
  "word_before p = (case p of None \<Rightarrow> False | Some c \<Rightarrow> is_word c)"

definition word_next :: "string \<Rightarrow> bool" where
  "word_next s = (case s of [] \<Rightarrow> False | c # _ \<Rightarrow> is_word c)"

text \<open>\<open>s.replace(old, new)\<close> for a non-empty \<open>old\<close>.\<close>

definition lit_match :: "string \<Rightarrow> string \<Rightarrow> string matcher" where
  "lit_match old new p s = (if prefix old s then Some (length old, new) else None)"

definition replace_all :: "string \<Rightarrow> string \<Rightarrow> string \<Rightarrow> string" where
  "replace_all old new s = re_sub (lit_match old new) None 0 s"

text \<open>\<open>re.sub(r"\s+", " ", s)\<close>\<close>

fun squeeze_ws :: "string \<Rightarrow> string" where
  "squeeze_ws [] = []"
| "squeeze_ws (c # s) =
     (if is_space c
      then (if s \<noteq> [] \<and> is_space (hd s) then squeeze_ws s else CHR '' '' # squeeze_ws s)
      else c # squeeze_ws s)"

section \<open>Lemmas\<close>

lemma lower_idem [simp]: "lower (lower s) = lower s"
  by (simp add: lower_def)

lemma length_lower [simp]: "length (lower s) = length s"
  by (simp add: lower_def)

lemma contains_iff_sublist: "contains t s \<longleftrightarrow> sublist t s"
  by (induction t s rule: contains.induct) (auto simp: sublist_Cons_right)

lemma contains_iff: "contains t s \<longleftrightarrow> (\<exists>u v. s = u @ t @ v)"
  by (simp add: contains_iff_sublist sublist_def)

lemma lstrip_length: "length (lstrip s) \<le> length s"
  by (simp add: lstrip_def length_dropWhile_le)

lemma rstrip_length: "length (rstrip s) \<le> length s"
  by (metis rstrip_def length_rev length_dropWhile_le)

lemma rstrip_last: "rstrip s \<noteq> [] \<Longrightarrow> \<not> is_space (last (rstrip s))"
  unfolding rstrip_def by (simp add: last_rev hd_dropWhile)

lemma lstrip_hd: "lstrip s \<noteq> [] \<Longrightarrow> \<not> is_space (hd (lstrip s))"
  unfolding lstrip_def by (rule hd_dropWhile)

lemma rstrip_prefix: "prefix (rstrip s) s"
proof -
  have "suffix (dropWhile is_space (rev s)) (rev s)" by (rule suffix_dropWhile)
  then show ?thesis by (simp add: rstrip_def suffix_to_prefix)
qed

lemma strip_hd: "strip s \<noteq> [] \<Longrightarrow> \<not> is_space (hd (strip s))"
proof -
  assume ne: "strip s \<noteq> []"
  obtain v where v: "lstrip s = strip s @ v"
    using rstrip_prefix [of "lstrip s"] by (auto simp: prefix_def strip_def)
  with ne lstrip_hd [of s] show ?thesis by (cases "strip s") auto
qed

lemma strip_last: "strip s \<noteq> [] \<Longrightarrow> \<not> is_space (last (strip s))"
  unfolding strip_def by (rule rstrip_last)

text \<open>After white space is squeezed no two adjacent characters are white space.\<close>

definition no_ws_runs :: "string \<Rightarrow> bool" where
  "no_ws_runs s \<longleftrightarrow> successively (\<lambda>c d. \<not> (is_space c \<and> is_space d)) s"

lemma squeeze_hd: "squeeze_ws s \<noteq> [] \<Longrightarrow> is_space (hd (squeeze_ws s)) \<longleftrightarrow> is_space (hd s)"
  by (induction s rule: squeeze_ws.induct) (auto split: if_splits)

lemma squeeze_Nil [simp]: "squeeze_ws s = [] \<longleftrightarrow> s = []"
  by (induction s rule: squeeze_ws.induct) auto

lemma squeeze_no_runs: "no_ws_runs (squeeze_ws s)"
proof (induction s rule: squeeze_ws.induct)
  case (2 c s)
  then show ?case
    using squeeze_hd [of s] by (auto simp: no_ws_runs_def successively_Cons)
qed (simp add: no_ws_runs_def)

lemma squeeze_spaces: "c \<in> set (squeeze_ws s) \<Longrightarrow> is_space c \<Longrightarrow> c = CHR '' ''"
  by (induction s rule: squeeze_ws.induct) (auto split: if_splits)

lemma no_ws_runs_sublist: "sublist t s \<Longrightarrow> no_ws_runs s \<Longrightarrow> no_ws_runs t"
  by (auto simp: sublist_def no_ws_runs_def successively_append_iff)

lemma strip_sublist: "sublist (strip s) s"
proof -
  have "suffix (lstrip s) s" by (simp add: lstrip_def suffix_dropWhile)
  moreover have "prefix (strip s) (lstrip s)" by (simp add: strip_def rstrip_prefix)
  ultimately show ?thesis
    by (meson prefix_imp_sublist sublist_order.order.trans suffix_imp_sublist)
qed

lemma re_scan_sound:
  "v \<in> set (re_scan m p k s) \<Longrightarrow> \<exists>w n q. suffix w s \<and> m q w = Some (n, v)"
proof (induction m p k s rule: re_scan.induct)
  case (2 m p k c s)
  then show ?case by (auto simp: suffix_Cons)
next
  case (3 m p c s)
  show ?case
  proof (cases "m p (c # s)")
    case None
    with "3.prems" "3.IH"(1) [OF None] show ?thesis by (auto simp: suffix_Cons)
  next
    case (Some nv)
    obtain n' v' where nv: "nv = (n', v')" by (cases nv)
    from Some nv "3.prems" have "v = v' \<or> v \<in> set (re_scan m (Some c) (n' - 1) s)" by simp
    then show ?thesis
    proof
      assume "v = v'"
      with Some nv show ?thesis by (auto simp: suffix_Cons)
    next
      assume "v \<in> set (re_scan m (Some c) (n' - 1) s)"
      from "3.IH"(2) [OF Some nv [symmetric] this] show ?thesis by (auto simp: suffix_Cons)
    qed
  qed
qed simp

end
