(* ===== verification/Url.thy ===== *)
theory Url
  imports PyText
begin

text \<open>
  The parts of \<open>urllib.parse\<close> the source calls: \<open>urlsplit\<close> with \<open>netloc\<close> and
  \<open>hostname\<close>, \<open>parse_qsl\<close> and \<open>urlencode\<close>. Not modelled: the check that a
  bracketed host is a valid IPv6 literal, and percent codes from 80 on (non-ASCII text).
\<close>

section \<open>Splitting\<close>

text \<open>\<open>s.partition(c)\<close>: the text before and after the first \<open>c\<close>, if there is one.\<close>

fun partition_at :: "char \<Rightarrow> string \<Rightarrow> string \<times> string option" where
  "partition_at c [] = ([], None)"
| "partition_at c (d # s) =
     (if d = c then ([], Some s) else case partition_at c s of (a, r) \<Rightarrow> (d # a, r))"

definition before :: "char \<Rightarrow> string \<Rightarrow> string" where
  "before c s = fst (partition_at c s)"

definition rpartition_last :: "char \<Rightarrow> string \<Rightarrow> string" where
  "rpartition_last c s = rev (before c (rev s))"

record split_url =
  u_scheme :: string
  u_netloc :: string
  u_path :: string
  u_query :: string

definition ascii_alpha :: "char \<Rightarrow> bool" where
  "ascii_alpha c \<longleftrightarrow> (65 \<le> cp c \<and> cp c \<le> 90) \<or> (97 \<le> cp c \<and> cp c \<le> 122)"

definition scheme_char :: "char \<Rightarrow> bool" where
  "scheme_char c \<longleftrightarrow> ascii_alpha c \<or> is_digit c \<or> c \<in> {CHR ''+'', CHR ''-'', CHR ''.''}"

definition split_scheme :: "string \<Rightarrow> string \<times> string" where
  "split_scheme s =
     (case partition_at CHR '':'' s of
        (a, Some r) \<Rightarrow> if a \<noteq> [] \<and> ascii_alpha (hd a) \<and> list_all scheme_char a then (lower a, r) else ([], s)
      | _ \<Rightarrow> ([], s))"

text \<open>\<open>None\<close> is the \<open>ValueError\<close> for brackets that do not match.\<close>

definition urlsplit :: "string \<Rightarrow> split_url option" where
  "urlsplit raw =
     (let url = filter (\<lambda>c. c \<notin> {CHR 0x09, CHR 0x0A, CHR 0x0D}) (dropWhile (\<lambda>c. cp c \<le> 32) raw);
          (scheme, rest) = split_scheme url;
          (netloc, path) = (if prefix ''//'' rest
             then (let r = drop 2 rest; n = takeWhile (\<lambda>c. c \<notin> {CHR ''/'', CHR ''?'', CHR ''#''}) r in (n, drop (length n) r))
             else ([], rest));
          path' = before CHR ''#'' path
      in if (CHR ''['' \<in> set netloc) \<noteq> (CHR '']'' \<in> set netloc) then None
         else Some \<lparr>u_scheme = scheme, u_netloc = netloc, u_path = before CHR ''?'' path',
            u_query = (case partition_at CHR ''?'' path' of (_, None) \<Rightarrow> [] | (_, Some q) \<Rightarrow> q)\<rparr>)"

definition hostname :: "string \<Rightarrow> string option" where
  "hostname netloc =
     (let info = rpartition_last CHR ''@'' netloc;
          h = (case partition_at CHR ''['' info of (_, Some b) \<Rightarrow> before CHR '']'' b | (a, None) \<Rightarrow> before CHR '':'' a)
      in if h = [] then None
         else Some (case partition_at CHR ''%'' h of (a, None) \<Rightarrow> lower a | (a, Some z) \<Rightarrow> lower a @ ''%'' @ z))"

section \<open>Query strings\<close>

definition hex_upper :: "nat \<Rightarrow> char" where
  "hex_upper n = (if n < 10 then char_of (48 + n) else char_of (55 + n))"

definition quote_char :: "char \<Rightarrow> string" where
  "quote_char c =
     (if ascii_alpha c \<or> is_digit c \<or> c \<in> {CHR ''_'', CHR ''.'', CHR ''-'', CHR ''~''} then [c]
      else if c = CHR '' '' then ''+''
      else [CHR ''%'', hex_upper (cp c div 16), hex_upper (cp c mod 16)])"

definition quote_plus :: "string \<Rightarrow> string" where
  "quote_plus s = concat (map quote_char s)"

definition hex_digit_val :: "char \<Rightarrow> nat option" where
  "hex_digit_val c = (let n = cp c in
     if 48 \<le> n \<and> n \<le> 57 then Some (n - 48)
     else if 97 \<le> n \<and> n \<le> 102 then Some (n - 87)
     else if 65 \<le> n \<and> n \<le> 70 then Some (n - 55) else None)"

fun unquote_plus :: "string \<Rightarrow> string" where
  "unquote_plus (a # b # c # s) =
     (if a = CHR ''+'' then CHR '' '' # unquote_plus (b # c # s)
      else if a = CHR ''%''
      then (case (hex_digit_val b, hex_digit_val c) of
          (Some x, Some y) \<Rightarrow> char_of (16 * x + y) # unquote_plus s
        | _ \<Rightarrow> a # unquote_plus (b # c # s))
      else a # unquote_plus (b # c # s))"
| "unquote_plus (a # s) = (if a = CHR ''+'' then CHR '' '' else a) # unquote_plus s"
| "unquote_plus [] = []"

text \<open>\<open>parse_qsl\<close> drops the fields without a value.\<close>

definition parse_qsl :: "string \<Rightarrow> (string \<times> string) list" where
  "parse_qsl q = concat (map (\<lambda>f. case partition_at CHR ''='' f of
       (k, Some (c # v)) \<Rightarrow> [(unquote_plus k, unquote_plus (c # v))] | _ \<Rightarrow> [])
     (split_on CHR ''&'' q))"

definition urlencode :: "(string \<times> string) list \<Rightarrow> string" where
  "urlencode kvs = join ''&'' (map (\<lambda>(k, v). quote_plus k @ ''='' @ quote_plus v) kvs)"

text \<open>\<open>urlunparse\<close> with a replaced query, for a URL without parameters or fragment.\<close>

definition with_query :: "split_url \<Rightarrow> string \<Rightarrow> string" where
  "with_query u q =
     (let base = (if u_netloc u \<noteq> [] then ''//'' @ u_netloc u @ u_path u else u_path u) in
      (if u_scheme u = [] then base else u_scheme u @ '':'' @ base) @ (if q = [] then [] else ''?'' @ q))"

section \<open>A quoted text is read back\<close>

definition ascii :: "string \<Rightarrow> bool" where
  "ascii s \<longleftrightarrow> list_all (\<lambda>c. cp c < 128) s"

lemma hex_digit_vals: "n < 16 \<Longrightarrow> hex_digit_val (hex_upper n) = Some n"
  by (auto simp: hex_upper_def hex_digit_val_def Let_def cp_char_of)

lemma unquote_plain:
  "a \<noteq> CHR ''+'' \<Longrightarrow> a \<noteq> CHR ''%'' \<Longrightarrow> unquote_plus (a # s) = a # unquote_plus s"
  by (cases "(a # s)" rule: unquote_plus.cases) auto

lemma unquote_space: "unquote_plus (CHR ''+'' # s) = CHR '' '' # unquote_plus s"
  by (cases "(CHR ''+'' # s)" rule: unquote_plus.cases) auto

lemma unquote_percent:
  "hex_digit_val b = Some x \<Longrightarrow> hex_digit_val c = Some y \<Longrightarrow>
    unquote_plus (CHR ''%'' # b # c # s) = char_of (16 * x + y) # unquote_plus s"
  by simp

lemma unquote_quote_char:
  assumes "cp c < 128"
  shows "unquote_plus (quote_char c @ s) = c # unquote_plus s"
proof -
  let ?safe = "ascii_alpha c \<or> is_digit c \<or> c \<in> {CHR ''_'', CHR ''.'', CHR ''-'', CHR ''~''}"
  have "?safe \<Longrightarrow> c \<noteq> CHR ''+'' \<and> c \<noteq> CHR ''%''"
    by (auto simp: ascii_alpha_def is_digit_def cp_def)
  then consider "quote_char c = [c]" "c \<noteq> CHR ''+''" "c \<noteq> CHR ''%''" | "quote_char c = ''+''" "c = CHR '' ''"
    | "quote_char c = [CHR ''%'', hex_upper (cp c div 16), hex_upper (cp c mod 16)]"
    unfolding quote_char_def by (cases ?safe; cases "c = CHR '' ''") simp_all
  then show ?thesis
  proof cases
    case 1
    then show ?thesis by (simp add: unquote_plain)
  next
    case 2
    then show ?thesis by (simp add: unquote_space)
  next
    case 3
    have "cp c div 16 < 16" "cp c mod 16 < 16" using assms by auto
    then have "unquote_plus (quote_char c @ s) = char_of (16 * (cp c div 16) + cp c mod 16) # unquote_plus s"
      unfolding 3 append_Cons append_Nil by (intro unquote_percent hex_digit_vals)
    also have "(char_of (16 * (cp c div 16) + cp c mod 16) :: char) = c" by (simp add: cp_def)
    finally show ?thesis .
  qed
qed

lemma unquote_quote: "ascii s \<Longrightarrow> unquote_plus (quote_plus s) = s"
  by (induction s) (auto simp: ascii_def quote_plus_def unquote_quote_char)

lemma partition_at_absent: "c \<notin> set s \<Longrightarrow> partition_at c s = (s, None)"
  by (induction s) auto

lemma partition_at_app: "c \<notin> set s \<Longrightarrow> partition_at c (s @ c # r) = (s, Some r)"
  by (induction s) auto

lemma hex_upper_safe: "n < 16 \<Longrightarrow> cp (hex_upper n) \<noteq> 61 \<and> cp (hex_upper n) \<noteq> 38"
  by (auto simp: hex_upper_def cp_char_of)

lemma quote_char_safe:
  assumes "d \<in> set (quote_char c)" "cp c < 128" shows "d \<noteq> CHR ''='' \<and> d \<noteq> CHR ''&''"
proof -
  have "cp c div 16 < 16" "cp c mod 16 < 16" using assms(2) by auto
  from hex_upper_safe [OF this(1)] hex_upper_safe [OF this(2)] assms(1) have "cp d \<noteq> 61 \<and> cp d \<noteq> 38"
    by (auto simp: quote_char_def ascii_alpha_def is_digit_def cp_def split: if_splits)
  then show ?thesis by (auto simp: cp_def)
qed

lemma quote_plus_safe: "ascii s \<Longrightarrow> CHR ''='' \<notin> set (quote_plus s) \<and> CHR ''&'' \<notin> set (quote_plus s)"
  using quote_char_safe by (fastforce simp: quote_plus_def ascii_def list_all_iff)

lemma quote_plus_Nil: "quote_plus s = [] \<longleftrightarrow> s = []"
proof -
  have "quote_char c \<noteq> []" for c by (simp add: quote_char_def)
  then show ?thesis by (auto simp: quote_plus_def)
qed

definition qsl_ok :: "(string \<times> string) list \<Rightarrow> bool" where
  "qsl_ok kvs \<longleftrightarrow> list_all (\<lambda>(k, v). ascii k \<and> ascii v \<and> v \<noteq> []) kvs"

lemma split_on_from_gen: "split_on_from c w s = (w @ hd (split_on c s)) # tl (split_on c s)"
proof (induction s arbitrary: w)
  case (Cons d s)
  show ?case
  proof (cases "d = c")
    case False
    then show ?thesis using Cons [of "w @ [d]"] Cons [of "[d]"] by simp
  qed simp
qed simp

lemma split_on_field: "c \<notin> set f \<Longrightarrow> split_on c (f @ c # s) = f # split_on c s"
proof (induction f)
  case (Cons d f)
  then show ?case by (auto simp: split_on_from_gen [of c "[d]"])
qed simp

lemma split_on_last: "c \<notin> set f \<Longrightarrow> split_on c f = [f]"
proof (induction f)
  case (Cons d f)
  then show ?case by (auto simp: split_on_from_gen [of c "[d]"])
qed simp

lemma split_on_join:
  "list_all (\<lambda>f. c \<notin> set f) fs \<Longrightarrow> fs \<noteq> [] \<Longrightarrow> split_on c (join [c] fs) = fs"
proof (induction fs)
  case (Cons f fs)
  then show ?case by (cases fs) (auto simp: split_on_field split_on_last)
qed simp

lemma parse_qsl_urlencode: "qsl_ok kvs \<Longrightarrow> parse_qsl (urlencode kvs) = kvs"
proof (cases "kvs = []")
  case True
  then show ?thesis by (simp add: parse_qsl_def urlencode_def)
next
  case False
  assume ok: "qsl_ok kvs"
  let ?f = "\<lambda>(k, v). quote_plus k @ ''='' @ quote_plus v"
  let ?g = "\<lambda>f. case partition_at CHR ''='' f of
       (k, Some (c # v)) \<Rightarrow> [(unquote_plus k, unquote_plus (c # v))] | _ \<Rightarrow> []"
  have field: "(case partition_at CHR ''='' (quote_plus k @ ''='' @ quote_plus v) of
       (k, Some (c # v)) \<Rightarrow> [(unquote_plus k, unquote_plus (c # v))] | _ \<Rightarrow> []) = [(k, v)]"
    if "ascii k" "ascii v" "v \<noteq> []" for k v
  proof -
    obtain c w where cw: "quote_plus v = c # w" using \<open>v \<noteq> []\<close> quote_plus_Nil [of v] by (cases "quote_plus v") auto
    have "partition_at CHR ''='' (quote_plus k @ ''='' @ quote_plus v) = (quote_plus k, Some (quote_plus v))"
      using quote_plus_safe [OF that(1)] by (simp add: partition_at_app)
    then show ?thesis using that cw unquote_quote [OF that(1)] unquote_quote [OF that(2)] by simp
  qed
  have "list_all (\<lambda>f. CHR ''&'' \<notin> set f) (map ?f kvs)"
    using ok quote_plus_safe by (fastforce simp: qsl_ok_def list_all_iff)
  then have "split_on CHR ''&'' (urlencode kvs) = map ?f kvs"
    using False by (simp add: urlencode_def split_on_join)
  then have parse: "parse_qsl (urlencode kvs) = concat (map ?g (map ?f kvs))"
    unfolding parse_qsl_def by (simp only:)
  have "?g (?f p) = [p]" if "p \<in> set kvs" for p
  proof (cases p)
    case (Pair k v)
    with ok that have "ascii k" "ascii v" "v \<noteq> []" by (auto simp: qsl_ok_def list_all_iff)
    from field [OF this] Pair show ?thesis by (simp only: prod.case)
  qed
  then have "map ?g (map ?f kvs) = map (\<lambda>p. [p]) kvs" unfolding map_map by (intro map_cong) (simp_all only: comp_apply)
  then have "concat (map ?g (map ?f kvs)) = concat (map (\<lambda>p. [p]) kvs)" by (simp only:)
  also have "\<dots> = kvs" by simp
  finally show ?thesis unfolding parse .
qed

end
