(* ===== verification/Config.thy ===== *)
theory Config
  imports Url
begin

text \<open>
  \<open>app/config.py\<close>: the settings, read from an environment (a map from names to values). Whether a
  certificate file exists is a parameter. A float setting is an exact rational; the texts \<open>inf\<close>
  and \<open>nan\<close> are outside the model and read as invalid.
\<close>

section \<open>Parsing of single values\<close>

definition csv :: "string option \<Rightarrow> string list" where
  "csv v = (case v of None \<Rightarrow> [] | Some s \<Rightarrow>
     if s = [] then [] else filter (\<lambda>w. w \<noteq> []) (map strip (split_on CHR '','' s)))"

text \<open>\<open>int(text)\<close>: white space around, a sign, digits with single underscores between them.\<close>

fun py_digits :: "string \<Rightarrow> string option" where
  "py_digits [] = None"
| "py_digits [c] = (if is_digit c then Some [c] else None)"
| "py_digits (c # d # s) =
     (if \<not> is_digit c then None
      else if d = CHR ''_'' then map_option ((#) c) (py_digits s)
      else map_option ((#) c) (py_digits (d # s)))"

definition signed :: "string \<Rightarrow> bool \<times> string" where
  "signed s = (case s of [] \<Rightarrow> (False, []) | c # r \<Rightarrow>
     if c = CHR ''-'' then (True, r) else if c = CHR ''+'' then (False, r) else (False, s))"

definition py_int :: "string \<Rightarrow> int option" where
  "py_int v = (case signed (strip v) of (neg, ds) \<Rightarrow>
     map_option (\<lambda>d. (if neg then -1 else 1) * int (digits_val d)) (py_digits ds))"

definition int_or :: "string option \<Rightarrow> int \<Rightarrow> int" where
  "int_or v d = (case v of None \<Rightarrow> d | Some s \<Rightarrow> (case py_int s of None \<Rightarrow> d | Some n \<Rightarrow> n))"

text \<open>\<open>float(text)\<close>: digits, an optional fraction, an optional exponent.\<close>

definition py_digits_or_empty :: "string \<Rightarrow> string option" where
  "py_digits_or_empty s = (if s = [] then Some [] else py_digits s)"

definition py_mantissa :: "string \<Rightarrow> rat option" where
  "py_mantissa s = (case partition_at CHR ''.'' s of (i, f) \<Rightarrow>
     (case (py_digits_or_empty i, py_digits_or_empty (case f of None \<Rightarrow> [] | Some x \<Rightarrow> x)) of
        (Some a, Some b) \<Rightarrow>
          if a = [] \<and> b = [] then None else Some (of_nat (digits_val (a @ b)) / 10 ^ length b)
      | _ \<Rightarrow> None))"

definition py_float :: "string \<Rightarrow> rat option" where
  "py_float v = (case signed (lower (strip v)) of (neg, s) \<Rightarrow>
     (case partition_at CHR ''e'' s of (m, e) \<Rightarrow>
       (case (py_mantissa m, case e of None \<Rightarrow> Some 0 | Some x \<Rightarrow>
            (case signed x of (n, ds) \<Rightarrow> map_option (\<lambda>d. (if n then -1 else 1) * int (digits_val d)) (py_digits ds))) of
          (Some a, Some k) \<Rightarrow> Some ((if neg then -1 else 1) * a * (if 0 \<le> k then 10 ^ nat k else 1 / 10 ^ nat (- k)))
        | _ \<Rightarrow> None)))"

definition float_or :: "string option \<Rightarrow> rat \<Rightarrow> rat" where
  "float_or v d = (case v of None \<Rightarrow> d | Some s \<Rightarrow>
     if s = [] then d else (case py_float s of None \<Rightarrow> d | Some x \<Rightarrow> x))"

definition opt_int :: "string option \<Rightarrow> int option" where
  "opt_int v = (case v of None \<Rightarrow> None | Some s \<Rightarrow> if strip s = [] then None else py_int s)"

definition bool_or :: "string option \<Rightarrow> bool \<Rightarrow> bool" where
  "bool_or v d = (case v of None \<Rightarrow> d | Some s \<Rightarrow> lower (strip s) \<in> set [''1'', ''true'', ''yes'', ''on''])"

section \<open>The database endpoint\<close>

definition local_db_hosts :: "string list" where
  "local_db_hosts = [''localhost'', ''127.0.0.1'', ''::1'', ''postgres'', ''db'', ''database'']"

definition is_local_host :: "string option \<Rightarrow> bool" where
  "is_local_host host = (case host of None \<Rightarrow> True | Some h \<Rightarrow>
     if h = [] then True
     else
       let n = lower (strip h);
           n' = (if prefix ''['' n \<and> suffix '']'' n then butlast (tl n) else n)
       in if n' \<in> set local_db_hosts then True else \<not> contains ''.'' n')"

definition validate_db_endpoint :: "string option \<Rightarrow> string \<Rightarrow> unit result" where
  "validate_db_endpoint url sslmode =
     (case url of None \<Rightarrow> Inr () | Some u \<Rightarrow>
        if u = [] \<or> sslmode \<noteq> ''prefer'' then Inr ()
        else (case urlsplit u of
            None \<Rightarrow> Inr ()
          | Some parts \<Rightarrow>
              if \<not> is_local_host (hostname (u_netloc parts))
              then raise_value (''DB_SSLMODE=prefer would allow plaintext to remote database host '' @
                (case hostname (u_netloc parts) of None \<Rightarrow> ''None'' | Some h \<Rightarrow> h) @
                ''; set DB_SSLMODE=require (or verify-full with DB_SSLROOTCERT)'')
              else Inr ()))"

section \<open>Settings\<close>

record settings =
  database_url :: "string option"
  admin_database_url :: "string option"
  sqlite_db_path :: string
  db_pool_min_size :: int
  db_pool_max_size :: int
  db_pool_timeout :: rat
  db_pool_max_idle :: rat
  db_pool_max_lifetime :: rat
  db_prepare_threshold :: "int option"
  db_connect_timeout :: int
  db_sslmode :: string
  db_sslrootcert :: "string option"
  db_application_name :: string
  db_statement_timeout_ms :: int
  db_idle_tx_timeout_ms :: int
  db_lock_timeout_ms :: int
  opensearch_url :: "string option"
  opensearch_index :: string
  cors_origins :: "string list"
  rate_limit_per_minute :: int
  rate_limit_trust_proxy :: bool
  max_sse_subscribers :: int
  log_level :: string
  github_token :: "string option"
  nvd_window_days :: int
  kev_source_days :: int
  feed_cache_ttl :: int
  retention_days :: int
  epss_max_cves :: int
  osv_max_cves_per_run :: int
  discord_webhook_url :: "string option"
  slack_webhook_url :: "string option"
  alert_email_to :: "string option"
  smtp_host :: "string option"
  smtp_port :: int
  smtp_user :: "string option"
  smtp_password :: "string option"
  alert_from :: string

text \<open>\<open>env.get(k) or None\<close>, \<open>env.get(k) or d\<close> and \<open>env.get(k, d)\<close>.\<close>

definition env_or_none :: "(string \<Rightarrow> string option) \<Rightarrow> string \<Rightarrow> string option" where
  "env_or_none env k = (case env k of None \<Rightarrow> None | Some s \<Rightarrow> if s = [] then None else Some s)"

definition env_or :: "(string \<Rightarrow> string option) \<Rightarrow> string \<Rightarrow> string \<Rightarrow> string" where
  "env_or env k d = (case env_or_none env k of None \<Rightarrow> d | Some s \<Rightarrow> s)"

definition env_def :: "(string \<Rightarrow> string option) \<Rightarrow> string \<Rightarrow> string \<Rightarrow> string" where
  "env_def env k d = (case env k of None \<Rightarrow> d | Some s \<Rightarrow> s)"

definition pool_sizes :: "int \<Rightarrow> int \<Rightarrow> unit result" where
  "pool_sizes mn mx =
     (if mn < 0 \<or> mx < 1 \<or> mx < mn
      then raise_value ''DB_POOL_MIN_SIZE/DB_POOL_MAX_SIZE are invalid: require 0 <= min <= max and max >= 1''
      else Inr ())"

definition root_cert :: "(string \<Rightarrow> bool) \<Rightarrow> string option \<Rightarrow> unit result" where
  "root_cert is_file cert =
     (case cert of None \<Rightarrow> Inr ()
      | Some c \<Rightarrow> if is_file c then Inr () else raise_value (''DB_SSLROOTCERT does not exist: '' @ c))"

definition from_env :: "(string \<Rightarrow> bool) \<Rightarrow> string \<Rightarrow> (string \<Rightarrow> string option) \<Rightarrow> settings result" where
  "from_env is_file default_db env =
     (let url = env_or_none env ''DATABASE_URL'';
          admin = env_or_none env ''ADMIN_DATABASE_URL'';
          mode = env_or env ''DB_SSLMODE'' ''prefer'';
          cert = env_or_none env ''DB_SSLROOTCERT'';
          mn = int_or (env ''DB_POOL_MIN_SIZE'') 1;
          mx = int_or (env ''DB_POOL_MAX_SIZE'') 4
      in res_bind (pool_sizes mn mx) (\<lambda>_.
         res_bind (root_cert is_file cert) (\<lambda>_.
         res_bind (validate_db_endpoint url mode) (\<lambda>_.
         res_bind (validate_db_endpoint admin mode) (\<lambda>_.
         Inr \<lparr>database_url = url, admin_database_url = admin,
           sqlite_db_path = env_def env ''SECURITY_FEED_DB'' default_db,
           db_pool_min_size = mn, db_pool_max_size = mx,
           db_pool_timeout = max 0 (float_or (env ''DB_POOL_TIMEOUT'') 30),
           db_pool_max_idle = max 0 (float_or (env ''DB_POOL_MAX_IDLE'') 600),
           db_pool_max_lifetime = max 0 (float_or (env ''DB_POOL_MAX_LIFETIME'') 3600),
           db_prepare_threshold = opt_int (env ''DB_PREPARE_THRESHOLD''),
           db_connect_timeout = int_or (env ''DB_CONNECT_TIMEOUT'') 10,
           db_sslmode = mode, db_sslrootcert = cert,
           db_application_name = env_or env ''DB_APPLICATION_NAME'' ''security-feed'',
           db_statement_timeout_ms = max 0 (int_or (env ''DB_STATEMENT_TIMEOUT_MS'') 15000),
           db_idle_tx_timeout_ms = max 0 (int_or (env ''DB_IDLE_TX_TIMEOUT_MS'') 30000),
           db_lock_timeout_ms = max 0 (int_or (env ''DB_LOCK_TIMEOUT_MS'') 5000),
           opensearch_url = env_or_none env ''OPENSEARCH_URL'',
           opensearch_index = env_def env ''OPENSEARCH_INDEX'' ''security-feed'',
           cors_origins = csv (env ''CORS_ORIGINS''),
           rate_limit_per_minute = int_or (env ''RATE_LIMIT_PER_MINUTE'') 120,
           rate_limit_trust_proxy = bool_or (env ''RATE_LIMIT_TRUST_PROXY'') True,
           max_sse_subscribers = int_or (env ''MAX_SSE_SUBSCRIBERS'') 100,
           log_level = env_def env ''LOG_LEVEL'' ''INFO'',
           github_token = env_or_none env ''GITHUB_TOKEN'',
           nvd_window_days = int_or (env ''NVD_WINDOW_DAYS'') 7,
           kev_source_days = int_or (env ''KEV_SOURCE_DAYS'') 7,
           feed_cache_ttl = max 30 (int_or (env ''FEED_CACHE_TTL'') 600),
           retention_days = max 0 (int_or (env ''RETENTION_DAYS'') 180),
           epss_max_cves = max 0 (int_or (env ''EPSS_MAX_CVES'') 200),
           osv_max_cves_per_run = max 0 (int_or (env ''OSV_MAX_CVES_PER_RUN'') 50),
           discord_webhook_url = env_or_none env ''DISCORD_WEBHOOK_URL'',
           slack_webhook_url = env_or_none env ''SLACK_WEBHOOK_URL'',
           alert_email_to = env_or_none env ''ALERT_EMAIL_TO'',
           smtp_host = env_or_none env ''SMTP_HOST'',
           smtp_port = int_or (env ''SMTP_PORT'') 587,
           smtp_user = env_or_none env ''SMTP_USER'',
           smtp_password = env_or_none env ''SMTP_PASSWORD'',
           alert_from = env_def env ''ALERT_FROM'' ''security-feed@example.com''\<rparr>)))))"

text \<open>The settings of an empty environment.\<close>

definition default_settings :: settings where
  "default_settings = projr (from_env (\<lambda>_. False) ''security_feed.db'' (\<lambda>_. None))"

section \<open>Lemmas\<close>

lemma raise_value_Inl [simp]: "raise_value m \<noteq> Inr x" "Inr x \<noteq> raise_value m"
  by (simp_all add: raise_value_def)

lemma py_digits_value: "py_digits s = Some d \<Longrightarrow> d \<noteq> [] \<and> list_all is_digit d"
  by (induction s arbitrary: d rule: py_digits.induct) (auto split: if_splits)

lemma from_env_Inr:
  assumes "from_env is_file dflt env = Inr s"
  shows "pool_sizes (db_pool_min_size s) (db_pool_max_size s) = Inr ()"
    "root_cert is_file (db_sslrootcert s) = Inr ()"
    "validate_db_endpoint (database_url s) (db_sslmode s) = Inr ()"
    "validate_db_endpoint (admin_database_url s) (db_sslmode s) = Inr ()"
    "0 \<le> db_pool_timeout s" "0 \<le> retention_days s" "30 \<le> feed_cache_ttl s" "0 \<le> epss_max_cves s"
    "0 \<le> osv_max_cves_per_run s" "0 \<le> db_statement_timeout_ms s" "0 \<le> db_lock_timeout_ms s"
    "0 \<le> db_idle_tx_timeout_ms s" "0 \<le> db_pool_max_idle s" "0 \<le> db_pool_max_lifetime s"
    "cors_origins s = csv (env ''CORS_ORIGINS'')"
  using assms unfolding from_env_def Let_def res_bind_Inr_iff by (auto simp del: Inr_inject dest!: Inr_inject [THEN iffD1])

lemma urlsplit_Nil: "urlsplit [] = Some parts \<Longrightarrow> is_local_host (hostname (u_netloc parts))"
  by (auto simp: urlsplit_def split_scheme_def hostname_def rpartition_last_def before_def is_local_host_def)

lemma validate_local:
  "validate_db_endpoint (Some u) ''prefer'' = Inr () \<Longrightarrow> urlsplit u = Some parts \<Longrightarrow> is_local_host (hostname (u_netloc parts))"
  by (cases "u = []") (auto simp: validate_db_endpoint_def urlsplit_Nil split: if_splits)

text \<open>The hosts the check lets pass: a dot makes a name remote, but for the loopback address.\<close>

lemma local_host_dot:
  assumes "is_local_host (Some h)"
  shows "lower (strip h) \<in> {''127.0.0.1'', ''[127.0.0.1]''} \<or> CHR ''.'' \<notin> set (lower (strip h))"
proof (cases "h = []")
  case True
  then show ?thesis by (simp add: strip_def lower_def lstrip_def rstrip_def)
next
  case False
  let ?n = "lower (strip h)"
  have c: "contains ''.'' m \<longleftrightarrow> CHR ''.'' \<in> set m" for m
    by (auto simp: contains_iff in_set_conv_decomp)
  have ok: "m = ''127.0.0.1'' \<or> CHR ''.'' \<notin> set m" if "m \<in> set local_db_hosts \<or> \<not> contains ''.'' m" for m
    using that by (auto simp: c local_db_hosts_def)
  show ?thesis
  proof (cases "prefix ''['' ?n \<and> suffix '']'' ?n")
    case True
    then obtain r where r: "?n = CHR ''['' # r" by (auto simp: prefix_def)
    from True obtain u where u: "?n = u @ '']''" by (auto simp: suffix_def)
    with r obtain m where m: "?n = CHR ''['' # m @ '']''" by (cases u) auto
    have "m \<in> set local_db_hosts \<or> \<not> contains ''.'' m"
      using assms False True unfolding is_local_host_def Let_def by (auto simp: m split: if_splits)
    from ok [OF this] show ?thesis unfolding m by auto
  next
    case no: False
    then have "?n \<in> set local_db_hosts \<or> \<not> contains ''.'' ?n"
      using assms False unfolding is_local_host_def Let_def by (auto split: if_splits)
    from ok [OF this] show ?thesis by auto
  qed
qed

section \<open>Properties\<close>


definition demo_env :: "string \<Rightarrow> string option" where
  "demo_env k = (if k = ''DATABASE_URL'' then Some ''postgres://db:5432/feed'' else None)"


text \<open>A remote database behind an IPv6 literal passes the check with \<open>sslmode=prefer\<close>: the host has no
  dot, so it counts as a local service name.\<close>

theorem ipv6_literal_counts_as_local:
  "validate_db_endpoint (Some ''postgres://user@[2001:db8::1]:5432/feed'') ''prefer'' = Inr () \<and>
   is_local_host (Some ''2001:db8::1'')"
  by code_simp

text \<open>Only \<open>prefer\<close> is checked: a remote host with \<open>sslmode=disable\<close>, which never encrypts,
  is accepted, though the docstring asks for at least \<open>require\<close>; with \<open>prefer\<close> the same
  host is refused.\<close>

theorem sslmode_disable_accepted:
  "validate_db_endpoint (Some ''postgres://db.example.com/feed'') ''disable'' = Inr () \<and>
   \<not> res_ok (validate_db_endpoint (Some ''postgres://db.example.com/feed'') ''prefer'')"
  by code_simp

end
