(* ===== verification/Calendar.thy ===== *)
theory Calendar
  imports PyText
begin

text \<open>
  The proleptic Gregorian calendar behind Python's \<open>datetime\<close> (the standard library's
  \<open>_ymd2ord\<close> and \<open>_ord2ymd\<close>, with days counted from 0), and the proof that the
  two conversions are inverse.
\<close>

section \<open>Calendar\<close>

definition is_leap :: "int \<Rightarrow> bool" where
  "is_leap y \<longleftrightarrow> y mod 4 = 0 \<and> (y mod 100 \<noteq> 0 \<or> y mod 400 = 0)"

definition days_before_year :: "int \<Rightarrow> int" where
  "days_before_year y = (let z = y - 1 in 365 * z + z div 4 - z div 100 + z div 400)"

definition days_before_month :: "bool \<Rightarrow> int \<Rightarrow> int" where
  "days_before_month leap m =
     [0, 0, 31, 59, 90, 120, 151, 181, 212, 243, 273, 304, 334, 365] ! nat m
     + (if leap \<and> 2 < m then 1 else 0)"

definition days_in_month :: "bool \<Rightarrow> int \<Rightarrow> int" where
  "days_in_month leap m = days_before_month leap (m + 1) - days_before_month leap m"

definition valid_ymd :: "int \<Rightarrow> int \<Rightarrow> int \<Rightarrow> bool" where
  "valid_ymd y m d \<longleftrightarrow> 1 \<le> y \<and> 1 \<le> m \<and> m \<le> 12 \<and> 1 \<le> d \<and> d \<le> days_in_month (is_leap y) m"

text \<open>Days since 0001-01-01 (which is day 0).\<close>

definition ymd2days :: "int \<Rightarrow> int \<Rightarrow> int \<Rightarrow> int" where
  "ymd2days y m d = days_before_year y + days_before_month (is_leap y) m + d - 1"

text \<open>The year: 400-year cycles, then centuries, 4-year cycles and years within them.\<close>

definition year_of :: "int \<Rightarrow> int" where
  "year_of n =
     (let a = n div 146097; r = n mod 146097;
          b = min 3 (r div 36524); r = r - 36524 * b;
          c = r div 1461; r = r mod 1461;
          d = min 3 (r div 365)
      in 400 * a + 100 * b + 4 * c + d + 1)"

definition month_of_yday :: "bool \<Rightarrow> int \<Rightarrow> int" where
  "month_of_yday leap k =
     int (length (filter (\<lambda>m. days_before_month leap m \<le> k) [1, 2, 3, 4, 5, 6, 7, 8, 9, 10, 11, 12]))"

definition days2ymd :: "int \<Rightarrow> int \<times> int \<times> int" where
  "days2ymd n =
     (let y = year_of n; k = n - days_before_year y; leap = is_leap y; m = month_of_yday leap k
      in (y, m, k - days_before_month leap m + 1))"

subsection \<open>The two conversions are inverse\<close>

lemma days_before_month_simps [simp]:
  "days_before_month l 1 = 0" "days_before_month l 2 = 31"
  "days_before_month l 3 = (if l then 60 else 59)" "days_before_month l 4 = (if l then 91 else 90)"
  "days_before_month l 5 = (if l then 121 else 120)" "days_before_month l 6 = (if l then 152 else 151)"
  "days_before_month l 7 = (if l then 182 else 181)" "days_before_month l 8 = (if l then 213 else 212)"
  "days_before_month l 9 = (if l then 244 else 243)" "days_before_month l 10 = (if l then 274 else 273)"
  "days_before_month l 11 = (if l then 305 else 304)" "days_before_month l 12 = (if l then 335 else 334)"
  "days_before_month l 13 = (if l then 366 else 365)"
  by (simp_all add: days_before_month_def)

lemma month_cases:
  assumes "1 \<le> m" "m \<le> (12::int)"
  shows "m = 1 \<or> m = 2 \<or> m = 3 \<or> m = 4 \<or> m = 5 \<or> m = 6 \<or> m = 7 \<or> m = 8 \<or> m = 9 \<or> m = 10 \<or> m = 11 \<or> m = 12"
  using assms by presburger

lemma days_before_year_split:
  assumes "0 \<le> b" "b \<le> 3" "0 \<le> c" "c \<le> 24" "0 \<le> d" "d \<le> 3"
  shows "days_before_year (400 * a + 100 * b + 4 * c + d + 1)
    = 146097 * a + 36524 * b + 1461 * c + 365 * d"
proof -
  let ?z = "400 * a + 100 * b + 4 * c + d"
  have "?z div 4 = 100 * a + 25 * b + c" by (rule int_div_pos_eq [of _ _ _ d]) (use assms in auto)
  moreover have "?z div 100 = 4 * a + b" by (rule int_div_pos_eq [of _ _ _ "4 * c + d"]) (use assms in auto)
  moreover have "?z div 400 = a" by (rule int_div_pos_eq [of _ _ _ "100 * b + 4 * c + d"]) (use assms in auto)
  ultimately show ?thesis by (simp add: days_before_year_def Let_def)
qed

lemma div_pred:
  assumes "0 < (k::int)"
  shows "y div k = (y - 1) div k + (if y mod k = 0 then 1 else 0)"
proof (cases "y mod k = 0")
  case True
  have "y - 1 = k * (y div k - 1) + (k - 1)"
    using True mult_div_mod_eq [of k y] by (simp add: algebra_simps)
  then have "(y - 1) div k = y div k - 1"
    by (rule int_div_pos_eq) (use assms in auto)
  with True show ?thesis by simp
next
  case False
  have "y - 1 = k * (y div k) + (y mod k - 1)"
    using mult_div_mod_eq [of k y] by simp
  moreover have "0 \<le> y mod k - 1" "y mod k - 1 < k"
    using False assms pos_mod_sign [of k y] pos_mod_bound [of k y] by linarith+
  ultimately have "(y - 1) div k = y div k" by (rule int_div_pos_eq)
  with False show ?thesis by simp
qed

lemma days_before_year_Suc:
  "days_before_year (y + 1) = days_before_year y + (if is_leap y then 366 else 365)"
proof -
  have *: "y mod 400 = 0 \<Longrightarrow> y mod 100 = 0" "y mod 100 = 0 \<Longrightarrow> y mod 4 = 0"
    by (auto simp flip: dvd_eq_mod_eq_0 intro: dvd_trans [of 100 400] dvd_trans [of 4 100])
  have d4: "y div 4 = (y - 1) div 4 + (if y mod 4 = 0 then 1 else 0)"
    and d100: "y div 100 = (y - 1) div 100 + (if y mod 100 = 0 then 1 else 0)"
    and d400: "y div 400 = (y - 1) div 400 + (if y mod 400 = 0 then 1 else 0)"
    by (rule div_pred, simp)+
  have sums: "365 * y + (p + (if A then 1 else 0)) - (q + (if B then 1 else 0)) + (r + (if C then 1 else 0))
      = 365 * (y - 1) + p - q + r + (if A \<and> (\<not> B \<or> C) then 366 else 365)"
    if "C \<longrightarrow> B" "B \<longrightarrow> A" for p q r :: int and A B C :: bool
    using that by (cases A; cases B; cases C; simp)
  show ?thesis
    unfolding days_before_year_def is_leap_def Let_def add_diff_cancel_right' d4 d100 d400
    by (rule sums) (use * in blast)+
qed

lemma days_before_year_mono: "y \<le> z \<Longrightarrow> days_before_year y + 365 * (z - y) \<le> days_before_year z"
proof (induction z rule: int_ge_induct)
  case (step z)
  then show ?case by (simp add: days_before_year_Suc)
qed simp

lemma year_of_bounds:
  shows "days_before_year (year_of n) \<le> n" and "n < days_before_year (year_of n + 1)"
proof -
  define a r where "a = n div 146097" and "r = n mod 146097"
  define b where "b = min 3 (r div 36524)"
  define r2 where "r2 = r - 36524 * b"
  define c r3 where "c = r2 div 1461" and "r3 = r2 mod 1461"
  define d where "d = min 3 (r3 div 365)"
  have n: "n = 146097 * a + r" and r: "0 \<le> r" "r < 146097"
    by (simp_all add: a_def r_def)
  have r2: "0 \<le> r2" "r2 \<le> 36524" "b < 3 \<Longrightarrow> r2 < 36524"
    using r by (auto simp: r2_def b_def min_def; linarith)+
  have b: "0 \<le> b" "b \<le> 3" using r by (auto simp: b_def)
  have r3: "r2 = 1461 * c + r3" "0 \<le> r3" "r3 < 1461" by (simp_all add: c_def r3_def)
  have c: "0 \<le> c" "c \<le> 24" using r2 r3 by linarith+
  have d: "0 \<le> d" "d \<le> 3" using r3 by (auto simp: d_def)
  have r4: "365 * d \<le> r3" "d < 3 \<Longrightarrow> r3 < 365 * d + 365" "d = 3 \<Longrightarrow> r3 \<le> 1460"
    using r3 by (auto simp: d_def min_def; linarith)+
  have y: "year_of n = 400 * a + 100 * b + 4 * c + d + 1"
    by (simp add: year_of_def Let_def a_def r_def b_def r2_def c_def r3_def d_def)
  have dby: "days_before_year (year_of n) = 146097 * a + 36524 * b + 1461 * c + 365 * d"
    unfolding y by (rule days_before_year_split [OF b c d])
  show "days_before_year (year_of n) \<le> n"
    unfolding dby using n r3(1) r4(1) by (simp add: r2_def)
  have leap: "is_leap (year_of n)" if "d = 3" "r3 = 1460"
  proof -
    have y4: "year_of n = 4 * (100 * a + 25 * b + c + 1) + 0" using y that by simp
    have "year_of n mod 4 = 0" by (rule int_mod_pos_eq [OF y4]) auto
    moreover have "year_of n mod 100 \<noteq> 0 \<or> year_of n mod 400 = 0"
    proof (cases "c < 24")
      case True
      have "year_of n = 100 * (4 * a + b) + 4 * (c + 1)" using y that by simp
      then have "year_of n mod 100 = 4 * (c + 1)" by (rule int_mod_pos_eq) (use c True in auto)
      then show ?thesis using c by simp
    next
      case False
      with c have "c = 24" by simp
      with r2 r3(1) that b have "b = 3" by force
      have "year_of n = 400 * (a + 1) + 0" using y that \<open>c = 24\<close> \<open>b = 3\<close> by simp
      then have "year_of n mod 400 = 0" by (rule int_mod_pos_eq) auto
      then show ?thesis by simp
    qed
    ultimately show ?thesis by (simp add: is_leap_def)
  qed
  have "n = 146097 * a + 36524 * b + 1461 * c + r3" using n r3(1) by (simp add: r2_def)
  moreover have "r3 < 365 * d + (if is_leap (year_of n) then 366 else 365)"
  proof (cases "d = 3 \<and> r3 = 1460")
    case True
    with leap show ?thesis by simp
  next
    case False
    with r4 d have "r3 < 365 * d + 365" by (cases "d = 3") auto
    then show ?thesis by simp
  qed
  ultimately show "n < days_before_year (year_of n + 1)"
    unfolding days_before_year_Suc dby by linarith
qed

lemma year_of_eq:
  assumes "days_before_year y \<le> n" "n < days_before_year (y + 1)"
  shows "year_of n = y"
proof (rule ccontr)
  assume "year_of n \<noteq> y"
  then consider "year_of n + 1 \<le> y" | "y + 1 \<le> year_of n" by linarith
  then show False
  proof cases
    case 1
    then have "days_before_year (year_of n + 1) \<le> days_before_year y"
      using days_before_year_mono [OF 1] by simp
    with year_of_bounds(2) [of n] assms(1) show False by simp
  next
    case 2
    then have "days_before_year (y + 1) \<le> days_before_year (year_of n)"
      using days_before_year_mono [OF 2] by simp
    with year_of_bounds(1) [of n] assms(2) show False by simp
  qed
qed

lemma days_before_month_Suc:
  assumes "1 \<le> m" "m \<le> 12"
  shows "days_before_month l m \<le> days_before_month l (m + 1)"
  using month_cases [OF assms] by (elim disjE) simp_all

lemma days_before_month_mono:
  "m \<le> m' \<Longrightarrow> 1 \<le> m \<Longrightarrow> m' \<le> 13 \<Longrightarrow> days_before_month l m \<le> days_before_month l m'"
proof (induction m' rule: int_ge_induct)
  case (step i)
  then show ?case using days_before_month_Suc [of i l] by simp
qed simp

lemma month_of_yday_eq:
  assumes "1 \<le> m" "m \<le> 12" "days_before_month l m \<le> k" "k < days_before_month l (m + 1)"
  shows "month_of_yday l k = m"
proof -
  have "days_before_month l j \<le> k \<longleftrightarrow> j \<le> m" if "1 \<le> j" "j \<le> 12" for j
  proof
    assume "days_before_month l j \<le> k"
    with assms(4) days_before_month_mono [of "m + 1" j l] that assms show "j \<le> m" by force
  next
    assume "j \<le> m"
    with days_before_month_mono [of j m l] that assms show "days_before_month l j \<le> k" by simp
  qed
  then have "filter (\<lambda>j. days_before_month l j \<le> k) js = filter (\<lambda>j. j \<le> m) js"
    if "set js \<subseteq> {1..12}" for js
    using that by (intro filter_cong) auto
  from this [of "[1, 2, 3, 4, 5, 6, 7, 8, 9, 10, 11, 12]"] have "month_of_yday l k = int (length (filter (\<lambda>j. j \<le> m) [1, 2, 3, 4, 5, 6, 7, 8, 9, 10, 11, 12]))"
    by (simp del: filter.simps add: month_of_yday_def)
  with month_cases [OF assms(1,2)] show ?thesis by (elim disjE) simp_all
qed

lemma interval_search:
  "f 1 \<le> (k::int) \<Longrightarrow> k < f (1 + int n) \<Longrightarrow> \<exists>m. 1 \<le> m \<and> m \<le> int n \<and> f m \<le> k \<and> k < f (m + 1)"
proof (induction n)
  case (Suc n)
  show ?case
  proof (cases "k < f (1 + int n)")
    case True
    with Suc show ?thesis by force
  next
    case False
    with Suc.prems show ?thesis by (intro exI [of _ "1 + int n"]) (auto simp: algebra_simps)
  qed
qed simp

lemma month_of_yday_bounds:
  assumes "0 \<le> k" "k < days_before_month l 13"
  shows "1 \<le> month_of_yday l k" "month_of_yday l k \<le> 12"
    "days_before_month l (month_of_yday l k) \<le> k" "k < days_before_month l (month_of_yday l k + 1)"
proof -
  obtain m where m: "1 \<le> m" "m \<le> 12" "days_before_month l m \<le> k" "k < days_before_month l (m + 1)"
    using interval_search [of "days_before_month l" k 12] assms by auto
  with month_of_yday_eq [OF m] show "1 \<le> month_of_yday l k" "month_of_yday l k \<le> 12"
    "days_before_month l (month_of_yday l k) \<le> k" "k < days_before_month l (month_of_yday l k + 1)"
    by auto
qed

lemma year_of_pos: "0 \<le> n \<Longrightarrow> 1 \<le> year_of n"
  using days_before_year_mono [of "year_of n + 1" 1] year_of_bounds(2) [of n]
  by (cases "1 \<le> year_of n") (auto simp: days_before_year_def)

lemma ymd2days_days2ymd:
  assumes "days2ymd n = (y, m, d)"
  shows "ymd2days y m d = n"
  using assms by (auto simp: days2ymd_def ymd2days_def Let_def)

lemma days2ymd_valid:
  assumes "0 \<le> n" "days2ymd n = (y, m, d)"
  shows "valid_ymd y m d"
proof -
  let ?k = "n - days_before_year (year_of n)" and ?l = "is_leap (year_of n)"
  have "0 \<le> ?k" "?k < days_before_month ?l 13"
    using year_of_bounds [of n] days_before_year_Suc [of "year_of n"] by auto
  from month_of_yday_bounds [OF this] year_of_pos [OF assms(1)] assms(2) show ?thesis
    by (auto simp: days2ymd_def Let_def valid_ymd_def days_in_month_def)
qed

lemma days2ymd_ymd2days:
  assumes "valid_ymd y m d"
  shows "days2ymd (ymd2days y m d) = (y, m, d)"
proof -
  let ?n = "ymd2days y m d" and ?l = "is_leap y"
  from assms have m: "1 \<le> m" "m \<le> 12"
    and k: "days_before_month ?l m \<le> ?n - days_before_year y"
      "?n - days_before_year y < days_before_month ?l (m + 1)"
    by (auto simp: valid_ymd_def ymd2days_def days_in_month_def)
  have "0 \<le> ?n - days_before_year y" "?n - days_before_year y < (if ?l then 366 else 365)"
    using k m days_before_month_mono [of 1 m ?l] days_before_month_mono [of "m + 1" 13 ?l] by auto
  then have y: "year_of ?n = y"
    by (intro year_of_eq) (auto simp: days_before_year_Suc)
  have "month_of_yday ?l (?n - days_before_year y) = m" by (rule month_of_yday_eq [OF m k])
  with y show ?thesis by (simp add: days2ymd_def Let_def) (simp add: ymd2days_def)
qed

subsection \<open>The order of dates is the order of days\<close>

lemma ymd2days_bounds:
  assumes "valid_ymd y m d"
  shows "days_before_year y \<le> ymd2days y m d" "ymd2days y m d < days_before_year (y + 1)"
  using assms days_before_month_mono [of 1 m "is_leap y"] days_before_month_mono [of "m + 1" 13 "is_leap y"]
  by (auto simp: valid_ymd_def ymd2days_def days_in_month_def days_before_year_Suc)

lemma ymd2days_less:
  assumes "valid_ymd y m d" "valid_ymd y' m' d'" "(y, m, d) < (y', m', d')"
  shows "ymd2days y m d < ymd2days y' m' d'"
proof -
  from assms(3) consider "y < y'" | "y = y'" "m < m'" | "y = y'" "m = m'" "d < d'"
    by (auto simp: le_less)
  then show ?thesis
  proof cases
    case 1
    then have "days_before_year (y + 1) \<le> days_before_year y'"
      using days_before_year_mono [of "y + 1" y'] by simp
    with ymd2days_bounds(2) [OF assms(1)] ymd2days_bounds(1) [OF assms(2)] show ?thesis by simp
  next
    case 2
    with assms days_before_month_mono [of "m + 1" m' "is_leap y"] show ?thesis
      by (auto simp: valid_ymd_def ymd2days_def days_in_month_def)
  next
    case 3
    then show ?thesis by (simp add: ymd2days_def)
  qed
qed

lemma days2ymd_eq_iff: "days2ymd a = days2ymd b \<longleftrightarrow> a = b"
proof
  obtain y m d where eq: "days2ymd a = (y, m, d)" by (metis prod_cases3)
  assume "days2ymd a = days2ymd b"
  with eq have "days2ymd b = (y, m, d)" by simp
  with eq show "a = b" using ymd2days_days2ymd by blast
qed simp

lemma days2ymd_less_iff:
  assumes "0 \<le> a" "0 \<le> b"
  shows "days2ymd a < days2ymd b \<longleftrightarrow> a < b"
proof -
  obtain y m d y' m' d' where eq: "days2ymd a = (y, m, d)" "days2ymd b = (y', m', d')"
    by (metis prod_cases3)
  have v: "valid_ymd y m d" "valid_ymd y' m' d'"
    using days2ymd_valid assms eq by blast+
  have ab: "ymd2days y m d = a" "ymd2days y' m' d' = b"
    using ymd2days_days2ymd eq by blast+
  have "days2ymd a < days2ymd b \<Longrightarrow> a < b" "days2ymd b < days2ymd a \<Longrightarrow> b < a"
    using ymd2days_less [OF v] ymd2days_less [OF v(2,1)] by (simp_all only: eq ab)
  then show ?thesis
    by (metis days2ymd_eq_iff less_asym less_linear)
qed

lemma days2ymd_range:
  assumes "0 \<le> n" "n < 3652059" "days2ymd n = (y, m, d)"
  shows "1 \<le> y" "y \<le> 9999" "1 \<le> m" "m \<le> 12" "1 \<le> d" "d \<le> 31"
proof -
  have v: "valid_ymd y m d" by (rule days2ymd_valid [OF assms(1,3)])
  then show "1 \<le> y" "1 \<le> m" "m \<le> 12" "1 \<le> d" by (auto simp: valid_ymd_def)
  have "y = year_of n" using assms(3) by (auto simp: days2ymd_def Let_def)
  then have "days_before_year y \<le> n" using year_of_bounds(1) by simp
  moreover have "days_before_year 10000 = 3652059" by (simp add: days_before_year_def)
  ultimately show "y \<le> 9999"
    using assms(2) days_before_year_mono [of 10000 y] by (cases "10000 \<le> y") auto
  have "days_in_month l m \<le> 31" if "1 \<le> m" "m \<le> 12" for l
    using month_cases [OF that] by (elim disjE) (simp_all add: days_in_month_def)
  from this [of "is_leap y"] v show "d \<le> 31" by (auto simp: valid_ymd_def)
qed

end
