(* ===== verification/PyTime.thy ===== *)
theory PyTime
  imports Calendar
begin

text \<open>
  Python's \<open>datetime\<close>: a wall clock, kept as the microseconds since 0001-01-01T00:00, and
  the offset from UTC, \<open>None\<close> for a naive value. \<open>isoformat\<close> and
  \<open>fromisoformat\<close> print and read them. Comparing a naive with an aware value raises
  \<open>TypeError\<close>. Years outside 1..9999, where the library raises \<open>OverflowError\<close>,
  are outside the model (\<open>dt_range\<close> names the range).
\<close>

section \<open>datetime values\<close>

record pydt =
  dt_wall :: int
  dt_off :: "int option"

definition utc :: "int \<Rightarrow> pydt" where
  "utc w = \<lparr>dt_wall = w, dt_off = Some 0\<rparr>"

text \<open>\<open>datetime.min.replace(tzinfo=timezone.utc)\<close>\<close>

definition dt_min :: pydt where
  "dt_min = utc 0"

definition us_day :: int where "us_day = 86400000000"
definition us_hour :: int where "us_hour = 3600000000"
definition us_min :: int where "us_min = 60000000"
definition us_sec :: int where "us_sec = 1000000"

lemmas us_defs = us_day_def us_hour_def us_min_def us_sec_def

text \<open>The wall clocks of the years 1 to 9999.\<close>

definition dt_range :: "int \<Rightarrow> bool" where
  "dt_range w \<longleftrightarrow> 0 \<le> w \<and> w < 3652059 * us_day"

text \<open>The instant of an aware value; comparing it with a naive one raises.\<close>

definition instant :: "pydt \<Rightarrow> int" where
  "instant d = dt_wall d - (case dt_off d of None \<Rightarrow> 0 | Some f \<Rightarrow> f)"

definition dt_aware :: "pydt \<Rightarrow> bool" where
  "dt_aware d \<longleftrightarrow> dt_off d \<noteq> None"

definition dt_comparable :: "pydt \<Rightarrow> pydt \<Rightarrow> bool" where
  "dt_comparable a b \<longleftrightarrow> dt_aware a = dt_aware b"

lemma utc_simps [simp]: "dt_wall (utc w) = w" "dt_off (utc w) = Some 0" "instant (utc w) = w" "dt_aware (utc w)"
  by (simp_all add: utc_def instant_def dt_aware_def)

text \<open>Whole seconds of a difference: \<open>int(td.total_seconds())\<close> truncates towards zero.\<close>

definition trunc_seconds :: "int \<Rightarrow> int" where
  "trunc_seconds us = (if us < 0 then - (- us div us_sec) else us div us_sec)"

section \<open>isoformat\<close>

fun padn :: "nat \<Rightarrow> nat \<Rightarrow> string" where
  "padn 0 x = []"
| "padn (Suc k) x = padn k (x div 10) @ [char_of (48 + x mod 10)]"

definition iso_date :: "int \<Rightarrow> string" where
  "iso_date n = (case days2ymd n of (y, m, d) \<Rightarrow>
     padn 4 (nat y) @ ''-'' @ padn 2 (nat m) @ ''-'' @ padn 2 (nat d))"

definition iso_fraction :: "int \<Rightarrow> string" where
  "iso_fraction us = (if us = 0 then [] else CHR ''.'' # padn 6 (nat us))"

definition iso_hms :: "int \<Rightarrow> string" where
  "iso_hms t =
     padn 2 (nat (t div 3600)) @ '':'' @ padn 2 (nat (t mod 3600 div 60)) @ '':''
     @ padn 2 (nat (t mod 60))"

definition iso_offset :: "int \<Rightarrow> string" where
  "iso_offset f = (let a = \<bar>f\<bar> in
     (if f < 0 then ''-'' else ''+'') @ padn 2 (nat (a div us_hour)) @ '':''
     @ padn 2 (nat (a mod us_hour div us_min))
     @ (if a mod us_min = 0 then []
        else '':'' @ padn 2 (nat (a mod us_min div us_sec)) @ iso_fraction (a mod us_sec)))"

definition isoformat :: "pydt \<Rightarrow> string" where
  "isoformat d =
     iso_date (dt_wall d div us_day) @ ''T'' @ iso_hms (dt_wall d mod us_day div us_sec)
     @ iso_fraction (dt_wall d mod us_sec)
     @ (case dt_off d of None \<Rightarrow> [] | Some f \<Rightarrow> iso_offset f)"

subsection \<open>The text order of UTC stamps is their chronological order\<close>

lemma divmod_less_nat:
  assumes "0 < (k::nat)"
  shows "x < y \<longleftrightarrow> x div k < y div k \<or> x div k = y div k \<and> x mod k < y mod k"
proof (cases "x div k" "y div k" rule: linorder_cases)
  case less
  then have "\<not> y \<le> x" using div_le_mono [of y x k] assms by linarith
  with less show ?thesis by simp
next
  case equal
  have "x < y \<longleftrightarrow> x div k * k + x mod k < y div k * k + y mod k" by simp
  also have "\<dots> \<longleftrightarrow> x mod k < y mod k" unfolding equal by (rule add_less_cancel_left)
  finally show ?thesis using equal by simp
next
  case greater
  then have "\<not> x \<le> y" using div_le_mono [of x y k] assms by linarith
  with greater show ?thesis by simp
qed

lemma divmod_eq_nat:
  "x = y \<longleftrightarrow> x div k = y div k \<and> x mod k = y mod (k::nat)"
  by (metis div_mult_mod_eq)

lemma divmod_less_int:
  assumes "0 < (k::int)"
  shows "x < y \<longleftrightarrow> x div k < y div k \<or> x div k = y div k \<and> x mod k < y mod k"
proof (cases "x div k" "y div k" rule: linorder_cases)
  case less
  then have "\<not> y \<le> x" using zdiv_mono1 [of y x k] assms by linarith
  with less show ?thesis by simp
next
  case equal
  have "x < y \<longleftrightarrow> x div k * k + x mod k < y div k * k + y mod k" by simp
  also have "\<dots> \<longleftrightarrow> x mod k < y mod k" unfolding equal by (rule add_less_cancel_left)
  finally show ?thesis using equal by simp
next
  case greater
  then have "\<not> x \<le> y" using zdiv_mono1 [of x y k] assms by linarith
  with greater show ?thesis by simp
qed

lemma divmod_eq_int:
  "x = y \<longleftrightarrow> x div k = y div k \<and> x mod k = y mod (k::int)"
  by (metis div_mult_mod_eq)

lemma div_less_int:
  assumes "0 < (k::int)" "c < n * k"
  shows "c div k < n"
proof -
  have "k * (c div k) \<le> c"
    using assms(1) mult_div_mod_eq [of k c] pos_mod_sign [of k c] by linarith
  with assms(2) have "k * (c div k) < k * n" by (simp add: mult.commute)
  with assms(1) show ?thesis by (simp add: mult_less_cancel_left_pos)
qed

lemma append_less_iff:
  "length u = length v \<Longrightarrow> (u @ s < v @ t) \<longleftrightarrow> u < v \<or> u = v \<and> s < (t :: 'a::order list)"
  by (induction u v rule: list_induct2) auto

lemma digit_less: "i < 10 \<Longrightarrow> j < 10 \<Longrightarrow> (char_of (48 + i) :: char) < char_of (48 + j) \<longleftrightarrow> i < (j::nat)"
  by (simp add: less_char_def of_char_of)

lemma digit_eq: "i < 10 \<Longrightarrow> j < 10 \<Longrightarrow> (char_of (48 + i) :: char) = char_of (48 + j) \<longleftrightarrow> i = (j::nat)"
  using digit_less [of i j] digit_less [of j i] by (metis less_irrefl linorder_neqE_nat)

lemma length_padn [simp]: "length (padn n x) = n"
  by (induction n arbitrary: x) auto

lemma padn_less_eq:
  "x < 10 ^ n \<Longrightarrow> y < 10 ^ n \<Longrightarrow> (padn n x < padn n y \<longleftrightarrow> x < y) \<and> (padn n x = padn n y \<longleftrightarrow> x = y)"
proof (induction n arbitrary: x y)
  case (Suc n)
  then have IH: "padn n (x div 10) < padn n (y div 10) \<longleftrightarrow> x div 10 < y div 10"
    "padn n (x div 10) = padn n (y div 10) \<longleftrightarrow> x div 10 = y div 10"
    by (simp_all add: less_mult_imp_div_less mult.commute)
  have "padn (Suc n) x < padn (Suc n) y \<longleftrightarrow>
      x div 10 < y div 10 \<or> x div 10 = y div 10 \<and> x mod 10 < y mod 10"
    by (simp add: append_less_iff IH digit_less)
  moreover have "padn (Suc n) x = padn (Suc n) y \<longleftrightarrow> x div 10 = y div 10 \<and> x mod 10 = y mod 10"
    by (simp add: IH digit_eq)
  moreover have "x < y \<longleftrightarrow> x div 10 < y div 10 \<or> x div 10 = y div 10 \<and> x mod 10 < y mod 10"
    by (rule divmod_less_nat) simp
  moreover have "x = y \<longleftrightarrow> x div 10 = y div 10 \<and> x mod 10 = y mod 10"
    by (rule divmod_eq_nat)
  ultimately show ?case by blast
qed simp

lemma padn_append_less:
  "x < 10 ^ n \<Longrightarrow> y < 10 ^ n \<Longrightarrow> (padn n x @ s < padn n y @ t) \<longleftrightarrow> x < y \<or> x = y \<and> s < t"
  by (simp add: append_less_iff padn_less_eq)

lemma iso_date_less:
  assumes "0 \<le> a" "a < 3652059" "0 \<le> b" "b < 3652059"
  shows "iso_date a @ s < iso_date b @ t \<longleftrightarrow> a < b \<or> a = b \<and> s < t"
proof -
  obtain y m d y' m' d' where eq: "days2ymd a = (y, m, d)" "days2ymd b = (y', m', d')"
    by (metis prod_cases3)
  note bounds = days2ymd_range [OF assms(1,2) eq(1)] days2ymd_range [OF assms(3,4) eq(2)]
  have "iso_date a @ s < iso_date b @ t \<longleftrightarrow> (y, m, d) < (y', m', d') \<or> (y, m, d) = (y', m', d') \<and> s < t"
    unfolding iso_date_def eq using bounds
    by (simp add: padn_append_less nat_less_eq_zless) auto
  then show ?thesis
    by (metis days2ymd_less_iff [OF assms(1,3)] days2ymd_eq_iff eq)
qed

lemma three_fields_less:
  assumes "0 \<le> h" "h < 24" "0 \<le> m" "m < 60" "0 \<le> c" "c < 60"
    and "0 \<le> h'" "h' < 24" "0 \<le> m'" "m' < 60" "0 \<le> c'" "c' < (60::int)"
  shows "padn 2 (nat h) @ '':'' @ padn 2 (nat m) @ '':'' @ padn 2 (nat c) @ s
      < padn 2 (nat h') @ '':'' @ padn 2 (nat m') @ '':'' @ padn 2 (nat c') @ t
    \<longleftrightarrow> h < h' \<or> h = h' \<and> (m < m' \<or> m = m' \<and> (c < c' \<or> c = c' \<and> s < t))"
  using assms by (simp add: padn_append_less eq_nat_nat_iff) auto

lemma iso_hms_less:
  assumes "0 \<le> a" "a < 86400" "0 \<le> b" "b < 86400"
  shows "iso_hms a @ s < iso_hms b @ t \<longleftrightarrow> a < b \<or> a = b \<and> s < t"
proof -
  have r: "0 \<le> c div 3600" "c div 3600 < 24" "0 \<le> c mod 3600 div 60" "c mod 3600 div 60 < 60"
    "0 \<le> c mod 60" "c mod 60 < 60" "c mod 3600 mod 60 = c mod 60" if "0 \<le> c" "c < 86400" for c :: int
  proof -
    have "0 \<le> c mod 3600" "c mod 3600 < 3600" by simp_all
    then show "0 \<le> c mod 3600 div 60" "c mod 3600 div 60 < 60"
      by (simp_all only: div_less_iff_less_mult pos_imp_zdiv_nonneg_iff zero_less_numeral)
    show "c mod 3600 mod 60 = c mod 60" by (rule mod_mod_cancel) simp
    show "0 \<le> c div 3600" "c div 3600 < 24"
      using that by (simp_all only: div_less_iff_less_mult pos_imp_zdiv_nonneg_iff zero_less_numeral)
  qed simp_all
  have "iso_hms a @ s < iso_hms b @ t \<longleftrightarrow>
      a div 3600 < b div 3600 \<or> a div 3600 = b div 3600 \<and>
       (a mod 3600 div 60 < b mod 3600 div 60 \<or> a mod 3600 div 60 = b mod 3600 div 60 \<and>
         (a mod 60 < b mod 60 \<or> a mod 60 = b mod 60 \<and> s < t))"
    unfolding iso_hms_def append_assoc
    by (rule three_fields_less) (rule r [OF assms(1,2)] r [OF assms(3,4)])+
  also have "\<dots> \<longleftrightarrow> a < b \<or> a = b \<and> s < t"
  proof -
    have l1: "a < b \<longleftrightarrow> a div 3600 < b div 3600 \<or> a div 3600 = b div 3600 \<and> a mod 3600 < b mod 3600"
      by (rule divmod_less_int) simp
    have l2: "a mod 3600 < b mod 3600 \<longleftrightarrow> a mod 3600 div 60 < b mod 3600 div 60
        \<or> a mod 3600 div 60 = b mod 3600 div 60 \<and> a mod 60 < b mod 60"
      using divmod_less_int [of 60 "a mod 3600" "b mod 3600"] r(7) [OF assms(1,2)] r(7) [OF assms(3,4)]
      by (simp only: zero_less_numeral)
    have e1: "a = b \<longleftrightarrow> a div 3600 = b div 3600 \<and> a mod 3600 = b mod 3600"
      by (rule divmod_eq_int)
    have e2: "a mod 3600 = b mod 3600 \<longleftrightarrow> a mod 3600 div 60 = b mod 3600 div 60 \<and> a mod 60 = b mod 60"
      using divmod_eq_int [of "a mod 3600" "b mod 3600" 60] r(7) [OF assms(1,2)] r(7) [OF assms(3,4)]
      by (simp only:)
    show ?thesis unfolding l1 l2 e1 e2 by blast
  qed
  finally show ?thesis .
qed

lemma iso_fraction_less:
  assumes "0 \<le> a" "a < us_sec" "0 \<le> b" "b < us_sec"
  shows "iso_fraction a @ ''+00:00'' < iso_fraction b @ ''+00:00'' \<longleftrightarrow> a < b"
  using assms by (simp add: iso_fraction_def padn_append_less us_defs nat_less_eq_zless)

lemma char_of_48: "char_of (48::nat) = CHR ''0''"
  by code_simp

lemma iso_offset_zero [simp]: "iso_offset 0 = ''+00:00''"
  by (simp add: iso_offset_def us_defs numeral_2_eq_2 char_of_48)

lemma isoformat_utc_less:
  assumes "dt_range a" "dt_range b"
  shows "isoformat (utc a) < isoformat (utc b) \<longleftrightarrow> a < b"
proof -
  have pos: "0 < us_day" "0 < us_sec" by (simp_all add: us_defs)
  have day: "0 \<le> c div us_day" "c div us_day < 3652059" if "dt_range c" for c
    using that pos by (simp_all add: dt_range_def pos_imp_zdiv_nonneg_iff div_less_int)
  have sec: "0 \<le> c mod us_day div us_sec" "c mod us_day div us_sec < 86400" for c
    using pos_mod_bound [of us_day c] pos
    by (auto simp: pos_imp_zdiv_nonneg_iff us_defs intro!: div_less_int)
  have frac: "0 \<le> c mod us_sec" "c mod us_sec < us_sec" for c
    by (simp_all add: us_sec_def)
  have "isoformat (utc a) < isoformat (utc b) \<longleftrightarrow>
      a div us_day < b div us_day \<or> a div us_day = b div us_day \<and>
       (a mod us_day div us_sec < b mod us_day div us_sec \<or> a mod us_day div us_sec = b mod us_day div us_sec \<and>
         a mod us_sec < b mod us_sec)"
    by (simp add: isoformat_def iso_date_less [OF day [OF assms(1)] day [OF assms(2)]]
        iso_hms_less [OF sec sec] iso_offset_zero iso_fraction_less [OF frac frac])
  also have "\<dots> \<longleftrightarrow> a < b"
  proof -
    have "c mod us_day mod us_sec = c mod us_sec" for c
      by (rule mod_mod_cancel) (simp add: us_defs)
    then show ?thesis
      using divmod_less_int [of us_day a b] divmod_eq_int [of a b us_day]
        divmod_less_int [of us_sec "a mod us_day" "b mod us_day"]
        divmod_eq_int [of "a mod us_day" "b mod us_day" us_sec]
      by (auto simp: us_defs)
  qed
  finally show ?thesis .
qed

lemma isoformat_utc_eq:
  assumes "dt_range a" "dt_range b"
  shows "isoformat (utc a) = isoformat (utc b) \<longleftrightarrow> a = b"
  using isoformat_utc_less [OF assms] isoformat_utc_less [OF assms(2,1)]
  by (metis less_irrefl linorder_neqE_linordered_idom)

section \<open>fromisoformat\<close>

text \<open>
  The extended format \<open>YYYY-MM-DD[*HH[:MM[:SS[.f+]]]][Z | (+|-)HH[:MM[:SS[.f+]]]]\<close>; the
  character between date and time is not looked at, and digits of a fraction after the sixth are
  dropped. The basic and the week-date formats are left out: on those the model answers
  \<open>None\<close>, the exception \<open>ValueError\<close>.
\<close>

definition read_digits :: "nat \<Rightarrow> string \<Rightarrow> (int \<times> string) option" where
  "read_digits n s =
     (if length (take n s) = n \<and> list_all is_digit (take n s)
      then Some (int (digits_val (take n s)), drop n s) else None)"

definition read_char :: "char \<Rightarrow> string \<Rightarrow> string option" where
  "read_char c s = (case s of [] \<Rightarrow> None | d # r \<Rightarrow> if d = c then Some r else None)"

definition read_fraction :: "string \<Rightarrow> (int \<times> string) option" where
  "read_fraction s =
     (case s of
        [] \<Rightarrow> Some (0, [])
      | c # r \<Rightarrow>
          if c = CHR ''.'' \<or> c = CHR '',''
          then (let ds = takeWhile is_digit r in
            if ds = [] then None
            else Some (int (digits_val (take 6 (ds @ ''00000''))), dropWhile is_digit r))
          else Some (0, s))"

text \<open>\<open>HH[:MM[:SS[.f+]]]\<close> in microseconds, with the hour bounded by \<open>h\<close>.\<close>

definition read_clock :: "string \<Rightarrow> (int \<times> string) option" where
  "read_clock s =
     (case read_digits 2 s of None \<Rightarrow> None
      | Some (h, s1) \<Rightarrow> if 23 < h then None else
     (case read_char CHR '':'' s1 of None \<Rightarrow> Some (h * us_hour, s1)
      | Some s2 \<Rightarrow>
     (case read_digits 2 s2 of None \<Rightarrow> None
      | Some (m, s3) \<Rightarrow> if 59 < m then None else
     (case read_char CHR '':'' s3 of None \<Rightarrow> Some (h * us_hour + m * us_min, s3)
      | Some s4 \<Rightarrow>
     (case read_digits 2 s4 of None \<Rightarrow> None
      | Some (sec, s5) \<Rightarrow> if 59 < sec then None else
     (case read_fraction s5 of None \<Rightarrow> None
      | Some (us, s6) \<Rightarrow> Some (h * us_hour + m * us_min + sec * us_sec + us, s6)))))))"

definition read_offset :: "string \<Rightarrow> int option option" where
  "read_offset s =
     (case s of
        [] \<Rightarrow> Some None
      | c # r \<Rightarrow>
          if s = ''Z'' then Some (Some 0)
          else if c = CHR ''+'' then (case read_clock r of Some (f, []) \<Rightarrow> Some (Some f) | _ \<Rightarrow> None)
          else if c = CHR ''-'' then (case read_clock r of Some (f, []) \<Rightarrow> Some (Some (- f)) | _ \<Rightarrow> None)
          else None)"

definition read_date :: "string \<Rightarrow> (int \<times> string) option" where
  "read_date s =
     (case read_digits 4 s of None \<Rightarrow> None
      | Some (y, s1) \<Rightarrow>
     (case read_char CHR ''-'' s1 of None \<Rightarrow> None
      | Some s2 \<Rightarrow>
     (case read_digits 2 s2 of None \<Rightarrow> None
      | Some (m, s3) \<Rightarrow>
     (case read_char CHR ''-'' s3 of None \<Rightarrow> None
      | Some s4 \<Rightarrow>
     (case read_digits 2 s4 of None \<Rightarrow> None
      | Some (d, s5) \<Rightarrow> if valid_ymd y m d then Some (ymd2days y m d, s5) else None)))))"

definition fromisoformat :: "string \<Rightarrow> pydt option" where
  "fromisoformat s =
     (case read_date s of None \<Rightarrow> None
      | Some (n, []) \<Rightarrow> Some \<lparr>dt_wall = n * us_day, dt_off = None\<rparr>
      | Some (n, _ # r) \<Rightarrow>
          (case read_clock r of None \<Rightarrow> None
           | Some (t, r') \<Rightarrow>
               (case read_offset r' of None \<Rightarrow> None
                | Some f \<Rightarrow> Some \<lparr>dt_wall = n * us_day + t, dt_off = f\<rparr>)))"

subsection \<open>Reading a UTC stamp gives it back\<close>

lemma digit_char [simp]:
  assumes "i < 10"
  shows "is_digit (char_of (48 + i))" "digit_val (char_of (48 + i)) = i"
  using assms by (simp_all add: is_digit_def digit_val_def cp_char_of)

lemma padn_digits: "list_all is_digit (padn n x)"
  by (induction n arbitrary: x) auto

lemma padn_val: "x < 10 ^ n \<Longrightarrow> digits_val (padn n x) = x"
proof (induction n arbitrary: x)
  case (Suc n)
  then have "digits_val (padn n (x div 10)) = x div 10"
    by (simp add: less_mult_imp_div_less mult.commute)
  then show ?case by (simp add: digits_val_def)
qed (simp add: digits_val_def)

lemma read_padn: "x < 10 ^ n \<Longrightarrow> read_digits n (padn n x @ s) = Some (int x, s)"
  by (simp add: read_digits_def padn_digits padn_val)

lemma read_char_same [simp]: "read_char c (c # s) = Some s"
  by (simp add: read_char_def)

lemma read_iso_date:
  assumes "0 \<le> n" "n < 3652059"
  shows "read_date (iso_date n @ s) = Some (n, s)"
proof -
  obtain y m d where eq: "days2ymd n = (y, m, d)" by (metis prod_cases3)
  note b = days2ymd_range [OF assms eq]
  have "valid_ymd y m d" "ymd2days y m d = n"
    using days2ymd_valid [OF assms(1) eq] ymd2days_days2ymd [OF eq] by auto
  with b show ?thesis
    by (simp add: iso_date_def eq read_date_def read_padn)
qed

lemma takeWhile_padn:
  "\<not> is_digit c \<Longrightarrow> takeWhile is_digit (padn n x @ c # s) = padn n x"
  "\<not> is_digit c \<Longrightarrow> dropWhile is_digit (padn n x @ c # s) = c # s"
  using padn_digits [of n x] by (auto simp: list_all_iff takeWhile_append2 dropWhile_append2)

lemma plus_not_digit: "\<not> is_digit CHR ''+''"
  by (simp add: is_digit_def cp_def)

lemma read_iso_fraction:
  assumes "0 \<le> us" "us < us_sec"
  shows "read_fraction (iso_fraction us @ ''+00:00'') = Some (us, ''+00:00'')"
proof (cases "us = 0")
  case True
  then show ?thesis by (simp add: iso_fraction_def read_fraction_def)
next
  case False
  have "padn 6 (nat us) \<noteq> []" by (metis length_padn list.size(3) zero_neq_numeral)
  moreover have "digits_val (padn 6 (nat us)) = nat us"
    using assms by (intro padn_val) (simp add: us_defs)
  ultimately show ?thesis
    using False assms by (simp add: iso_fraction_def read_fraction_def takeWhile_padn plus_not_digit Let_def)
qed

lemma read_iso_clock:
  assumes "0 \<le> s" "s < 86400" "0 \<le> us" "us < us_sec"
  shows "read_clock (iso_hms s @ iso_fraction us @ ''+00:00'') = Some (s * us_sec + us, ''+00:00'')"
proof -
  have b: "0 \<le> s div 3600" "s div 3600 < 24" "0 \<le> s mod 3600 div 60" "s mod 3600 div 60 < 60"
    "0 \<le> s mod 60" "s mod 60 < 60"
    using assms by (auto simp: pos_imp_zdiv_nonneg_iff intro!: div_less_int)
  have "s mod 3600 mod 60 = s mod 60" by (rule mod_mod_cancel) simp
  then have "s = s div 3600 * 3600 + s mod 3600 div 60 * 60 + s mod 60"
    using div_mult_mod_eq [of s 3600] div_mult_mod_eq [of "s mod 3600" 60] by linarith
  then have eq: "s div 3600 * us_hour + s mod 3600 div 60 * us_min + s mod 60 * us_sec = s * us_sec"
    unfolding us_defs by linarith
  define h m c where "h = s div 3600" and "m = s mod 3600 div 60" and "c = s mod 60"
  show ?thesis
    using b eq read_iso_fraction [OF assms(3,4)]
    unfolding iso_hms_def read_clock_def h_def [symmetric] m_def [symmetric] c_def [symmetric]
    by (simp add: read_padn)
qed

lemma fromisoformat_isoformat:
  assumes "dt_range w"
  shows "fromisoformat (isoformat (utc w)) = Some (utc w)"
proof -
  have pos: "0 < us_day" "0 < us_sec" by (simp_all add: us_defs)
  have day: "0 \<le> w div us_day" "w div us_day < 3652059"
    using assms pos by (simp_all add: dt_range_def pos_imp_zdiv_nonneg_iff div_less_int)
  have sec: "0 \<le> w mod us_day div us_sec" "w mod us_day div us_sec < 86400"
    using pos_mod_bound [of us_day w] pos
    by (auto simp: pos_imp_zdiv_nonneg_iff us_defs intro!: div_less_int)
  have frac: "0 \<le> w mod us_sec" "w mod us_sec < us_sec" using pos by simp_all
  have off: "read_offset ''+00:00'' = Some (Some 0)"
    by (simp add: read_offset_def read_clock_def read_digits_def read_char_def is_digit_def cp_def
        digits_val_def digit_val_def)
  have "w mod us_day mod us_sec = w mod us_sec"
    by (rule mod_mod_cancel) (simp add: us_defs)
  then have "w div us_day * us_day + (w mod us_day div us_sec * us_sec + w mod us_sec) = w"
    using div_mult_mod_eq [of w us_day] div_mult_mod_eq [of "w mod us_day" us_sec] by linarith
  with off show ?thesis
    by (simp add: isoformat_def fromisoformat_def read_iso_date [OF day] read_iso_clock [OF sec frac] utc_def)
qed

end
