(* ===== verification/Json.thy ===== *)
theory Json
  imports PyText
begin

text \<open>
  The values of \<open>json.loads\<close> (upstream responses and stored payloads) with the dynamic
  operations the source applies to them: \<open>v.get(k)\<close>, truth values, \<open>a or b\<close>, iteration
  and string methods, each with the exception Python raises on a value of another type. A float
  is an exact rational (a decimal of at most 15 significant digits compares the same as a
  double; NaN and infinities are left out). The last section is \<open>json.dumps\<close> of a list of
  strings, the text the SQLite adapter stores, and its inverse.
\<close>

datatype json =
    JNull
  | JBool bool
  | JInt int
  | JFloat rat
  | JStr string
  | JList "json list"
  | JObj "(string \<times> json) list"

fun type_name :: "json \<Rightarrow> string" where
  "type_name JNull = ''NoneType''"
| "type_name (JBool _) = ''bool''"
| "type_name (JInt _) = ''int''"
| "type_name (JFloat _) = ''float''"
| "type_name (JStr _) = ''str''"
| "type_name (JList _) = ''list''"
| "type_name (JObj _) = ''dict''"

fun truthy :: "json \<Rightarrow> bool" where
  "truthy JNull = False"
| "truthy (JBool b) = b"
| "truthy (JInt i) = (i \<noteq> 0)"
| "truthy (JFloat x) = (x \<noteq> 0)"
| "truthy (JStr s) = (s \<noteq> [])"
| "truthy (JList xs) = (xs \<noteq> [])"
| "truthy (JObj kvs) = (kvs \<noteq> [])"

text \<open>\<open>a or b\<close>\<close>

definition py_or :: "json \<Rightarrow> json \<Rightarrow> json" where
  "py_or a b = (if truthy a then a else b)"

definition no_attr :: "json \<Rightarrow> string \<Rightarrow> 'a result" where
  "no_attr v m = raise_attr (CHR 0x27 # type_name v @ [CHR 0x27] @ '' object has no attribute ''
     @ [CHR 0x27] @ m @ [CHR 0x27])"

text \<open>\<open>v.get(k, d)\<close>; without a default \<open>d\<close> is \<open>None\<close>.\<close>

fun py_get_def :: "json \<Rightarrow> string \<Rightarrow> json \<Rightarrow> json result" where
  "py_get_def (JObj kvs) k d = Inr (case map_of kvs k of None \<Rightarrow> d | Some v \<Rightarrow> v)"
| "py_get_def v k d = no_attr v ''get''"

abbreviation py_get :: "json \<Rightarrow> string \<Rightarrow> json result" where
  "py_get v k \<equiv> py_get_def v k JNull"

text \<open>The receiver of a string method \<open>v.m()\<close>.\<close>

fun str_for :: "string \<Rightarrow> json \<Rightarrow> string result" where
  "str_for m (JStr s) = Inr s"
| "str_for m v = no_attr v m"

text \<open>Iteration: the elements of a list, the keys of a dict, the characters of a string.\<close>

fun py_iter :: "json \<Rightarrow> json list result" where
  "py_iter (JList xs) = Inr xs"
| "py_iter (JObj kvs) = Inr (map (JStr \<circ> fst) kvs)"
| "py_iter (JStr s) = Inr (map (\<lambda>c. JStr [c]) s)"
| "py_iter v = raise_type (CHR 0x27 # type_name v @ [CHR 0x27] @ '' object is not iterable'')"

text \<open>
  A field the code stores without looking at its type. The model's records are typed, so a
  value of another type is refused here, where Python would carry it along.
\<close>

fun as_str :: "json \<Rightarrow> string result" where
  "as_str (JStr s) = Inr s"
| "as_str v = raise_type ''string field expected''"

text \<open>\<open>isinstance(v, (int, float))\<close> with \<open>float(v)\<close>: a bool is an int.\<close>

fun as_number :: "json \<Rightarrow> rat option" where
  "as_number (JInt i) = Some (of_int i)"
| "as_number (JFloat x) = Some x"
| "as_number (JBool b) = Some (if b then 1 else 0)"
| "as_number _ = None"

lemma py_get_JObj [simp]: "py_get_def (JObj kvs) k d = Inr (case map_of kvs k of None \<Rightarrow> d | Some v \<Rightarrow> v)"
  by simp

lemma no_attr_Inl [simp]: "no_attr v m \<noteq> Inr x"
  by (simp add: no_attr_def raise_attr_def)

lemma py_get_Inr_iff: "py_get_def v k d = Inr x \<longleftrightarrow>
    (\<exists>kvs. v = JObj kvs \<and> x = (case map_of kvs k of None \<Rightarrow> d | Some w \<Rightarrow> w))"
  by (cases v) auto

lemma as_str_Inr_iff [simp]: "as_str v = Inr s \<longleftrightarrow> v = JStr s"
  by (cases v) (auto simp: raise_type_def)

section \<open>json.dumps of a list of strings\<close>

definition hex_digit :: "nat \<Rightarrow> char" where
  "hex_digit n = (if n < 10 then char_of (48 + n) else char_of (87 + n))"

definition json_escape :: "char \<Rightarrow> string" where
  "json_escape c =
     (if c = CHR 0x22 then [CHR 0x5C, CHR 0x22]
      else if c = CHR 0x5C then [CHR 0x5C, CHR 0x5C]
      else if c = CHR 0x0A then [CHR 0x5C, CHR ''n'']
      else if c = CHR 0x0D then [CHR 0x5C, CHR ''r'']
      else if c = CHR 0x09 then [CHR 0x5C, CHR ''t'']
      else if c = CHR 0x08 then [CHR 0x5C, CHR ''b'']
      else if c = CHR 0x0C then [CHR 0x5C, CHR ''f'']
      else if cp c < 32 \<or> 126 < cp c
      then [CHR 0x5C, CHR ''u'', CHR ''0'', CHR ''0'', hex_digit (cp c div 16), hex_digit (cp c mod 16)]
      else [c])"

definition json_quote :: "string \<Rightarrow> string" where
  "json_quote s = CHR 0x22 # concat (map json_escape s) @ [CHR 0x22]"

definition json_dumps_strs :: "string list \<Rightarrow> string" where
  "json_dumps_strs xs = CHR ''['' # join '', '' (map json_quote xs) @ '']''"

subsection \<open>json.loads of that text\<close>

definition hex_val :: "char \<Rightarrow> nat option" where
  "hex_val c = (let n = cp c in
     if 48 \<le> n \<and> n \<le> 57 then Some (n - 48)
     else if 97 \<le> n \<and> n \<le> 102 then Some (n - 87)
     else if 65 \<le> n \<and> n \<le> 70 then Some (n - 55) else None)"

definition unescape_simple :: "char \<Rightarrow> char option" where
  "unescape_simple c =
     map_of [(CHR 0x22, CHR 0x22), (CHR 0x5C, CHR 0x5C), (CHR ''/'', CHR ''/''), (CHR ''n'', CHR 0x0A),
             (CHR ''r'', CHR 0x0D), (CHR ''t'', CHR 0x09), (CHR ''b'', CHR 0x08), (CHR ''f'', CHR 0x0C)] c"

text \<open>The rest of a string literal after its opening quote, with the text after the closing one.\<close>

fun read_json_str :: "string \<Rightarrow> (string \<times> string) option" where
  "read_json_str [] = None"
| "read_json_str (c # s) =
     (if c = CHR 0x22 then Some ([], s)
      else if c = CHR 0x5C
      then (case s of
          [] \<Rightarrow> None
        | d # r \<Rightarrow>
            if d = CHR ''u''
            then (case r of
                z1 # z2 # h1 # h2 # r' \<Rightarrow>
                  (case (hex_val z1, hex_val z2, hex_val h1, hex_val h2) of
                     (Some 0, Some 0, Some a, Some b) \<Rightarrow>
                       map_option (\<lambda>(t, r). (char_of (16 * a + b) # t, r)) (read_json_str r')
                   | _ \<Rightarrow> None)
              | _ \<Rightarrow> None)
            else (case unescape_simple d of
                None \<Rightarrow> None
              | Some e \<Rightarrow> map_option (\<lambda>(t, r). (e # t, r)) (read_json_str r)))
      else map_option (\<lambda>(t, r). (c # t, r)) (read_json_str s))"

text \<open>The elements after the opening bracket, with fuel for the number of elements.\<close>

fun read_json_strs :: "nat \<Rightarrow> string \<Rightarrow> string list option" where
  "read_json_strs 0 s = None"
| "read_json_strs (Suc n) s =
     (case s of
        [] \<Rightarrow> None
      | c # r \<Rightarrow>
          if c \<noteq> CHR 0x22 then None
          else (case read_json_str r of
              None \<Rightarrow> None
            | Some (t, r') \<Rightarrow>
                if r' = '']'' then Some [t]
                else if prefix '', '' r' then map_option ((#) t) (read_json_strs n (drop 2 r'))
                else None))"

definition json_loads_strs :: "string \<Rightarrow> string list option" where
  "json_loads_strs s =
     (if s = ''[]'' then Some []
      else case s of
        [] \<Rightarrow> None
      | c # r \<Rightarrow> if c = CHR ''['' then read_json_strs (length r) r else None)"

text \<open>What is written is read back.\<close>

lemma hex_val_digit: "n < 16 \<Longrightarrow> hex_val (hex_digit n) = Some n"
  by (auto simp: hex_digit_def hex_val_def Let_def cp_char_of)

lemma hex_val_0: "hex_val CHR ''0'' = Some 0"
  by (simp add: hex_val_def cp_def)

lemma unescape_facts:
  "unescape_simple CHR 0x22 = Some CHR 0x22" "unescape_simple CHR 0x5C = Some CHR 0x5C"
  "unescape_simple CHR ''n'' = Some CHR 0x0A" "unescape_simple CHR ''r'' = Some CHR 0x0D"
  "unescape_simple CHR ''t'' = Some CHR 0x09" "unescape_simple CHR ''b'' = Some CHR 0x08"
  "unescape_simple CHR ''f'' = Some CHR 0x0C"
  by (simp_all add: unescape_simple_def)

lemma read_escaped_char:
  "read_json_str (json_escape c @ s) = map_option (\<lambda>(t, r). (c # t, r)) (read_json_str s)"
proof -
  have "cp c < 256" by (rule cp_bound)
  then have "char_of (16 * (cp c div 16) + cp c mod 16) = c"
    by (simp add: cp_def)
  moreover have "cp c div 16 < 16" "cp c mod 16 < 16" using \<open>cp c < 256\<close> by auto
  ultimately show ?thesis
    by (simp add: json_escape_def unescape_facts hex_val_0 hex_val_digit)
qed

lemma read_escaped: "read_json_str (concat (map json_escape s) @ CHR 0x22 # r) = Some (s, r)"
  by (induction s) (auto simp: read_escaped_char)

lemma read_quoted_join:
  assumes "length xs < n" "xs \<noteq> []"
  shows "read_json_strs n (join '', '' (map json_quote xs) @ '']'') = Some xs"
  using assms
proof (induction xs arbitrary: n)
  case (Cons x xs)
  then obtain k where n: "n = Suc k" by (cases n) auto
  show ?case
  proof (cases xs)
    case Nil
    then show ?thesis by (simp add: n json_quote_def read_escaped)
  next
    case (Cons y ys)
    with Cons.prems n have "length xs < k" "xs \<noteq> []" by auto
    from Cons.IH [OF this] Cons show ?thesis
      by (simp add: n json_quote_def read_escaped)
  qed
qed simp

lemma length_join_quote: "length xs \<le> length (join '', '' (map json_quote xs))"
proof (induction xs)
  case (Cons x xs)
  then show ?case by (cases xs) (auto simp: json_quote_def)
qed simp

lemma json_loads_dumps: "json_loads_strs (json_dumps_strs xs) = Some xs"
proof (cases xs)
  case Nil
  then show ?thesis by (simp add: json_dumps_strs_def json_loads_strs_def)
next
  case (Cons y ys)
  let ?r = "join '', '' (map json_quote xs) @ '']''"
  have "length xs < length ?r" using length_join_quote [of xs] by simp
  then have "read_json_strs (length ?r) ?r = Some xs"
    using Cons by (intro read_quoted_join) auto
  moreover have "?r \<noteq> '']''"
    using Cons by (cases ys) (auto simp: json_quote_def)
  ultimately show ?thesis
    by (simp add: json_dumps_strs_def json_loads_strs_def)
qed

end
