(* ===== verification/Store.thy ===== *)
theory Store
  imports Models
begin

text \<open>
  \<open>app/store.py\<close>: the storage port both adapters implement, as a record of operations
  over the adapter's own database \<open>'db\<close>, and what the rest of the program relies on: an
  abstract archive (items by id, alerted ids, fetch state per source) and the locale
  \<open>storage\<close>, whose laws say that every operation of an adapter acts on the archive it
  represents as specified. SQL leaves the order of rows with equal sort keys open, so the result
  of a query is specified by \<open>page\<close>.
\<close>

section \<open>The storage port\<close>

record source_state =
  st_etag :: "string option"
  st_last_modified :: "string option"
  st_last_fetched_at :: "string option"
  st_last_ok_at :: "string option"
  st_last_error :: "string option"
  st_last_payload :: "json list option"

text \<open>The keyword arguments of \<open>set_source_state\<close>.\<close>

record state_write =
  w_etag :: "string option"
  w_last_modified :: "string option"
  w_fetched_at :: "pydt option"
  w_ok :: bool
  w_error :: "string option"
  w_payload :: "json list option"

record store_stats =
  n_total :: nat
  n_live :: nat
  n_sample :: nat
  n_urgent :: nat
  by_severity :: "(string, nat) dict"
  by_tag :: "(string, nat) dict"
  n_kev :: nat
  n_epss :: nat
  n_osv :: nat
  latest_seen :: "string option"

text \<open>The first argument of an operation that reads the clock is the time, in microseconds.\<close>

record 'db backend =
  upsert_items :: "int \<Rightarrow> feed_item list \<Rightarrow> 'db \<Rightarrow> (nat \<times> 'db) result"
  query_feed :: "int \<Rightarrow> string option \<Rightarrow> string option \<Rightarrow> int \<Rightarrow> 'db \<Rightarrow> json list result"
  search_feed :: "int \<Rightarrow> string \<Rightarrow> string option \<Rightarrow> string option \<Rightarrow> int \<Rightarrow> 'db \<Rightarrow> json list result"
  stats :: "'db \<Rightarrow> store_stats result"
  unalerted_urgent_items :: "int \<Rightarrow> int \<Rightarrow> 'db \<Rightarrow> json list result"
  mark_alerted :: "int \<Rightarrow> string list \<Rightarrow> 'db \<Rightarrow> 'db result"
  get_source_state :: "string \<Rightarrow> 'db \<Rightarrow> source_state option result"
  set_source_state :: "int \<Rightarrow> string \<Rightarrow> state_write \<Rightarrow> 'db \<Rightarrow> 'db result"
  prune_items :: "pydt \<Rightarrow> 'db \<Rightarrow> (nat \<times> 'db) result"
  seed_if_empty :: "(string \<Rightarrow> string) \<Rightarrow> int \<Rightarrow> 'db \<Rightarrow> (nat \<times> 'db) result"
  ping :: "'db \<Rightarrow> bool result"

text \<open>\<open>COALESCE(a, b)\<close>, the truth test \<open>if tag:\<close> and \<open>LIMIT\<close> (negative: none).\<close>

definition coalesce :: "'a option \<Rightarrow> 'a option \<Rightarrow> 'a option" where
  "coalesce a b = (case a of None \<Rightarrow> b | Some _ \<Rightarrow> a)"

definition given :: "string option \<Rightarrow> string option" where
  "given s = (case s of None \<Rightarrow> None | Some [] \<Rightarrow> None | Some (c # t) \<Rightarrow> Some (c # t))"

definition limit_to :: "int \<Rightarrow> 'a list \<Rightarrow> 'a list" where
  "limit_to n xs = (if n < 0 then xs else take (nat n) xs)"

definition iso_now :: "int \<Rightarrow> string" where
  "iso_now now = isoformat (utc now)"

definition iso :: "pydt option \<Rightarrow> string option" where
  "iso dt = map_option (isoformat \<circ> ensure_aware) dt"

section \<open>The archive an adapter represents\<close>

record arow =
  a_item :: feed_item
  a_first_seen :: int
  a_last_seen :: int

record archive =
  ar_items :: "string \<Rightarrow> arow option"
  ar_alerted :: "string \<Rightarrow> int option"
  ar_states :: "string \<Rightarrow> source_state option"

definition ar_rows :: "archive \<Rightarrow> arow set" where
  "ar_rows A = ran (ar_items A)"

definition ar_live :: "archive \<Rightarrow> bool" where
  "ar_live A \<longleftrightarrow> (\<exists>r \<in> ar_rows A. \<not> is_sample (a_item r))"

text \<open>Samples are shown only while no live row exists.\<close>

definition ar_visible :: "archive \<Rightarrow> arow set" where
  "ar_visible A = {r \<in> ar_rows A. ar_live A \<longrightarrow> \<not> is_sample (a_item r)}"

definition ar_upsert :: "int \<Rightarrow> feed_item \<Rightarrow> archive \<Rightarrow> archive" where
  "ar_upsert now item A = A\<lparr>ar_items := (ar_items A)(item_id item \<mapsto>
     \<lparr>a_item = stored_item item,
      a_first_seen = (case ar_items A (item_id item) of None \<Rightarrow> now | Some r \<Rightarrow> a_first_seen r),
      a_last_seen = now\<rparr>)\<rparr>"

definition ar_mark :: "int \<Rightarrow> string list \<Rightarrow> archive \<Rightarrow> archive" where
  "ar_mark now ids A = A\<lparr>ar_alerted := (\<lambda>i. case ar_alerted A i of
     Some t \<Rightarrow> Some t | None \<Rightarrow> if i \<in> set ids then Some now else None)\<rparr>"

definition state_after :: "int \<Rightarrow> state_write \<Rightarrow> source_state option \<Rightarrow> source_state" where
  "state_after now w old =
     (let fetched = (case w_fetched_at w of None \<Rightarrow> iso_now now | Some t \<Rightarrow> isoformat (ensure_aware t));
          ok_at = (if w_ok w then Some (iso_now now) else None) in
      case old of
        None \<Rightarrow> \<lparr>st_etag = w_etag w, st_last_modified = w_last_modified w, st_last_fetched_at = Some fetched,
                 st_last_ok_at = ok_at, st_last_error = w_error w, st_last_payload = w_payload w\<rparr>
      | Some s \<Rightarrow> \<lparr>st_etag = coalesce (w_etag w) (st_etag s),
                   st_last_modified = coalesce (w_last_modified w) (st_last_modified s),
                   st_last_fetched_at = Some fetched,
                   st_last_ok_at = coalesce ok_at (st_last_ok_at s),
                   st_last_error = w_error w,
                   st_last_payload = coalesce (w_payload w) (st_last_payload s)\<rparr>)"

definition ar_set_state :: "int \<Rightarrow> string \<Rightarrow> state_write \<Rightarrow> archive \<Rightarrow> archive" where
  "ar_set_state now sid w A = A\<lparr>ar_states := (ar_states A)(sid \<mapsto> state_after now w (ar_states A sid))\<rparr>"

definition ar_prune :: "int \<Rightarrow> archive \<Rightarrow> archive" where
  "ar_prune cutoff A =
     (let items' = (\<lambda>i. case ar_items A i of None \<Rightarrow> None
                      | Some r \<Rightarrow> if \<not> is_sample (a_item r) \<and> a_last_seen r < cutoff then None else Some r)
      in A\<lparr>ar_items := items',
           ar_alerted := (\<lambda>i. case ar_alerted A i of None \<Rightarrow> None
              | Some t \<Rightarrow> if t < cutoff \<and> items' i = None then None else Some t)\<rparr>)"

definition ar_urgent :: "archive \<Rightarrow> arow set" where
  "ar_urgent A = {r \<in> ar_visible A. urgent (a_item r) \<and> ar_alerted A (item_id (a_item r)) = None}"

section \<open>Result pages\<close>

text \<open>
  What \<open>ORDER BY key DESC LIMIT n\<close> promises: rows of the set, none twice, sorted, as many
  as fit, and none left out that sorts before one returned.
\<close>

definition page :: "('a \<Rightarrow> 'k::linorder) \<Rightarrow> int \<Rightarrow> 'a set \<Rightarrow> 'a list \<Rightarrow> bool" where
  "page key n S xs \<longleftrightarrow> distinct xs \<and> set xs \<subseteq> S \<and> descending key xs \<and>
     length xs = (if n < 0 then card S else min (nat n) (card S)) \<and>
     (\<forall>x \<in> set xs. \<forall>y \<in> S - set xs. key y \<le> key x)"

lemma set_limit_to: "set (limit_to n xs) \<subseteq> set xs"
  by (auto simp: limit_to_def dest: in_set_takeD)

lemma page_limit:
  assumes "distinct ys" "descending key ys"
  shows "page key n (set ys) (limit_to n ys)"
proof -
  have "key y \<le> key x" if "x \<in> set (limit_to n ys)" "y \<in> set ys - set (limit_to n ys)" for x y
  proof -
    from that have "\<not> n < 0" by (auto simp: limit_to_def)
    moreover have "y \<in> set (take (nat n) ys) \<or> y \<in> set (drop (nat n) ys)"
      using that(2) by (metis Diff_iff Un_iff append_take_drop_id set_append)
    ultimately show ?thesis
      using that by (auto simp: limit_to_def intro: descending_take_drop [OF assms(2)])
  qed
  moreover have "card (set ys) = length ys" using assms(1) by (rule distinct_card)
  ultimately show ?thesis
    using set_limit_to [of n ys] assms by (auto simp: page_def limit_to_def descending_take)
qed

lemma page_sort_desc:
  assumes "distinct xs"
  shows "page key n (set xs) (limit_to n (sort_desc key xs))"
  using page_limit [of "sort_desc key xs" key n] distinct_map_sort_desc [of id key xs] assms by simp

lemma page_subset: "page key n S xs \<Longrightarrow> x \<in> set xs \<Longrightarrow> x \<in> S"
  by (auto simp: page_def)

lemma page_all:
  assumes "page key n S xs" "finite S" "n < 0 \<or> int (card S) \<le> n"
  shows "set xs = S"
proof (rule card_subset_eq [OF assms(2)])
  show "set xs \<subseteq> S" using assms(1) by (simp add: page_def)
  have "length xs = card S" using assms(1,3) by (auto simp: page_def min_def split: if_splits)
  moreover have "card (set xs) = length xs" using assms(1) by (simp add: page_def distinct_card)
  ultimately show "card (set xs) = card S" by simp
qed

text \<open>An element that ranks within the length of the page is on it.\<close>

lemma page_first:
  fixes key :: "'a \<Rightarrow> 'k::linorder"
  assumes "page key n S xs" "finite S" "x \<in> S" "card {y \<in> S. key x \<le> key y} \<le> nat n" "0 \<le> n"
  shows "x \<in> set xs"
proof (rule ccontr)
  assume x: "x \<notin> set xs"
  have p: "set xs \<subseteq> S" "distinct xs" "length xs = (if n < 0 then card S else min (nat n) (card S))"
    "\<And>y. y \<in> set xs \<Longrightarrow> key x \<le> key y"
    using assms(1,3) x by (auto simp: page_def)
  then have "set xs \<subset> S" using x assms(3) by auto
  then have "card (set xs) < card S" by (rule psubset_card_mono [OF assms(2)])
  then have len: "card (set xs) = nat n" using p(2,3) assms(5) by (simp add: distinct_card split: if_splits)
  have "insert x (set xs) \<subseteq> {y \<in> S. key x \<le> key y}" using p(1,4) assms(3) by auto
  moreover have "finite {y \<in> S. key x \<le> key y}" using assms(2) by simp
  ultimately have "card (insert x (set xs)) \<le> card {y \<in> S. key x \<le> key y}" by (intro card_mono)
  with assms(4) len x show False by simp
qed

text \<open>The keys of a page are determined by the set, so two pages of it differ at most where keys are equal.\<close>

lemma page_extends:
  assumes "page key n S xs" "finite S"
  shows "\<exists>zs. rev (map key (xs @ zs)) = sorted_list_of_multiset (image_mset key (mset_set S))"
proof -
  have p: "distinct xs" "set xs \<subseteq> S" "descending key xs" "\<And>x y. x \<in> set xs \<Longrightarrow> y \<in> S - set xs \<Longrightarrow> key y \<le> key x"
    using assms(1) by (auto simp: page_def)
  obtain us where us: "set us = S - set xs" "distinct us" using assms(2) finite_distinct_list [of "S - set xs"] by auto
  let ?zs = "sort_desc key us"
  have zs: "set ?zs = S - set xs" "distinct ?zs" using us distinct_map_sort_desc [of id key us] by simp_all
  have "mset (xs @ ?zs) = mset_set (set (xs @ ?zs))" using p(1) zs by (intro mset_set_set [symmetric]) auto
  also have "set (xs @ ?zs) = S" using p(2) zs(1) by auto
  finally have m: "mset (rev (map key (xs @ ?zs))) = image_mset key (mset_set S)" by (simp del: map_append mset_append)
  have "descending key (xs @ ?zs)"
    using p(3,4) zs(1) descending_sort_desc [of key us] unfolding descending_def by (auto simp: sorted_wrt_append)
  then have "sorted (rev (map key (xs @ ?zs)))"
    by (simp add: descending_def sorted_wrt_rev sorted_wrt_map del: map_append rev_append)
  then have "rev (map key (xs @ ?zs)) = sort (rev (map key (xs @ ?zs)))" by (rule sorted_sort_id [symmetric])
  also have "\<dots> = sorted_list_of_multiset (image_mset key (mset_set S))"
    unfolding m [symmetric] by (rule sorted_list_of_multiset_mset [symmetric])
  finally show ?thesis by blast
qed

lemma page_keys:
  assumes "page key n S xs" "page key n S ys" "finite S"
  shows "map key xs = map key ys"
proof -
  let ?K = "sorted_list_of_multiset (image_mset key (mset_set S))"
  obtain zs zs' where "rev (map key (xs @ zs)) = ?K" "rev (map key (ys @ zs')) = ?K"
    using page_extends [OF assms(1,3)] page_extends [OF assms(2,3)] by blast
  then have e: "map key (xs @ zs) = map key (ys @ zs')" by (metis rev_rev_ident)
  have "length xs = length ys" using assms(1,2) by (simp add: page_def)
  with e have "take (length xs) (map key (xs @ zs)) = take (length xs) (map key (ys @ zs'))" by simp
  with \<open>length xs = length ys\<close> show ?thesis by simp
qed

lemma page_unique:
  assumes "page key n S xs" "page key n S ys" "finite S" "inj_on key S"
  shows "xs = ys"
proof -
  have "inj_on key (set xs \<union> set ys)"
    using assms(1,2) by (intro inj_on_subset [OF assms(4)]) (auto simp: page_def)
  then show ?thesis using page_keys [OF assms(1-3)] by (simp add: inj_on_map_eq_map)
qed

text \<open>A key that orders a list as another one does gives the same page.\<close>

lemma descending_cong:
  "(\<And>x y. x \<in> set xs \<Longrightarrow> y \<in> set xs \<Longrightarrow> f y \<le> f x \<longleftrightarrow> g y \<le> g x) \<Longrightarrow> descending f xs \<longleftrightarrow> descending g xs"
  by (induction xs) (auto simp: descending_def)

lemma page_key_cong:
  assumes "\<And>x y. x \<in> S \<Longrightarrow> y \<in> S \<Longrightarrow> f y \<le> f x \<longleftrightarrow> g y \<le> g x"
  shows "page f n S xs \<longleftrightarrow> page g n S xs"
proof (cases "set xs \<subseteq> S")
  case True
  then have "descending f xs \<longleftrightarrow> descending g xs" by (intro descending_cong assms) auto
  with True assms show ?thesis unfolding page_def by blast
qed (simp add: page_def)

text \<open>A page of rows is a page of what the rows represent.\<close>

lemma page_image:
  assumes "page key n S xs" "inj_on f S" "\<And>x. x \<in> S \<Longrightarrow> key' (f x) = key x"
  shows "page key' n (f ` S) (map f xs)"
proof -
  have sub: "set xs \<subseteq> S" using assms(1) by (simp add: page_def)
  have "descending (key' \<circ> f) xs \<longleftrightarrow> descending key xs"
    using sub assms(3) by (intro descending_cong) (simp add: subset_iff)
  then have "descending key' (map f xs) \<longleftrightarrow> descending key xs"
    by (simp add: descending_def sorted_wrt_map)
  moreover have "distinct (map f xs)"
    using assms(1,2) sub by (simp add: page_def distinct_map inj_on_subset)
  moreover have "card (f ` S) = card S" using assms(2) by (rule card_image)
  moreover have "f ` S - f ` set xs = f ` (S - set xs)"
    using assms(2) sub by (auto simp: inj_on_def)
  ultimately show ?thesis using assms(1,3) sub unfolding page_def by (auto simp: subset_iff)
qed

lemma limit_to_map: "limit_to n (map f xs) = map f (limit_to n xs)"
  by (simp add: limit_to_def take_map)

text \<open>Sorting by a key that orders the rows in the same way gives the same list.\<close>

lemma insort_key_cong:
  "(\<And>y. y \<in> set xs \<Longrightarrow> f x \<le> f y \<longleftrightarrow> g x \<le> g y) \<Longrightarrow> insort_key f x xs = insort_key g x xs"
  by (induction xs) auto

lemma sort_key_cong_order:
  "(\<And>x y. x \<in> set xs \<Longrightarrow> y \<in> set xs \<Longrightarrow> f x \<le> f y \<longleftrightarrow> g x \<le> g y) \<Longrightarrow> sort_key f xs = sort_key g xs"
proof (induction xs)
  case (Cons x xs)
  then have "insort_key f x (sort_key g xs) = insort_key g x (sort_key g xs)"
    by (intro insort_key_cong) simp
  with Cons show ?case by simp
qed simp

lemma sort_desc_cong_order:
  "(\<And>x y. x \<in> set xs \<Longrightarrow> y \<in> set xs \<Longrightarrow> f x \<le> f y \<longleftrightarrow> g x \<le> g y) \<Longrightarrow> sort_desc f xs = sort_desc g xs"
  unfolding sort_desc_def by (rule arg_cong [where f = rev]) (rule sort_key_cong_order, auto)

lemma insort_key_map: "insort_key f (g x) (map g xs) = map g (insort_key (f \<circ> g) x xs)"
  by (induction xs) auto

lemma sort_desc_map: "sort_desc f (map g xs) = map g (sort_desc (f \<circ> g) xs)"
proof -
  have "sort_key f (map g xs) = map g (sort_key (f \<circ> g) xs)" for xs
    by (induction xs) (auto simp: insort_key_map comp_def)
  then show ?thesis by (simp add: sort_desc_def rev_map)
qed

section \<open>What may be stored\<close>

text \<open>
  The tags the program assigns are made of lower-case letters, digits and hyphens, and times
  lie in the years 1 to 9999, as Python's do.
\<close>

definition tag_char :: "char \<Rightarrow> bool" where
  "tag_char c \<longleftrightarrow> is_digit c \<or> (97 \<le> cp c \<and> cp c \<le> 122) \<or> c = CHR ''-''"

definition plain_tag :: "string \<Rightarrow> bool" where
  "plain_tag t \<longleftrightarrow> t \<noteq> [] \<and> list_all tag_char t"

definition item_ok :: "feed_item \<Rightarrow> bool" where
  "item_ok item \<longleftrightarrow> published_ok item \<and> severity item \<noteq> [] \<and> patch_status item \<noteq> [] \<and> (\<forall>t \<in> fset (tags item). plain_tag t)"

definition row_key :: "arow \<Rightarrow> int option \<times> bool \<times> int" where
  "row_key r = (map_option instant (published (a_item r)), urgent (a_item r), a_last_seen r)"

definition ar_matching :: "string option \<Rightarrow> string option \<Rightarrow> archive \<Rightarrow> arow set" where
  "ar_matching tag sev A = {r \<in> ar_visible A.
     (case given tag of None \<Rightarrow> True | Some t \<Rightarrow> t |\<in>| tags (a_item r)) \<and>
     (case given sev of None \<Rightarrow> True | Some s \<Rightarrow> severity (a_item r) = s)}"

abbreviation emitted :: "int \<Rightarrow> arow list \<Rightarrow> json list" where
  "emitted now rs \<equiv> map (\<lambda>r. item_to_dict (a_item r) (utc now)) rs"

section \<open>The contract of an adapter\<close>

locale storage =
  fixes B :: "'db backend"
    and abs :: "'db \<Rightarrow> archive"
    and inv :: "'db \<Rightarrow> bool"
    and up :: "'db \<Rightarrow> bool"
  assumes keyed: "inv db \<Longrightarrow> ar_items (abs db) i = Some r \<Longrightarrow> item_id (a_item r) = i"
    and finite_items: "inv db \<Longrightarrow> finite (dom (ar_items (abs db)))"
    and upsert: "inv db \<Longrightarrow> up db \<Longrightarrow> list_all item_ok items \<Longrightarrow> dt_range now \<Longrightarrow>
      \<exists>db'. upsert_items B now items db = Inr (length items, db') \<and> inv db' \<and> up db' \<and>
        abs db' = fold (ar_upsert now) items (abs db)"
    and query: "inv db \<Longrightarrow> up db \<Longrightarrow> (\<And>t. given tag = Some t \<Longrightarrow> plain_tag t) \<Longrightarrow>
      \<exists>rs. query_feed B now tag sev n db = Inr (emitted now rs) \<and>
        page row_key n (ar_matching tag sev (abs db)) rs"
    and unalerted: "inv db \<Longrightarrow> up db \<Longrightarrow>
      \<exists>rs. unalerted_urgent_items B now n db = Inr (emitted now rs) \<and>
        page (\<lambda>r. fst (row_key r)) n (ar_urgent (abs db)) rs"
    and mark: "inv db \<Longrightarrow> up db \<Longrightarrow> dt_range now \<Longrightarrow>
      \<exists>db'. mark_alerted B now ids db = Inr db' \<and> inv db' \<and> up db' \<and> abs db' = ar_mark now ids (abs db)"
    and get_state: "inv db \<Longrightarrow> up db \<Longrightarrow> get_source_state B sid db = Inr (ar_states (abs db) sid)"
    and set_state: "inv db \<Longrightarrow> up db \<Longrightarrow> dt_range now \<Longrightarrow>
      (\<And>t. w_fetched_at w = Some t \<Longrightarrow> dt_range (instant t)) \<Longrightarrow>
      \<exists>db'. set_source_state B now sid w db = Inr db' \<and> inv db' \<and> up db' \<and>
        abs db' = ar_set_state now sid w (abs db)"
    and prune: "inv db \<Longrightarrow> up db \<Longrightarrow> dt_range (instant before) \<Longrightarrow>
      \<exists>db' k. prune_items B before db = Inr (k, db') \<and> inv db' \<and> up db' \<and>
        abs db' = ar_prune (instant before) (abs db)"
    and down: "\<not> up db \<Longrightarrow> \<not> res_ok (upsert_items B now items db) \<or> items = []"
      "\<not> up db \<Longrightarrow> \<not> res_ok (query_feed B now tag sev n db)"
      "\<not> up db \<Longrightarrow> \<not> res_ok (unalerted_urgent_items B now n db)"
      "\<not> up db \<Longrightarrow> \<not> res_ok (get_source_state B sid db)"
      "\<not> up db \<Longrightarrow> \<not> res_ok (set_source_state B now sid w db)"
begin

lemma rows_finite: "inv db \<Longrightarrow> finite (ar_rows (abs db))"
  unfolding ar_rows_def by (rule finite_ran [OF finite_items])

text \<open>What is shown hides the samples once a live row exists.\<close>

lemma query_hides_samples:
  assumes "inv db" "up db" "\<And>t. given tag = Some t \<Longrightarrow> plain_tag t" "ar_live (abs db)"
  shows "\<exists>rs. query_feed B now tag sev n db = Inr (emitted now rs) \<and> (\<forall>r \<in> set rs. \<not> is_sample (a_item r))"
proof -
  from query [OF assms(1,2,3), where now = now and sev = sev and n = n] obtain rs where
    "query_feed B now tag sev n db = Inr (emitted now rs)" "page row_key n (ar_matching tag sev (abs db)) rs"
    by blast
  moreover from this(2) have "\<forall>r \<in> set rs. \<not> is_sample (a_item r)"
    using assms(4) page_subset by (fastforce simp: ar_matching_def ar_visible_def)
  ultimately show ?thesis by blast
qed

text \<open>Upserting keeps every mark.\<close>

lemma alerted_ar_upsert: "ar_alerted (fold (ar_upsert now) items A) = ar_alerted A"
  by (induction items arbitrary: A) (auto simp: ar_upsert_def)

text \<open>A fetch state is read back merged with what was there; other sources keep theirs.\<close>

lemma get_set_state:
  assumes "inv db" "up db" "dt_range now" "\<And>t. w_fetched_at w = Some t \<Longrightarrow> dt_range (instant t)"
  shows "\<exists>db'. set_source_state B now sid w db = Inr db' \<and> inv db' \<and> up db' \<and>
    get_source_state B sid' db' = Inr (if sid' = sid then Some (state_after now w (ar_states (abs db) sid))
      else ar_states (abs db) sid')"
proof -
  from set_state [OF assms(1,2,3), of w sid] assms(4) obtain db' where
    "set_source_state B now sid w db = Inr db'" "inv db'" "up db'" "abs db' = ar_set_state now sid w (abs db)"
    by blast
  with get_state [of db' sid'] show ?thesis by (simp add: ar_set_state_def)
qed

text \<open>What was upserted is there, with the time it was first seen kept.\<close>

lemma ar_items_upserts:
  "ar_items (fold (ar_upsert now) items A) i =
     (case filter (\<lambda>it. item_id it = i) items of
        [] \<Rightarrow> ar_items A i
      | its \<Rightarrow> Some \<lparr>a_item = stored_item (last its),
          a_first_seen = (case ar_items A i of None \<Rightarrow> now | Some r \<Rightarrow> a_first_seen r), a_last_seen = now\<rparr>)"
proof (induction items arbitrary: A)
  case (Cons it items)
  show ?case
    by (simp add: Cons.IH) (auto simp: ar_upsert_def split: list.split option.split)
qed simp

end

end
