(* ===== verification/Sources.thy ===== *)
theory Sources
  imports PyText
begin

text \<open>
  \<open>app/sources.py\<close>: the catalogue of feeds. The dash of a display name is a code point
  beyond the modelled characters (see \<open>PyText\<close>) and appears as \<open>sub_char\<close>.
\<close>

record source =
  src_id :: string
  src_name :: string
  src_kind :: string
  src_url :: string
  src_tags :: "string fset"
  max_items :: nat
  min_interval_seconds :: int

definition new_source :: "string \<Rightarrow> string \<Rightarrow> string \<Rightarrow> string \<Rightarrow> string fset \<Rightarrow> nat \<Rightarrow> source" where
  "new_source i n k u ts m = \<lparr>src_id = i, src_name = n, src_kind = k, src_url = u, src_tags = ts,
     max_items = m, min_interval_seconds = 0\<rparr>"

definition listed_sources :: "source list" where
  "listed_sources = [
   new_source ''ubuntu'' (''Ubuntu Security Notices'') ''rss''
     ''https://ubuntu.com/security/notices/rss.xml''
     {|''linux'', ''patch''|} 12,
   new_source ''debian'' (''Debian Security Advisories'') ''rss''
     ''https://www.debian.org/security/dsa''
     {|''linux'', ''patch''|} 12,
   new_source ''redhat'' (''Red Hat CVE Database'') ''redhat-api''
     ''https://access.redhat.com/hydra/rest/securitydata/cve.json?per_page=20''
     {|''linux'', ''cloud''|} 20,
   new_source ''k8s-cve'' (''Kubernetes Official CVE Feed'') ''rss''
     ''https://kubernetes.io/docs/reference/issues-security/official-cve-feed/feed.xml''
     {|''kubernetes'', ''cve''|} 12,
   new_source ''gcp'' (''Google Cloud Security Bulletins'') ''rss''
     ''https://cloud.google.com/feeds/google-cloud-security-bulletins.xml''
     {|''cloud''|} 12,
   new_source ''alas'' (''Amazon Linux 2023 Advisories'') ''rss''
     ''https://alas.aws.amazon.com/AL2023/alas.rss''
     {|''linux'', ''cloud'', ''patch''|} 12,
   new_source ''aws'' (''AWS Security Bulletins'') ''rss''
     ''https://aws.amazon.com/security/security-bulletins/rss/feed/''
     {|''cloud''|} 12,
   new_source ''cisa'' (''CISA Cybersecurity Advisories'') ''rss''
     ''https://www.cisa.gov/cybersecurity-advisories/all.xml''
     {|''threat'', ''exploit''|} 15,
   new_source ''nvd-linux'' (''NVD CVE '' @ sub_char # '' Linux'') ''nvd''
     ''https://services.nvd.nist.gov/rest/json/cves/2.0?keywordSearch=linux%20kernel&resultsPerPage=10''
     {|''linux'', ''cve''|} 10,
   new_source ''nvd-kubernetes'' (''NVD CVE '' @ sub_char # '' Kubernetes'') ''nvd''
     ''https://services.nvd.nist.gov/rest/json/cves/2.0?keywordSearch=kubernetes&resultsPerPage=10''
     {|''kubernetes'', ''cve''|} 10,
   new_source ''nvd-cloud'' (''NVD CVE '' @ sub_char # '' Cloud'') ''nvd''
     ''https://services.nvd.nist.gov/rest/json/cves/2.0?keywordSearch=cloud&resultsPerPage=10''
     {|''cloud'', ''cve''|} 10,
   new_source ''kev'' (''CISA KEV '' @ sub_char # '' Newly Exploited'') ''kev''
     ''https://www.cisa.gov/sites/default/files/feeds/known_exploited_vulnerabilities.json''
     {|''exploit'', ''kev''|} 10,
   new_source ''ghsa-containerd'' (''GHSA '' @ sub_char # '' containerd'') ''ghsa''
     ''https://api.github.com/advisories?affects=github.com/containerd/containerd''
     {|''kubernetes'', ''cve''|} 5,
   new_source ''ghsa-runc'' (''GHSA '' @ sub_char # '' runc'') ''ghsa''
     ''https://api.github.com/advisories?affects=github.com/opencontainers/runc''
     {|''kubernetes'', ''cve''|} 5,
   new_source ''ghsa-argo-cd'' (''GHSA '' @ sub_char # '' Argo CD'') ''ghsa''
     ''https://api.github.com/advisories?affects=github.com/argoproj/argo-cd''
     {|''kubernetes'', ''cve''|} 5,
   new_source ''ghsa-istio'' (''GHSA '' @ sub_char # '' Istio'') ''ghsa''
     ''https://api.github.com/advisories?affects=istio.io/istio''
     {|''kubernetes'', ''cve''|} 5,
   new_source ''ghsa-envoy'' (''GHSA '' @ sub_char # '' Envoy'') ''ghsa''
     ''https://api.github.com/advisories?affects=github.com/envoyproxy/envoy''
     {|''kubernetes'', ''cve''|} 5,
   new_source ''ghsa-moby'' (''GHSA '' @ sub_char # '' Moby (Docker Engine)'') ''ghsa''
     ''https://api.github.com/advisories?affects=github.com/moby/moby''
     {|''kubernetes'', ''cve''|} 5,
   new_source ''ghsa-crio'' (''GHSA '' @ sub_char # '' CRI-O'') ''ghsa''
     ''https://api.github.com/advisories?affects=github.com/cri-o/cri-o''
     {|''kubernetes'', ''cve''|} 5]"

definition min_intervals :: "(string \<times> int) list" where
  "min_intervals = [
   (''ubuntu'', 1800), (''debian'', 1800), (''redhat'', 3600),
   (''k8s-cve'', 1800), (''gcp'', 1800), (''alas'', 3600),
   (''aws'', 1800), (''cisa'', 3600), (''nvd-linux'', 3600),
   (''nvd-kubernetes'', 3600), (''nvd-cloud'', 3600), (''kev'', 3600),
   (''ghsa-containerd'', 3600), (''ghsa-runc'', 3600), (''ghsa-argo-cd'', 3600),
   (''ghsa-istio'', 3600), (''ghsa-envoy'', 3600), (''ghsa-moby'', 3600),
   (''ghsa-crio'', 3600)]"

definition dict_get :: "('k \<times> 'v) list \<Rightarrow> 'k \<Rightarrow> 'v \<Rightarrow> 'v" where
  "dict_get d k v = (case map_of d k of None \<Rightarrow> v | Some x \<Rightarrow> x)"

definition all_sources :: "source list" where
  "all_sources = map (\<lambda>s. s\<lparr>min_interval_seconds := dict_get min_intervals (src_id s) 0\<rparr>) listed_sources"

definition source_ids :: "string list" where
  "source_ids = map src_id all_sources"

lemmas source_defs = all_sources_def listed_sources_def new_source_def min_intervals_def dict_get_def

lemma distinct_source_ids: "distinct source_ids"
  by (simp add: source_ids_def source_defs)

lemma source_kinds: "list_all (\<lambda>s. src_kind s \<in> {''rss'', ''nvd'', ''redhat-api'', ''ghsa'', ''kev''}) all_sources"
  by (simp add: source_defs)

lemma source_intervals: "list_all (\<lambda>s. 1800 \<le> min_interval_seconds s) all_sources"
  by (simp add: source_defs)

lemma source_sizes: "list_all (\<lambda>s. 5 \<le> max_items s \<and> max_items s \<le> 20) all_sources"
  by (simp add: source_defs)

end
