(* ===== verification/Normalize.thy ===== *)
theory Normalize
  imports Sources Json
begin

text \<open>
  The normalisation helpers of \<open>app/fetcher.py\<close>: plain text, CVE ids and CVSS scores found in
  text, keyword matching, inferred severity and tags, and distro patch status. The regular
  expressions are the scanners of \<open>PyText\<close>.
\<close>

section \<open>Regular expressions\<close>

text \<open>\<open>\bCVE-\d{4}-\d{4,7}\b\<close>, ignoring case. A run of more than seven digits cannot end on a
  word boundary after seven of them, so the greedy run is the only candidate.\<close>

definition cve_match :: "string matcher" where
  "cve_match p s =
     (let year = take 4 (drop 4 s); ds = takeWhile is_digit (drop 9 s); n = length ds in
      if \<not> word_before p \<and> lower (take 4 s) = ''cve-'' \<and> length year = 4 \<and> list_all is_digit year
         \<and> prefix ''-'' (drop 8 s) \<and> 4 \<le> n \<and> n \<le> 7 \<and> \<not> word_next (drop (9 + n) s)
      then Some (9 + n, take (9 + n) s) else None)"

text \<open>\<open><[^>]+>\<close>, replaced by a space.\<close>

definition tag_match :: "string matcher" where
  "tag_match p s =
     (case s of [] \<Rightarrow> None
      | c # r \<Rightarrow>
         (let x = takeWhile (\<lambda>d. d \<noteq> CHR ''>'') r in
          if c = CHR ''<'' \<and> x \<noteq> [] \<and> length x < length r then Some (length x + 2, '' '') else None))"

text \<open>\<open>\bv[34]\s+(\d+(?:\.\d+)?)\<close>, ignoring case; the value is the number.\<close>

definition decimal_val :: "string \<Rightarrow> string \<Rightarrow> rat" where
  "decimal_val i f = of_nat (digits_val (i @ f)) / 10 ^ length f"

definition cvss_match :: "rat matcher" where
  "cvss_match p s =
     (case s of
        v # d # r \<Rightarrow>
          (let sp = takeWhile is_space r; r1 = drop (length sp) r;
               i = takeWhile is_digit r1; r2 = drop (length i) r1;
               f = (if prefix ''.'' r2 then takeWhile is_digit (tl r2) else []) in
           if \<not> word_before p \<and> lower_char v = CHR ''v'' \<and> (d = CHR ''3'' \<or> d = CHR ''4'')
              \<and> sp \<noteq> [] \<and> i \<noteq> []
           then Some (2 + length sp + length i + (if f = [] then 0 else Suc (length f)), decimal_val i f)
           else None)
      | _ \<Rightarrow> None)"

section \<open>Plain text\<close>

definition entities :: "(string \<times> string) list" where
  "entities = [(''&lt;'', ''<''), (''&gt;'', ''>''), (''&amp;'', ''&''),
     (''&quot;'', [CHR 0x22]), (''&#39;'', [CHR 0x27]), (''&nbsp;'', '' '')]"

definition strip_html :: "string \<Rightarrow> string" where
  "strip_html value =
     strip (squeeze_ws (fold (\<lambda>(e, r). replace_all e r) entities (re_sub tag_match None 0 value)))"

definition truncate_to :: "nat \<Rightarrow> string \<Rightarrow> string" where
  "truncate_to limit value =
     (if length value \<le> limit then value else rstrip (take (limit - 1) value) @ [sub_char])"

abbreviation truncate_text :: "string \<Rightarrow> string" where
  "truncate_text \<equiv> truncate_to 320"

definition extract_cvss_score :: "string \<Rightarrow> rat option" where
  "extract_cvss_score text =
     (case re_scan cvss_match None 0 text of [] \<Rightarrow> None | s # ss \<Rightarrow> Some (fold max ss s))"

section \<open>Keywords\<close>

definition ambiguous_tokens :: "string list" where
  "ambiguous_tokens = [''rce'', ''poc'', ''apt'', ''kev'', ''aws'', ''runc'', ''suse'', ''gke'']"

definition ascii_alnum :: "char \<Rightarrow> bool" where
  "ascii_alnum c \<longleftrightarrow> is_digit c \<or> (97 \<le> cp c \<and> cp c \<le> 122)"

definition mention_match :: "string \<Rightarrow> unit matcher" where
  "mention_match tok p s =
     (if (case p of None \<Rightarrow> True | Some c \<Rightarrow> \<not> ascii_alnum c) \<and> prefix tok s \<and>
         (case drop (length tok) s of [] \<Rightarrow> True | c # _ \<Rightarrow> \<not> ascii_alnum c)
      then Some (length tok, ()) else None)"

definition mentions :: "string \<Rightarrow> string \<Rightarrow> bool" where
  "mentions text tok \<longleftrightarrow> re_scan (mention_match tok) None 0 text \<noteq> []"

fun contains_any :: "string \<Rightarrow> string list \<Rightarrow> bool" where
  "contains_any text [] = False"
| "contains_any text (tok # toks) =
     (if tok \<in> set ambiguous_tokens
      then (if mentions text tok then True else contains_any text toks)
      else if contains tok text then True else contains_any text toks)"

definition target_keywords :: "string list" where
  "target_keywords =
     [''linux'', ''ubuntu'', ''debian'', ''red hat'', ''fedora'', ''suse'', ''arch linux'',
      ''kernel'', ''glibc'', ''systemd'', ''openssl'', ''openssh'', ''runc'', ''containerd'',
      ''kubernetes'', ''k8s'', ''kube'', ''helm'', ''istio'', ''envoy'', ''cri-o'',
      ''cloud'', ''aws'', ''amazon'', ''azure'', ''gcp'', ''google cloud'', ''gke'',
      ''docker'', ''container'', ''virtual machine'', ''server'']"

definition is_relevant :: "source \<Rightarrow> string \<Rightarrow> bool" where
  "is_relevant src text =
     (let t = lower text in
      if src_id src = ''cisa'' then list_ex (\<lambda>w. contains w t) target_keywords else True)"

section \<open>CVE ids, severity, tags\<close>

text \<open>The loop with its \<open>seen\<close> set.\<close>

fun keep_new :: "'a list \<Rightarrow> 'a list \<Rightarrow> 'a list" where
  "keep_new seen [] = []"
| "keep_new seen (x # xs) = (if x \<in> set seen then keep_new seen xs else x # keep_new (x # seen) xs)"

definition extract_cves :: "string \<Rightarrow> string list" where
  "extract_cves text = keep_new [] (map upper (re_scan cve_match None 0 text))"

definition infer_severity :: "string \<Rightarrow> rat option \<Rightarrow> string" where
  "infer_severity text cvss_score =
     (case cvss_score of
        Some x \<Rightarrow>
          (if 9 \<le> x then ''critical'' else if 7 \<le> x then ''high'' else if 4 \<le> x then ''medium''
           else if 0 < x then ''low'' else ''unknown'')
      | None \<Rightarrow>
          (let t = lower text in
           if contains_any t [''critical severity'', ''critical vulnerability'', ''critical security'',
                ''critical flaw'', ''critical remote'', ''rated critical'', ''(critical)'', ''cvss 9.'',
                ''cvss:4.0/av:n/ac:l''] then ''critical''
           else if contains_any t [''high severity'', ''high-severity'', ''important severity'',
                ''(important)'', ''privilege escalation'', ''remote code execution'', ''rce''] then ''high''
           else if contains_any t [''medium severity'', ''medium-severity'', ''(moderate)''] then ''medium''
           else if contains_any t [''low severity'', ''low-severity'', ''(low)''] then ''low''
           else ''unknown''))"

definition add_if :: "bool \<Rightarrow> string \<Rightarrow> string fset \<Rightarrow> string fset" where
  "add_if b t T = (if b then finsert t T else T)"

definition infer_tags :: "string \<Rightarrow> string fset \<Rightarrow> string list \<Rightarrow> string fset" where
  "infer_tags text source_tags cs =
     (let t = lower text in
      add_if (contains_any t [''cisa'', ''alert'', ''threat'', ''apt'', ''nation-state'']) ''threat''
     (add_if (contains_any t [''patch'', ''update'', ''fixed'', ''security update'', ''advisory'', ''bulletin''])
        ''patch''
     (add_if (contains_any t [''exploit'', ''exploited'', ''kev'', ''in the wild'', ''weaponized'', ''poc'',
        ''ransomware'']) ''exploit''
     (add_if (cs \<noteq> []) ''cve''
     (add_if (contains_any t [''kubernetes'', ''k8s'', ''kube'', ''containerd'', ''cri-o'', ''helm'', ''istio'',
        ''envoy'', ''runc'', ''ingress'']) ''kubernetes''
     (add_if (contains_any t [''aws'', ''amazon'', ''azure'', ''gcp'', ''google cloud'', ''cloud'', ''mwaa'', ''gke''])
        ''cloud''
     (add_if (contains_any t [''linux'', ''ubuntu'', ''debian'', ''red hat'', ''fedora'', ''suse'', ''kernel'',
        ''glibc'', ''systemd'', ''openssl'']) ''linux'' source_tags)))))))"

section \<open>Patch status\<close>

abbreviation any_in :: "string list \<Rightarrow> string \<Rightarrow> bool" where
  "any_in ws s \<equiv> list_ex (\<lambda>w. contains w s) ws"

definition normalize_patch_status :: "string option \<Rightarrow> string" where
  "normalize_patch_status raw =
     (case raw of None \<Rightarrow> ''unknown'' | Some r \<Rightarrow>
        if r = [] then ''unknown''
        else
         (let key = join '' '' (split_ws (lower (strip r))) in
          if key \<in> set [''not affected'', ''not vulnerable'', ''unaffected''] then ''not-affected''
          else if any_in [''will not fix'', ''won'' @ CHR 0x27 # ''t fix'', ''no fix'', ''fix deferred'', ''deferred'',
               ''out of support'', ''end of life''] key then ''deferred''
          else if any_in [''fixed'', ''released'', ''resolved'', ''patch'', ''patched'', ''available'',
               ''backport''] key then ''fixed''
          else if any_in [''affected'', ''vulnerable'', ''under investigation''] key then ''affected''
          else ''unknown''))"

definition patch_status_from_text :: "source \<Rightarrow> string \<Rightarrow> string" where
  "patch_status_from_text src text =
     (let t = lower text;
          status = (if src_id src \<in> set [''ubuntu'', ''debian'', ''alas''] then ''fixed'' else ''unknown'') in
      if any_in [''not affected'', ''not vulnerable'', ''unaffected'', ''not-affected''] t then ''not-affected''
      else if any_in [''will not fix'', ''won'' @ CHR 0x27 # ''t fix'', ''no fix'', ''fix deferred'', ''deferred''] t
      then ''deferred''
      else status)"

text \<open>A truthy \<open>fix_state\<close> that is no string is refused (the code would take its \<open>str\<close>).\<close>

definition fix_states :: "json \<Rightarrow> string list result" where
  "fix_states row =
     res_bind (py_get row ''package_state'') (\<lambda>ps.
     res_bind (py_iter (py_or ps (JList []))) (\<lambda>ps.
     res_map (\<lambda>p. res_bind (py_get p ''fix_state'') (\<lambda>v. as_str (py_or v (JStr []))))
       (filter (\<lambda>p. type_name p = ''dict'') ps)))"

definition summarize_states :: "string list \<Rightarrow> string" where
  "summarize_states normalized =
     (if ''affected'' \<in> set normalized then ''affected''
      else if ''deferred'' \<in> set normalized then ''deferred''
      else if list_all (\<lambda>s. s = ''not-affected'') normalized then ''not-affected''
      else ''unknown'')"

definition redhat_patch_status :: "json \<Rightarrow> string result" where
  "redhat_patch_status row =
     res_bind (py_get row ''affected_release'') (\<lambda>ar.
       if truthy ar then Inr ''fixed''
       else res_bind (fix_states row) (\<lambda>states.
         if states = [] then Inr ''unknown''
         else Inr (summarize_states (map (\<lambda>s. normalize_patch_status (Some s)) states))))"

declare contains_any.simps [simp del]

section \<open>Scanning\<close>

definition char_before :: "char option \<Rightarrow> string \<Rightarrow> char option" where
  "char_before p u = (if u = [] then p else Some (last u))"

lemma char_before_Cons [simp]: "char_before p (c # u) = char_before (Some c) u"
  by (simp add: char_before_def)

text \<open>A match is reported unless an earlier match runs into it.\<close>

lemma re_scan_complete:
  assumes "m (char_before p u) w = Some (n, v)" "w \<noteq> []" "k \<le> length u"
    and "\<And>u1 u2 j x. u = u1 @ u2 \<Longrightarrow> u2 \<noteq> [] \<Longrightarrow> m (char_before p u1) (u2 @ w) = Some (j, x) \<Longrightarrow> j \<le> length u2"
  shows "v \<in> set (re_scan m p k (u @ w))"
  using assms
proof (induction u arbitrary: p k)
  case Nil
  then show ?case by (cases w) (auto simp: char_before_def)
next
  case (Cons c u)
  have *: "\<And>k. k \<le> length u \<Longrightarrow> v \<in> set (re_scan m (Some c) k (u @ w))"
  proof (rule Cons.IH)
    show "m (char_before (Some c) u) w = Some (n, v)" using Cons.prems(1) by simp
    show "j \<le> length u2" if "u = u1 @ u2" "u2 \<noteq> []" "m (char_before (Some c) u1) (u2 @ w) = Some (j, x)"
      for u1 u2 j x using Cons.prems(4) [of "c # u1" u2 j x] that by simp
  qed (use Cons.prems in auto)
  show ?case
  proof (cases k)
    case 0
    show ?thesis
    proof (cases "m p (c # u @ w)")
      case None
      with 0 * [of 0] show ?thesis by simp
    next
      case (Some r)
      obtain j x where r: "r = (j, x)" by (cases r)
      have "j \<le> Suc (length u)"
        using Cons.prems(4) [of "[]" "c # u" j x] Some r by (simp add: char_before_def)
      with * [of "j - 1"] 0 Some r show ?thesis by simp
    qed
  qed (use * Cons.prems(3) in auto)
qed

text \<open>The first match is always reported.\<close>

lemma re_scan_nonempty:
  "re_scan m p 0 s \<noteq> [] \<longleftrightarrow> (\<exists>u w. s = u @ w \<and> w \<noteq> [] \<and> m (char_before p u) w \<noteq> None)"
proof (induction s arbitrary: p)
  case (Cons c s)
  show ?case
  proof (cases "m p (c # s)")
    case None
    have "(\<exists>u w. c # s = u @ w \<and> w \<noteq> [] \<and> m (char_before p u) w \<noteq> None) \<longleftrightarrow>
        (\<exists>u w. s = u @ w \<and> w \<noteq> [] \<and> m (char_before (Some c) u) w \<noteq> None)" (is "?l = ?r")
    proof
      assume ?l
      then obtain u w where u: "c # s = u @ w" "w \<noteq> []" "m (char_before p u) w \<noteq> None" by blast
      with None have "u \<noteq> []" by (auto simp: char_before_def)
      with u show ?r by (cases u) auto
    next
      assume ?r
      then obtain u w where "s = u @ w" "w \<noteq> []" "m (char_before (Some c) u) w \<noteq> None" by blast
      then show ?l by (intro exI [of _ "c # u"] exI [of _ w]) simp
    qed
    with None Cons.IH show ?thesis by simp
  next
    case (Some r)
    then have "m (char_before p []) (c # s) \<noteq> None" by (simp add: char_before_def)
    with Some show ?thesis by (cases r) (auto intro: exI [of _ "[]"])
  qed
qed simp

section \<open>CVE ids\<close>

definition cve_token :: "string \<Rightarrow> bool" where
  "cve_token w \<longleftrightarrow> lower (take 4 w) = ''cve-'' \<and> list_all is_digit (take 4 (drop 4 w)) \<and>
     prefix ''-'' (drop 8 w) \<and> list_all is_digit (drop 9 w) \<and> 13 \<le> length w \<and> length w \<le> 16"

lemma digit_is_word: "is_digit c \<Longrightarrow> is_word c"
  by (simp add: is_digit_def is_word_def Let_def)

lemma takeWhile_digits_end: "\<not> word_next v \<Longrightarrow> takeWhile is_digit v = []"
  by (cases v) (auto simp: word_next_def dest: digit_is_word)

lemma prefix_dash_append: "length w \<ge> 13 \<Longrightarrow> prefix ''-'' (drop 8 w @ v) \<longleftrightarrow> prefix ''-'' (drop 8 w)"
  by (cases "drop 8 w") auto

lemma cve_match_iff:
  "cve_match p s = Some (n, w) \<longleftrightarrow>
     \<not> word_before p \<and> (\<exists>v. s = w @ v \<and> n = length w \<and> cve_token w \<and> \<not> word_next v)"
proof
  let ?ds = "takeWhile is_digit (drop 9 s)"
  let ?m = "9 + length ?ds"
  assume "cve_match p s = Some (n, w)"
  then have c: "\<not> word_before p" "lower (take 4 s) = ''cve-''" "list_all is_digit (take 4 (drop 4 s))"
      "prefix ''-'' (drop 8 s)" "4 \<le> length ?ds" "length ?ds \<le> 7" "\<not> word_next (drop ?m s)"
      "n = ?m" "w = take ?m s"
    by (auto simp: cve_match_def Let_def split: if_splits)
  have dsle: "length ?ds \<le> length (drop 9 s)" by (rule length_takeWhile_le)
  then have lw: "length w = ?m" using c by simp
  have "drop 9 w = take (length ?ds) (drop 9 s)" unfolding c(9) by (simp add: drop_take)
  also have "\<dots> = ?ds" by (metis takeWhile_eq_take)
  finally have d9: "list_all is_digit (drop 9 w)" by (auto simp: list_all_iff dest: set_takeWhileD)
  have "take 4 w = take 4 s" "take 4 (drop 4 w) = take 4 (drop 4 s)"
    using c(9) by (simp_all add: min_def drop_take)
  moreover have "prefix ''-'' (drop 8 w)"
    using c(4,9) dsle c(5) by (cases "drop 8 s") (auto simp: drop_take)
  ultimately have "cve_token w" using c d9 lw by (simp add: cve_token_def)
  with c lw show "\<not> word_before p \<and> (\<exists>v. s = w @ v \<and> n = length w \<and> cve_token w \<and> \<not> word_next v)"
    by (intro conjI exI [of _ "drop ?m s"]) auto
next
  assume "\<not> word_before p \<and> (\<exists>v. s = w @ v \<and> n = length w \<and> cve_token w \<and> \<not> word_next v)"
  then obtain v where v: "\<not> word_before p" "s = w @ v" "n = length w" "cve_token w" "\<not> word_next v" by blast
  have l: "13 \<le> length w" "length w \<le> 16" using v(4) by (auto simp: cve_token_def)
  have "takeWhile is_digit (drop 9 s) = drop 9 w @ takeWhile is_digit v"
    using v(2,4) l by (simp add: takeWhile_append2 cve_token_def list_all_iff)
  with v(5) have ds: "takeWhile is_digit (drop 9 s) = drop 9 w" by (simp add: takeWhile_digits_end)
  from v l show "cve_match p s = Some (n, w)"
    unfolding cve_match_def Let_def ds
    by (auto simp: cve_token_def prefix_dash_append)
qed

lemma cve_token_hd: "cve_token w \<Longrightarrow> w \<noteq> [] \<and> lower_char (hd w) = CHR ''c''"
  by (cases w) (auto simp: cve_token_def lower_def)

lemma digit_not_c: "is_digit c \<Longrightarrow> lower_char c \<noteq> CHR ''c''"
  by (auto simp: is_digit_def lower_char_def Let_def) (simp add: cp_def)

lemma lower_char_low: "lower_char c = d \<Longrightarrow> cp d < 65 \<Longrightarrow> c = d"
proof -
  assume a: "lower_char c = d" "cp d < 65"
  have "cp (lower_char c) = (if (65 \<le> cp c \<and> cp c \<le> 90) \<or> (192 \<le> cp c \<and> cp c \<le> 214) \<or> (216 \<le> cp c \<and> cp c \<le> 222)
      then cp c + 32 else cp c)"
    by (auto simp: lower_char_def Let_def cp_char_of)
  with a have "cp c = cp d" by (auto split: if_splits)
  then show "c = d" by (simp add: cp_eq_iff)
qed

lemma cve_token_split:
  assumes "cve_token w"
  obtains c v e y x where "w = [c, v, e, CHR ''-''] @ y @ CHR ''-'' # x" "lower_char c = CHR ''c''"
    "lower_char v = CHR ''v''" "lower_char e = CHR ''e''" "length y = 4" "list_all is_digit y"
    "list_all is_digit x" "4 \<le> length x" "length x \<le> 7"
proof -
  have l: "13 \<le> length w" "length w \<le> 16" using assms by (auto simp: cve_token_def)
  from assms have "map lower_char (take 4 w) = ''cve-''" by (simp add: cve_token_def lower_def)
  then obtain c v e h where t: "take 4 w = [c, v, e, h]"
    and lc: "lower_char c = CHR ''c''" "lower_char v = CHR ''v''" "lower_char e = CHR ''e''" "lower_char h = CHR ''-''"
    by (auto simp: map_eq_Cons_conv)
  have h: "h = CHR ''-''" using lc(4) by (rule lower_char_low) (simp add: cp_def)
  have "w = take 4 w @ take 4 (drop 4 w) @ drop 8 w"
    by (metis append_take_drop_id drop_drop numeral_Bit0 add.commute)
  moreover obtain x where x: "drop 8 w = CHR ''-'' # x"
    using assms by (auto simp: cve_token_def prefix_def)
  moreover have "x = drop 9 w" using x by (metis drop_Suc eval_nat_numeral(3) list.sel(3) tl_drop drop_Suc)
  ultimately show thesis
    using t h lc assms l by (intro that [of c v e "take 4 (drop 4 w)" x]) (auto simp: cve_token_def)
qed

text \<open>The canonical form: upper case, a four-digit year, four to seven digits.\<close>

definition cve_id :: "string \<Rightarrow> bool" where
  "cve_id s \<longleftrightarrow> take 4 s = ''CVE-'' \<and> list_all is_digit (take 4 (drop 4 s)) \<and>
     prefix ''-'' (drop 8 s) \<and> list_all is_digit (drop 9 s) \<and> 13 \<le> length s \<and> length s \<le> 16"

lemma cve_id_parts:
  "length y = 4 \<Longrightarrow> list_all is_digit y \<Longrightarrow> list_all is_digit x \<Longrightarrow> 4 \<le> length x \<Longrightarrow> length x \<le> 7
    \<Longrightarrow> cve_id (''CVE-'' @ y @ CHR ''-'' # x)"
  by (simp add: cve_id_def)

lemma upper_Nil [simp]: "upper [] = []"
  and upper_Cons: "upper (c # s) = upper_char c @ upper s"
  and upper_append: "upper (s @ t) = upper s @ upper t"
  by (simp_all add: upper_def)

lemma upper_digits: "list_all is_digit s \<Longrightarrow> upper s = s"
  by (induction s) (auto simp: upper_Cons upper_char_def is_digit_def Let_def)

lemma upper_of_lower:
  assumes "lower_char c = d" "97 \<le> cp d" "cp d \<le> 122"
  shows "upper_char c = [char_of (cp d - 32)]"
proof -
  have "cp (lower_char c) = (if (65 \<le> cp c \<and> cp c \<le> 90) \<or> (192 \<le> cp c \<and> cp c \<le> 214) \<or> (216 \<le> cp c \<and> cp c \<le> 222)
      then cp c + 32 else cp c)"
    by (auto simp: lower_char_def Let_def cp_char_of)
  with assms have "cp c = cp d \<or> cp c + 32 = cp d \<and> 65 \<le> cp c \<and> cp c \<le> 90" by (auto split: if_splits)
  then show ?thesis
  proof
    assume "cp c = cp d"
    with assms show ?thesis by (simp add: upper_char_def Let_def)
  next
    assume "cp c + 32 = cp d \<and> 65 \<le> cp c \<and> cp c \<le> 90"
    moreover from this have "char_of (cp d - 32) = c" by (metis add_diff_cancel_right' char_of_char cp_def)
    ultimately show ?thesis by (simp add: upper_char_def Let_def)
  qed
qed

lemma upper_cve_token: "cve_token w \<Longrightarrow> cve_id (upper w)"
proof (erule cve_token_split)
  fix c v e y x
  assume w: "w = [c, v, e, CHR ''-''] @ y @ CHR ''-'' # x" and
    l: "lower_char c = CHR ''c''" "lower_char v = CHR ''v''" "lower_char e = CHR ''e''" and
    d: "length y = 4" "list_all is_digit y" "list_all is_digit x" "4 \<le> length x" "length x \<le> 7"
  have u: "upper_char c = ''C''" "upper_char v = ''V''" "upper_char e = ''E''"
    using upper_of_lower [OF l(1)] upper_of_lower [OF l(2)] upper_of_lower [OF l(3)]
    by (simp_all add: cp_def char_of_def bit_simps)
  have "upper_char CHR ''-'' = ''-''" by (simp add: upper_char_def cp_def)
  with u d show "cve_id (upper w)"
    unfolding w using cve_id_parts [OF d] by (simp add: upper_Cons upper_append upper_digits)
qed

lemma keep_new_eq: "keep_new seen xs = filter (\<lambda>x. x \<notin> set seen) (from_keys xs)"
proof (induction seen xs rule: keep_new.induct)
  case (2 seen x xs)
  then show ?case by (auto intro!: filter_cong)
qed simp

lemma extract_cves_alt: "extract_cves text = from_keys (map upper (re_scan cve_match None 0 text))"
  by (simp add: extract_cves_def keep_new_eq)

lemma sublist_upper: "sublist w s \<Longrightarrow> sublist (upper w) (upper s)"
  unfolding sublist_def by (metis upper_append)

lemma extract_cves_sound:
  assumes "x \<in> set (extract_cves text)"
  shows "cve_id x \<and> contains x (upper text)"
proof -
  from assms obtain w where w: "x = upper w" "w \<in> set (re_scan cve_match None 0 text)"
    by (auto simp: extract_cves_alt)
  from re_scan_sound [OF w(2)] obtain s n q where s: "suffix s text" "cve_match q s = Some (n, w)" by blast
  then have "cve_token w" "prefix w s" by (auto simp: cve_match_iff prefix_def)
  moreover from this s have "sublist w text"
    by (meson prefix_imp_sublist suffix_imp_sublist sublist_order.order.trans)
  ultimately show ?thesis
    using w(1) upper_cve_token sublist_upper by (simp add: contains_iff_sublist)
qed

lemma cve_token_no_c:
  assumes "cve_token w" "c \<in> set (tl w)" shows "lower_char c \<noteq> CHR ''c''"
proof -
  from assms(1) obtain c0 v e y x where w: "w = [c0, v, e, CHR ''-''] @ y @ CHR ''-'' # x"
    "lower_char v = CHR ''v''" "lower_char e = CHR ''e''" "list_all is_digit y" "list_all is_digit x"
    by (rule cve_token_split)
  have "lower_char CHR ''-'' = CHR ''-''" by (simp add: lower_char_def cp_def)
  with assms(2) w digit_not_c show ?thesis by (auto simp: list_all_iff)
qed

lemma extract_cves_complete:
  assumes "text = u @ w @ v" "cve_token w" "u = [] \<or> \<not> is_word (last u)" "\<not> word_next v"
  shows "upper w \<in> set (extract_cves text)"
proof -
  have ne: "w @ v \<noteq> []" using assms(2) cve_token_hd by auto
  have "w \<in> set (re_scan cve_match None 0 (u @ (w @ v)))"
  proof (rule re_scan_complete)
    show "cve_match (char_before None u) (w @ v) = Some (length w, w)"
      using assms by (auto simp: cve_match_iff char_before_def word_before_def)
  next
    fix u1 u2 j x
    assume u: "u2 \<noteq> []" "cve_match (char_before None u1) (u2 @ w @ v) = Some (j, x)"
    then obtain v' where x: "u2 @ w @ v = x @ v'" "j = length x" "cve_token x"
      by (auto simp: cve_match_iff)
    show "j \<le> length u2"
    proof (rule ccontr)
      assume "\<not> j \<le> length u2"
      then have len: "length u2 < length x" using x(2) by simp
      have "prefix x (u2 @ w @ v)" unfolding x(1) by simp
      moreover have "prefix u2 (u2 @ w @ v)" by simp
      ultimately have "prefix u2 x" using len by (meson less_imp_le prefix_length_prefix)
      with len obtain z where z: "x = u2 @ z" "z \<noteq> []" by (auto simp: prefix_def)
      with x(1) have "w @ v = z @ v'" by simp
      with z(2) cve_token_hd [OF assms(2)] have "hd z = hd w" by (metis hd_append2)
      then have "hd w \<in> set z" using z(2) by (metis hd_in_set)
      with z u(1) have "hd w \<in> set (tl x)" by (cases u2) auto
      with cve_token_no_c [OF x(3)] cve_token_hd [OF assms(2)] show False by blast
    qed
  qed (use ne in auto)
  then show ?thesis using assms(1) by (simp add: extract_cves_alt)
qed

section \<open>Tags are removed\<close>

fun has_tag :: "string \<Rightarrow> bool" where
  "has_tag [] = False"
| "has_tag (c # s) =
     ((c = CHR ''<'' \<and> s \<noteq> [] \<and> hd s \<noteq> CHR ''>'' \<and> CHR ''>'' \<in> set s) \<or> has_tag s)"

lemma tag_match_Some:
  "tag_match p (c # r) \<noteq> None \<longleftrightarrow> c = CHR ''<'' \<and> r \<noteq> [] \<and> hd r \<noteq> CHR ''>'' \<and> CHR ''>'' \<in> set r"
proof -
  have "takeWhile (\<lambda>d. d \<noteq> CHR ''>'') r \<noteq> [] \<longleftrightarrow> r \<noteq> [] \<and> hd r \<noteq> CHR ''>''" by (cases r) auto
  moreover have "length (takeWhile (\<lambda>d. d \<noteq> CHR ''>'') r) < length r \<longleftrightarrow> CHR ''>'' \<in> set r"
    by (induction r) auto
  ultimately show ?thesis by (auto simp: tag_match_def Let_def)
qed

lemma tag_match_prev: "tag_match p s = tag_match q s"
  by (simp add: tag_match_def)

lemma re_sub_tag_skip: "re_sub tag_match p k s = re_sub tag_match q 0 (drop k s)"
proof (induction k arbitrary: p s)
  case 0
  show ?case by (cases s) (simp_all add: tag_match_prev [of p _ q])
next
  case (Suc k)
  then show ?case by (cases s) simp_all
qed

lemma set_re_sub_tag: "set (re_sub tag_match p k s) \<subseteq> set s \<union> {CHR '' ''}"
proof (induction s arbitrary: p k)
  case (Cons c s)
  have "\<And>p n r. tag_match p (c # s) = Some (n, r) \<Longrightarrow> r = '' ''"
    by (auto simp: tag_match_def Let_def split: if_splits)
  with Cons show ?case
    by (cases k) (force split: option.splits)+
qed simp

lemma re_sub_tag_no_tag: "\<not> has_tag (re_sub tag_match p 0 s)"
proof (induction s arbitrary: p rule: length_induct)
  case (1 s)
  show ?case
  proof (cases s)
    case (Cons c r)
    show ?thesis
    proof (cases "tag_match p s")
      case None
      have IH: "\<not> has_tag (re_sub tag_match (Some c) 0 r)" using 1 Cons by simp
      have out: "re_sub tag_match p 0 s = c # re_sub tag_match (Some c) 0 r" using None Cons by simp
      from None Cons tag_match_Some [of p c r] have
        "c \<noteq> CHR ''<'' \<or> r = [] \<or> hd r = CHR ''>'' \<or> CHR ''>'' \<notin> set r" by auto
      then consider "c \<noteq> CHR ''<''" | "r = []" | "hd r = CHR ''>''" "r \<noteq> []" | "CHR ''>'' \<notin> set r" by (cases "r = []") auto
      then show ?thesis
      proof cases
        case 3
        then obtain r' where "r = CHR ''>'' # r'" by (cases r) auto
        then have "hd (re_sub tag_match (Some c) 0 r) = CHR ''>''" by (simp add: tag_match_def)
        with IH out show ?thesis by simp
      next
        case 4
        then have "CHR ''>'' \<notin> set (re_sub tag_match (Some c) 0 r)" using set_re_sub_tag by fastforce
        with IH out show ?thesis by simp
      qed (use IH out in auto)
    next
      case (Some nv)
      then have "\<exists>n. nv = (n, '' '')" by (auto simp: tag_match_def Let_def split: list.splits if_splits)
      then obtain n where "re_sub tag_match p 0 s = CHR '' '' # re_sub tag_match (Some c) (n - 1) r"
        using Some Cons by auto
      then have "re_sub tag_match p 0 s = CHR '' '' # re_sub tag_match None 0 (drop (n - 1) r)"
        by (simp only: re_sub_tag_skip [of "Some c" _ _ None])
      with 1 Cons show ?thesis by simp
    qed
  qed simp
qed

lemma has_tag_append: "has_tag s \<Longrightarrow> has_tag (s @ t)"
  by (induction s) auto

lemma has_tag_append2: "has_tag t \<Longrightarrow> has_tag (s @ t)"
  by (induction s) auto

lemma has_tag_sublist: "sublist t s \<Longrightarrow> has_tag t \<Longrightarrow> has_tag s"
  by (auto simp: sublist_def has_tag_append has_tag_append2)

lemma gt_squeeze: "CHR ''>'' \<in> set (squeeze_ws s) \<longleftrightarrow> CHR ''>'' \<in> set s"
proof (induction s rule: squeeze_ws.induct)
  case (2 c s)
  moreover have "\<not> is_space CHR ''>''" by (simp add: is_space_def cp_def)
  ultimately show ?case by auto
qed simp

lemma hd_squeeze_gt: "s \<noteq> [] \<Longrightarrow> hd (squeeze_ws s) = CHR ''>'' \<longleftrightarrow> hd s = CHR ''>''"
proof (induction s rule: squeeze_ws.induct)
  case (2 c s)
  moreover have "\<not> is_space CHR ''>''" by (simp add: is_space_def cp_def)
  ultimately show ?case by auto
qed simp

lemma has_tag_squeeze: "has_tag (squeeze_ws s) \<Longrightarrow> has_tag s"
proof (induction s rule: squeeze_ws.induct)
  case (2 c s)
  have "\<not> is_space CHR ''<''" by (simp add: is_space_def cp_def)
  with 2 show ?case
    using hd_squeeze_gt [of s] gt_squeeze [of s] by (auto split: if_splits)
qed simp

lemma replace_all_absent: "c \<notin> set s \<Longrightarrow> replace_all (c # w) new s = s"
proof -
  have "c \<notin> set s \<Longrightarrow> re_sub (lit_match (c # w) new) p 0 s = s" for p
    by (induction s arbitrary: p) (auto simp: lit_match_def)
  then show "c \<notin> set s \<Longrightarrow> replace_all (c # w) new s = s" by (simp add: replace_all_def)
qed

lemma strip_html_plain: "no_ws_runs (strip_html s)"
  unfolding strip_html_def by (rule no_ws_runs_sublist [OF strip_sublist squeeze_no_runs])

lemma fold_replace_absent:
  "list_all (\<lambda>(e, r). e \<noteq> [] \<and> hd e = c) es \<Longrightarrow> c \<notin> set s \<Longrightarrow>
    fold (\<lambda>(e, r). replace_all e r) es s = s"
proof (induction es)
  case (Cons p es)
  obtain e r where p: "p = (e, r)" by (cases p)
  with Cons.prems have "e = c # tl e" by (cases e) auto
  then have "replace_all e r s = s" using replace_all_absent [OF Cons.prems(2)] by metis
  with Cons p show ?case by simp
qed simp

lemma strip_html_no_entities:
  assumes "CHR ''&'' \<notin> set s"
  shows "strip_html s = strip (squeeze_ws (re_sub tag_match None 0 s))"
proof -
  have "CHR ''&'' \<notin> set (re_sub tag_match None 0 s)"
    using assms set_re_sub_tag [of None 0 s] by auto
  moreover have "list_all (\<lambda>(e, r). e \<noteq> [] \<and> hd e = CHR ''&'') entities" by (simp add: entities_def)
  ultimately show ?thesis by (simp add: strip_html_def fold_replace_absent)
qed

lemma strip_html_no_tag: "CHR ''&'' \<notin> set s \<Longrightarrow> \<not> has_tag (strip_html s)"
proof
  assume c: "CHR ''&'' \<notin> set s" and "has_tag (strip_html s)"
  then have "has_tag (strip (squeeze_ws (re_sub tag_match None 0 s)))"
    unfolding strip_html_no_entities [OF c] by blast
  then have "has_tag (squeeze_ws (re_sub tag_match None 0 s))" by (rule has_tag_sublist [OF strip_sublist])
  then have "has_tag (re_sub tag_match None 0 s)" by (rule has_tag_squeeze)
  then show False using re_sub_tag_no_tag by blast
qed

lemma truncate_to_length: "0 < n \<Longrightarrow> length (truncate_to n s) \<le> n"
  using rstrip_length [of "take (n - 1) s"] by (auto simp: truncate_to_def)

lemma truncate_to_prefix:
  "n < length s \<Longrightarrow> truncate_to n s = rstrip (take (n - 1) s) @ [sub_char] \<and> prefix (rstrip (take (n - 1) s)) s"
  by (auto simp: truncate_to_def intro: prefix_order.trans [OF rstrip_prefix take_is_prefix])

section \<open>Keyword matching\<close>

lemma mentions_iff:
  assumes "tok \<noteq> []"
  shows "mentions text tok \<longleftrightarrow>
    (\<exists>u v. text = u @ tok @ v \<and> (u = [] \<or> \<not> ascii_alnum (last u)) \<and> (v = [] \<or> \<not> ascii_alnum (hd v)))"
    (is "_ \<longleftrightarrow> ?r")
proof
  assume "mentions text tok"
  then obtain u w where "text = u @ w" "mention_match tok (char_before None u) w \<noteq> None"
    unfolding mentions_def re_scan_nonempty by blast
  then show ?r
    by (intro exI [of _ u] exI [of _ "drop (length tok) w"])
      (auto simp: mention_match_def char_before_def prefix_def split: if_splits list.splits)
next
  assume ?r
  then obtain u v where "text = u @ tok @ v" "u = [] \<or> \<not> ascii_alnum (last u)" "v = [] \<or> \<not> ascii_alnum (hd v)"
    by blast
  moreover from this(2,3) have "mention_match tok (char_before None u) (tok @ v) \<noteq> None"
    by (auto simp: mention_match_def char_before_def split: list.split)
  ultimately show "mentions text tok"
    unfolding mentions_def re_scan_nonempty using assms by blast
qed

lemma contains_any_iff:
  "contains_any text toks \<longleftrightarrow>
     (\<exists>tok \<in> set toks. if tok \<in> set ambiguous_tokens then mentions text tok else contains tok text)"
  by (induction toks) (auto simp: contains_any.simps)

section \<open>Severity, tags, patch status\<close>

definition severity_levels :: "string list" where
  "severity_levels = [''unknown'', ''low'', ''medium'', ''high'', ''critical'']"

lemma infer_severity_level: "infer_severity text s \<in> set severity_levels"
  by (simp add: infer_severity_def severity_levels_def Let_def split: option.split)

lemma in_add_if: "x |\<in>| add_if b t T \<longleftrightarrow> b \<and> x = t \<or> x |\<in>| T"
  by (simp add: add_if_def)

lemma infer_tags_source: "x |\<in>| source_tags \<Longrightarrow> x |\<in>| infer_tags text source_tags cs"
  unfolding infer_tags_def Let_def in_add_if by blast

lemma infer_tags_cve: "''cve'' |\<in>| infer_tags text source_tags cs \<longleftrightarrow> cs \<noteq> [] \<or> ''cve'' |\<in>| source_tags"
  unfolding infer_tags_def Let_def in_add_if by simp

definition patch_levels :: "string list" where
  "patch_levels = [''unknown'', ''not-affected'', ''deferred'', ''fixed'', ''affected'']"

lemma normalize_patch_status_level: "normalize_patch_status raw \<in> set patch_levels"
  by (simp add: normalize_patch_status_def patch_levels_def Let_def split: option.split)

lemma summarize_not_affected:
  "summarize_states ss = ''not-affected'' \<longleftrightarrow> (\<forall>s \<in> set ss. s = ''not-affected'')"
  by (auto simp: summarize_states_def list_all_iff)

section \<open>Properties\<close>

lemma re_scan_position:
  "v \<in> set (re_scan m p k s) \<Longrightarrow> \<exists>u w n. s = u @ w \<and> m (char_before p u) w = Some (n, v)"
proof (induction s arbitrary: p k)
  case (Cons c s)
  have step: "\<exists>u w n. c # s = u @ w \<and> m (char_before p u) w = Some (n, v)"
    if "v \<in> set (re_scan m (Some c) j s)" for j
  proof -
    from Cons.IH [OF that] obtain u w n where "s = u @ w" "m (char_before (Some c) u) w = Some (n, v)" by blast
    then have "c # s = (c # u) @ w \<and> m (char_before p (c # u)) w = Some (n, v)" by simp
    then show ?thesis by blast
  qed
  show ?case
  proof (cases k)
    case 0
    show ?thesis
    proof (cases "m p (c # s)")
      case None
      with 0 Cons.prems show ?thesis by (intro step) simp
    next
      case (Some r)
      obtain n x where r: "r = (n, x)" by (cases r)
      with 0 Some Cons.prems have "v = x \<or> v \<in> set (re_scan m (Some c) (n - 1) s)" by simp
      then show ?thesis
      proof
        assume "v = x"
        with Some r have "m (char_before p []) (c # s) = Some (n, v)" by (simp add: char_before_def)
        then show ?thesis by (metis append_Nil)
      qed (rule step)
    qed
  qed (use Cons.prems step in auto)
qed simp

lemma in_extract_cves:
  "x \<in> set (extract_cves text) \<longleftrightarrow>
     (\<exists>u w v. text = u @ w @ v \<and> x = upper w \<and> cve_token w \<and> (u = [] \<or> \<not> is_word (last u)) \<and> \<not> word_next v)"
proof
  assume "x \<in> set (extract_cves text)"
  then obtain w where w: "x = upper w" "w \<in> set (re_scan cve_match None 0 text)"
    by (auto simp: extract_cves_alt)
  from re_scan_position [OF w(2)] obtain u s n where
    s: "text = u @ s" "cve_match (char_before None u) s = Some (n, w)" by blast
  then obtain v where "s = w @ v" "cve_token w" "\<not> word_next v" "\<not> word_before (char_before None u)"
    by (auto simp: cve_match_iff)
  moreover from this(4) have "u = [] \<or> \<not> is_word (last u)"
    by (simp add: char_before_def word_before_def split: if_splits)
  ultimately show "\<exists>u w v. text = u @ w @ v \<and> x = upper w \<and> cve_token w \<and> (u = [] \<or> \<not> is_word (last u)) \<and> \<not> word_next v"
    using s(1) w(1) by blast
qed (use extract_cves_complete in blast)

text \<open>C23. CVE extraction is exact: it returns, once each, in upper case, precisely the
  ids of the shape CVE-dddd-dddd to CVE-dddd-ddddddd (any case) that stand in the text between
  word boundaries, and every id it returns has the canonical form.\<close>

theorem extract_cves_exact:
  "distinct (extract_cves s) \<and> list_all cve_id (extract_cves s) \<and>
   set (extract_cves s) = {x. \<exists>u w v. s = u @ w @ v \<and> x = upper w \<and> cve_token w \<and>
     (u = [] \<or> \<not> is_word (last u)) \<and> \<not> word_next v}"
proof (intro conjI)
  show "distinct (extract_cves s)" by (simp add: extract_cves_alt)
  show "list_all cve_id (extract_cves s)" using extract_cves_sound by (auto simp: list_all_iff)
qed (use in_extract_cves in blast)

lemma extract_cves_exact_witness: "''CVE-2024-1234'' \<in> set (extract_cves ''see cve-2024-1234.'')"
proof -
  have "''see cve-2024-1234.'' = ''see '' @ ''cve-2024-1234'' @ ''.''" by simp
  moreover have "''CVE-2024-1234'' = upper ''cve-2024-1234'' \<and> cve_token ''cve-2024-1234'' \<and>
      \<not> is_word (last ''see '') \<and> \<not> word_next ''.''" by code_simp
  ultimately show ?thesis using extract_cves_exact [of "''see cve-2024-1234.''"] by blast
qed

text \<open>A summary made of a text without entities is free of markup: no tag is left, no two
  white space characters are adjacent, and it neither starts nor ends with white space.\<close>

theorem strip_html_is_plain:
  assumes "CHR ''&'' \<notin> set s"
  shows "\<not> has_tag (strip_html s) \<and> no_ws_runs (strip_html s) \<and>
    (strip_html s \<noteq> [] \<longrightarrow> \<not> is_space (hd (strip_html s)) \<and> \<not> is_space (last (strip_html s)))"
  using strip_html_no_tag [OF assms] strip_html_plain [of s] strip_hd strip_last
  by (simp add: strip_html_def)

lemma strip_html_is_plain_witness: "\<not> has_tag (strip_html ''a <b> c'')"
  using strip_html_is_plain [of "''a <b> c''"] by simp

text \<open>Entities are decoded after the tags are removed, so markup written with entities
  survives into the summary, which the docstring of \<open>_strip_html\<close> says is plain text.\<close>

theorem strip_html_entity_markup:
  "strip_html ''&lt;b&gt;x'' = ''<b>x'' \<and> has_tag (strip_html ''&lt;b&gt;x'')"
  by code_simp

text \<open>A higher CVSS score never gives a lower severity, and with or without a score the
  severity is one of the five levels.\<close>

theorem infer_severity_monotone:
  assumes "x \<le> y"
  shows "\<exists>i j. i \<le> j \<and> j < 5 \<and> severity_levels ! i = infer_severity text (Some x) \<and>
    severity_levels ! j = infer_severity text' (Some y) \<and> infer_severity text' None \<in> set severity_levels"
proof -
  define lvl where "lvl z = (if 9 \<le> z then 4 else if 7 \<le> z then 3 else if 4 \<le> z then 2 else if 0 < z then 1 else 0 :: nat)"
    for z :: rat
  have "severity_levels ! lvl z = infer_severity t (Some z)" for z t
    by (simp add: lvl_def infer_severity_def severity_levels_def)
  moreover have "lvl x \<le> lvl y" "lvl y < 5" using assms by (auto simp: lvl_def)
  ultimately show ?thesis using infer_severity_level [of text' None] by blast
qed

lemma infer_severity_monotone_witness:
  "\<exists>i j. i \<le> j \<and> j < 5 \<and> severity_levels ! i = infer_severity [] (Some 7) \<and>
    severity_levels ! j = infer_severity [] (Some 9) \<and> infer_severity [] None \<in> set severity_levels"
  by (rule infer_severity_monotone) simp

text \<open>An ambiguous short token matches exactly where it stands as a whole word: no letter or
  digit before it or after it; a match inside a longer word (rce in source) does not count.\<close>

theorem contains_any_whole_words:
  "contains_any text [''rce''] \<longleftrightarrow>
    (\<exists>u v. text = u @ ''rce'' @ v \<and> (u = [] \<or> \<not> ascii_alnum (last u)) \<and> (v = [] \<or> \<not> ascii_alnum (hd v)))"
  by (simp add: contains_any_iff ambiguous_tokens_def mentions_iff)

lemma contains_any_whole_words_witness:
  "contains_any ''an rce bug'' [''rce''] \<and> \<not> contains_any ''source'' [''rce'']"
proof
  have "''an rce bug'' = ''an '' @ ''rce'' @ '' bug''" by simp
  moreover have "\<not> ascii_alnum (last ''an '') \<and> \<not> ascii_alnum (hd '' bug'')" by code_simp
  ultimately show "contains_any ''an rce bug'' [''rce'']" unfolding contains_any_whole_words by blast
  show "\<not> contains_any ''source'' [''rce'']" by code_simp
qed

end
