(* ===== verification/Events.thy ===== *)
theory Events
  imports Json
begin

text \<open>
  \<open>app/events.py\<close>: the broker of the server-sent events, and the \<open>asyncio.Queue\<close> of the
  standard library it hands out. Queues have identity in Python; here the broker numbers them,
  and the set of subscribers is an association list from number to queue. The event loop runs
  one callback at a time, so publishers and consumers are an interleaving of atomic actions.
\<close>

type_synonym event = "(string, json) dict"

section \<open>asyncio.Queue\<close>

record 'e queue =
  maxsize :: int
  pending :: "'e list"

definition new_queue :: "int \<Rightarrow> 'e queue" where
  "new_queue n = \<lparr>maxsize = n, pending = []\<rparr>"

definition queue_full :: "'e queue \<Rightarrow> bool" where
  "queue_full q \<longleftrightarrow> 0 < maxsize q \<and> maxsize q \<le> int (length (pending q))"

text \<open>\<open>None\<close> is \<open>asyncio.QueueFull\<close>.\<close>

definition put_nowait :: "'e queue \<Rightarrow> 'e \<Rightarrow> 'e queue option" where
  "put_nowait q x = (if queue_full q then None else Some (q\<lparr>pending := pending q @ [x]\<rparr>))"

text \<open>\<open>None\<close> is a \<open>get\<close> that finds nothing until it times out.\<close>

definition get_nowait :: "'e queue \<Rightarrow> ('e \<times> 'e queue) option" where
  "get_nowait q = (case pending q of [] \<Rightarrow> None | x # xs \<Rightarrow> Some (x, q\<lparr>pending := xs\<rparr>))"

section \<open>What the broker relies on\<close>

text \<open>The loop body of \<open>publish\<close>: drop the event when the queue refuses it.\<close>

definition offer :: "('q \<Rightarrow> 'e \<Rightarrow> 'q option) \<Rightarrow> 'q \<Rightarrow> 'e \<Rightarrow> 'q" where
  "offer put q x = (case put q x of None \<Rightarrow> q | Some q' \<Rightarrow> q')"

definition take_one :: "('q \<Rightarrow> ('e \<times> 'q) option) \<Rightarrow> 'q \<Rightarrow> 'e list \<times> 'q" where
  "take_one get q = (case get q of None \<Rightarrow> ([], q) | Some (x, q') \<Rightarrow> ([x], q'))"

definition fits :: "nat option \<Rightarrow> nat \<Rightarrow> bool" where
  "fits c n \<longleftrightarrow> (case c of None \<Rightarrow> True | Some m \<Rightarrow> n \<le> m)"

locale bounded_fifo =
  fixes put :: "'q \<Rightarrow> 'e \<Rightarrow> 'q option"
    and get :: "'q \<Rightarrow> ('e \<times> 'q) option"
    and contents :: "'q \<Rightarrow> 'e list"
    and cap :: "'q \<Rightarrow> nat option"
  assumes put_full: "put q x = None \<longleftrightarrow> \<not> fits (cap q) (Suc (length (contents q)))"
    and put_some: "put q x = Some q' \<Longrightarrow> contents q' = contents q @ [x] \<and> cap q' = cap q"
    and get_none: "get q = None \<longleftrightarrow> contents q = []"
    and get_some: "get q = Some (x, q') \<Longrightarrow> contents q = x # contents q' \<and> cap q' = cap q"
begin

lemma offer_contents:
  "contents (offer put q x) =
     (if fits (cap q) (Suc (length (contents q))) then contents q @ [x] else contents q)"
  using put_full [of q x] put_some [of q x] by (auto simp: offer_def split: option.split)

lemma offer_cap [simp]: "cap (offer put q x) = cap q"
  using put_some [of q x] by (auto simp: offer_def split: option.split)

lemma offer_bounded:
  "fits (cap q) (length (contents q)) \<Longrightarrow> fits (cap q) (length (contents (offer put q x)))"
  by (simp add: offer_contents)

lemma take_one_contents: "fst (take_one get q) @ contents (snd (take_one get q)) = contents q"
  using get_none [of q] get_some [of q] by (auto simp: take_one_def split: option.split)

lemma take_one_cap [simp]: "cap (snd (take_one get q)) = cap q"
  using get_some [of q] by (auto simp: take_one_def split: option.split)

lemma take_one_bounded:
  assumes "fits (cap q) (length (contents q))"
  shows "fits (cap q) (length (contents (snd (take_one get q))))"
proof -
  have "length (contents (snd (take_one get q))) \<le> length (contents q)"
    by (subst take_one_contents [of q, symmetric]) simp
  with assms show ?thesis by (auto simp: fits_def split: option.splits)
qed

text \<open>What was delivered, followed by what waits, stays a subsequence of what was published.\<close>

lemma offer_subseq:
  assumes "subseq (ds @ contents q) ps"
  shows "subseq (ds @ contents (offer put q x)) (ps @ [x])"
proof -
  have "subseq ((ds @ contents q) @ [x]) (ps @ [x])"
    using assms by (rule list_emb_append_mono) simp
  moreover have "subseq ((ds @ contents q) @ []) (ps @ [x])"
    using assms by (rule list_emb_append_mono) simp
  ultimately show ?thesis by (simp add: offer_contents)
qed

end

definition queue_cap :: "'e queue \<Rightarrow> nat option" where
  "queue_cap q = (if 0 < maxsize q then Some (nat (maxsize q)) else None)"

interpretation aq: bounded_fifo put_nowait get_nowait pending queue_cap
  by unfold_locales
    (auto simp: put_nowait_def get_nowait_def queue_full_def queue_cap_def fits_def split: if_splits list.splits)

section \<open>The broker\<close>

record broker =
  max_subscribers :: int
  subscribers :: "(nat, event queue) dict"
  next_queue :: nat

definition new_broker :: "int \<Rightarrow> broker" where
  "new_broker n = \<lparr>max_subscribers = n, subscribers = [], next_queue = 0\<rparr>"

definition subscribe :: "broker \<Rightarrow> nat option \<times> broker" where
  "subscribe b =
     (if 0 < max_subscribers b \<and> max_subscribers b \<le> int (length (subscribers b)) then (None, b)
      else (Some (next_queue b),
            b\<lparr>subscribers := dict_set (next_queue b) (new_queue 16) (subscribers b),
              next_queue := Suc (next_queue b)\<rparr>))"

definition unsubscribe :: "nat \<Rightarrow> broker \<Rightarrow> broker" where
  "unsubscribe q b = b\<lparr>subscribers := filter (\<lambda>p. fst p \<noteq> q) (subscribers b)\<rparr>"

definition publish :: "event \<Rightarrow> broker \<Rightarrow> broker" where
  "publish ev b = b\<lparr>subscribers := map (\<lambda>(i, q). (i, offer put_nowait q ev)) (subscribers b)\<rparr>"

text \<open>The consumer's \<open>wait_for(queue.get(), timeout)\<close>: an event, or none in time.\<close>

definition consume :: "nat \<Rightarrow> broker \<Rightarrow> event list \<times> broker" where
  "consume i b = (case map_of (subscribers b) i of None \<Rightarrow> ([], b)
     | Some q \<Rightarrow> (case take_one get_nowait q of (evs, q') \<Rightarrow>
          (evs, b\<lparr>subscribers := dict_set i q' (subscribers b)\<rparr>)))"

section \<open>Runs of the broker\<close>

datatype action = Subscribe | Unsubscribe nat | Publish event | Consume nat

datatype outcome = Subscribed nat | Refused | Delivered "event list" | Silent

inductive broker_step :: "broker \<Rightarrow> action \<Rightarrow> outcome \<Rightarrow> broker \<Rightarrow> bool" where
  step_subscribe: "subscribe b = (Some i, b') \<Longrightarrow> broker_step b Subscribe (Subscribed i) b'"
| step_refuse: "subscribe b = (None, b') \<Longrightarrow> broker_step b Subscribe Refused b'"
| step_unsubscribe: "broker_step b (Unsubscribe i) Silent (unsubscribe i b)"
| step_publish: "broker_step b (Publish ev) Silent (publish ev b)"
| step_consume: "consume i b = (evs, b') \<Longrightarrow> broker_step b (Consume i) (Delivered evs) b'"

code_pred (modes: i \<Rightarrow> i \<Rightarrow> o \<Rightarrow> o \<Rightarrow> bool) broker_step .

inductive_cases broker_stepE: "broker_step b a r b'"
inductive_simps subscribe_step [simp]: "broker_step b Subscribe r b'"
  and unsubscribe_step [simp]: "broker_step b (Unsubscribe i) r b'"
  and publish_step [simp]: "broker_step b (Publish ev) r b'"
  and consume_step [simp]: "broker_step b (Consume i) r b'"

text \<open>A run, with the events published to and delivered from each queue so far.\<close>

record trace =
  tr_published :: "nat \<Rightarrow> event list"
  tr_delivered :: "nat \<Rightarrow> event list"

fun observe :: "broker \<Rightarrow> action \<Rightarrow> outcome \<Rightarrow> trace \<Rightarrow> trace" where
  "observe b (Publish ev) r tr = tr\<lparr>tr_published :=
     (\<lambda>i. if map_of (subscribers b) i = None then tr_published tr i else tr_published tr i @ [ev])\<rparr>"
| "observe b (Consume i) (Delivered evs) tr = tr\<lparr>tr_delivered := (tr_delivered tr)(i := tr_delivered tr i @ evs)\<rparr>"
| "observe b a r tr = tr"

inductive broker_run :: "int \<Rightarrow> broker \<Rightarrow> trace \<Rightarrow> bool" for n where
  run_init: "broker_run n (new_broker n) \<lparr>tr_published = (\<lambda>_. []), tr_delivered = (\<lambda>_. [])\<rparr>"
| run_step: "broker_run n b tr \<Longrightarrow> broker_step b a r b' \<Longrightarrow> broker_run n b' (observe b a r tr)"

definition broker_inv :: "int \<Rightarrow> broker \<Rightarrow> bool" where
  "broker_inv n b \<longleftrightarrow> max_subscribers b = n \<and> dict_ok (subscribers b) \<and>
     (\<forall>i q. map_of (subscribers b) i = Some q \<longrightarrow>
        i < next_queue b \<and> maxsize q = 16 \<and> length (pending q) \<le> 16) \<and>
     (0 < n \<longrightarrow> int (length (subscribers b)) \<le> n)"

definition trace_inv :: "broker \<Rightarrow> trace \<Rightarrow> bool" where
  "trace_inv b tr \<longleftrightarrow>
     (\<forall>i. subseq (tr_delivered tr i @
        (case map_of (subscribers b) i of None \<Rightarrow> [] | Some q \<Rightarrow> pending q)) (tr_published tr i)) \<and>
     (\<forall>i \<ge> next_queue b. tr_published tr i = [] \<and> map_of (subscribers b) i = None)"

lemma broker_inv_new: "broker_inv n (new_broker n)"
  by (simp add: broker_inv_def new_broker_def)

lemma map_of_map_snd: "map_of (map (\<lambda>(k, v). (k, f v)) d) k = map_option f (map_of d k)"
  by (induction d) auto

lemma map_of_unsubscribe:
  "map_of (subscribers (unsubscribe i b)) k = (if k = i then None else map_of (subscribers b) k)"
proof -
  have "map_of (filter (\<lambda>p. fst p \<noteq> i) d) k = (if k = i then None else map_of d k)" for d :: "(nat \<times> event queue) list"
    by (induction d) auto
  then show ?thesis by (simp add: unsubscribe_def)
qed

lemma map_of_publish:
  "map_of (subscribers (publish ev b)) k = map_option (\<lambda>q. offer put_nowait q ev) (map_of (subscribers b) k)"
  by (simp add: publish_def map_of_map_snd)

lemma dict_ok_length_set: "dict_ok d \<Longrightarrow> length (dict_set k v d) = (if k \<in> fst ` set d then length d else Suc (length d))"
  by (induction d) (auto simp: dict_ok_def split: if_splits)

lemma queue_cap_16 [simp]: "maxsize q = 16 \<Longrightarrow> queue_cap q = Some 16"
  by (simp add: queue_cap_def)

lemma maxsize_offer [simp]: "maxsize (offer put_nowait q ev) = maxsize q"
  by (auto simp: offer_def put_nowait_def)

lemma maxsize_take_one [simp]: "maxsize (snd (take_one get_nowait q)) = maxsize q"
  by (auto simp: take_one_def get_nowait_def split: list.split)

lemma offer_16: "maxsize q = 16 \<Longrightarrow> length (pending q) \<le> 16 \<Longrightarrow> pending (offer put_nowait q ev) = take 16 (pending q @ [ev])"
  by (auto simp: aq.offer_contents fits_def)

lemma offer_length_16: "maxsize q = 16 \<Longrightarrow> length (pending q) \<le> 16 \<Longrightarrow> length (pending (offer put_nowait q ev)) \<le> 16"
  using aq.offer_bounded [of q ev] by (simp add: fits_def)

lemma take_one_length_16: "length (pending q) \<le> 16 \<Longrightarrow> length (pending (snd (take_one get_nowait q))) \<le> 16"
  by (auto simp: take_one_def get_nowait_def split: list.split)

lemma broker_inv_step:
  assumes "broker_inv n b" "broker_step b a r b'"
  shows "broker_inv n b'"
  using assms(2)
proof cases
  case (step_subscribe i)
  have new: "map_of (subscribers b) (next_queue b) = None"
    using assms(1) by (cases "map_of (subscribers b) (next_queue b)") (auto simp: broker_inv_def)
  then have "next_queue b \<notin> fst ` set (subscribers b)" by (simp add: map_of_eq_None_iff)
  with step_subscribe assms(1) show ?thesis
    by (auto simp: subscribe_def broker_inv_def new_queue_def dict_ok_length_set less_Suc_eq split: if_splits)
next
  case step_refuse
  with assms(1) show ?thesis by (simp add: subscribe_def split: if_splits)
next
  case (step_unsubscribe i)
  have "length (subscribers (unsubscribe i b)) \<le> length (subscribers b)" by (simp add: unsubscribe_def)
  with step_unsubscribe assms(1) show ?thesis
    by (auto simp: broker_inv_def map_of_unsubscribe) (auto simp: unsubscribe_def dict_ok_def distinct_map_filter)
next
  case (step_publish ev)
  with assms(1) show ?thesis
    by (auto simp: broker_inv_def map_of_publish offer_length_16) (auto simp: publish_def dict_ok_def comp_def split_def)
next
  case (step_consume i evs)
  show ?thesis
  proof (cases "map_of (subscribers b) i")
    case None
    with step_consume assms(1) show ?thesis by (simp add: consume_def)
  next
    case (Some q)
    then have "length (dict_set i q' (subscribers b)) = length (subscribers b)" for q'
      using assms(1) map_of_eq_None_iff [of "subscribers b" i]
      by (simp add: broker_inv_def dict_ok_length_set)
    moreover obtain es q' where to: "take_one get_nowait q = (es, q')" by fastforce
    moreover have "maxsize q = 16" "length (pending q) \<le> 16" "i < next_queue b"
      using assms(1) Some by (auto simp: broker_inv_def)
    moreover from this have "maxsize q' = 16" "length (pending q') \<le> 16"
      using maxsize_take_one [of q] take_one_length_16 [of q] by (simp_all add: to)
    ultimately show ?thesis using Some step_consume assms(1)
      by (auto simp: consume_def broker_inv_def split: if_splits)
  qed
qed

lemma trace_inv_step:
  assumes "broker_inv n b" "trace_inv b tr" "broker_step b a r b'"
  shows "trace_inv b' (observe b a r tr)"
  using assms(3)
proof cases
  case (step_subscribe i)
  have "subseq (tr_delivered tr (next_queue b)) []"
    using assms(2) by (auto simp: trace_inv_def dest: spec [of _ "next_queue b"])
  with step_subscribe show ?thesis using assms(2)
    by (auto simp: subscribe_def trace_inv_def new_queue_def split: if_splits)
next
  case step_refuse
  then show ?thesis using assms(2) by (simp add: subscribe_def split: if_splits)
next
  case (step_unsubscribe i)
  have "subseq (tr_delivered tr k @ (case map_of (subscribers (unsubscribe i b)) k of None \<Rightarrow> [] | Some q \<Rightarrow> pending q))
      (tr_published tr k)" for k
  proof (cases "k = i")
    case True
    have "subseq (tr_delivered tr i) (tr_delivered tr i @ zs)" for zs
      by (rule subseq_rev_drop_many) simp
    with True assms(2) show ?thesis
      by (simp add: trace_inv_def map_of_unsubscribe) (meson subseq_order.trans)
  qed (use assms(2) in \<open>simp add: trace_inv_def map_of_unsubscribe\<close>)
  then show ?thesis using step_unsubscribe assms(2)
    by (simp add: trace_inv_def map_of_unsubscribe) (simp add: unsubscribe_def)
next
  case (step_publish ev)
  have "subseq (tr_delivered tr k @ (case map_of (subscribers (publish ev b)) k of None \<Rightarrow> [] | Some q \<Rightarrow> pending q))
      (tr_published (observe b (Publish ev) r tr) k)" for k
    using assms(2) aq.offer_subseq [of "tr_delivered tr k" _ "tr_published tr k" ev]
    unfolding trace_inv_def
    by (cases "map_of (subscribers b) k") (auto simp: map_of_publish dest: spec [of _ k])
  then show ?thesis using step_publish assms(2)
    by (simp add: trace_inv_def map_of_publish) (force simp: publish_def)
next
  case (step_consume i evs)
  show ?thesis
  proof (cases "map_of (subscribers b) i")
    case None
    with step_consume assms(2) show ?thesis by (simp add: consume_def trace_inv_def)
  next
    case (Some q)
    with assms(1) have "i < next_queue b" by (simp add: broker_inv_def)
    with Some step_consume assms(2) aq.take_one_contents [of q] show ?thesis
      by (cases "take_one get_nowait q") (auto simp: consume_def trace_inv_def dest: spec [of _ i])
  qed
qed

lemma broker_run_inv: "broker_run n b tr \<Longrightarrow> broker_inv n b \<and> trace_inv b tr"
proof (induction rule: broker_run.induct)
  case run_init
  then show ?case by (simp add: broker_inv_new) (simp add: trace_inv_def new_broker_def)
next
  case (run_step b tr a r b')
  then show ?case using broker_inv_step trace_inv_step by blast
qed

section \<open>Properties\<close>

text \<open>C11. In every run of the broker, however subscribers, publishers and consumers interleave, the
  subscriber cap holds (when it is positive), every queue holds at most 16 events, and what a
  consumer has received followed by what still waits for it is a subsequence, in order and
  without duplicates, of the events published while it was subscribed.\<close>

theorem broker_run_safe:
  assumes "broker_run n b tr"
  shows "(0 < n \<longrightarrow> int (length (subscribers b)) \<le> n) \<and>
    (\<forall>i q. map_of (subscribers b) i = Some q \<longrightarrow> length (pending q) \<le> 16) \<and>
    (\<forall>i. subseq (tr_delivered tr i @
       (case map_of (subscribers b) i of None \<Rightarrow> [] | Some q \<Rightarrow> pending q)) (tr_published tr i))"
  using broker_run_inv [OF assms] by (auto simp: broker_inv_def trace_inv_def)

text \<open>A run that subscribes, publishes, refuses a second subscriber and delivers.\<close>

lemma broker_run_sample:
  defines "ev \<equiv> [(''type'', JStr ''feed_updated'')]"
  shows "broker_run 1 (snd (consume 0 (publish ev (snd (subscribe (new_broker 1))))))
    \<lparr>tr_published = (\<lambda>_. [])(0 := [ev]), tr_delivered = (\<lambda>_. [])(0 := [ev])\<rparr>"
proof -
  note [simp] = subscribe_def new_broker_def publish_def offer_def put_nowait_def queue_full_def
    new_queue_def consume_def take_one_def get_nowait_def
  let ?b1 = "snd (subscribe (new_broker 1))" and ?t = "\<lparr>tr_published = (\<lambda>_. []), tr_delivered = (\<lambda>_. [])\<rparr>"
  have "broker_run 1 ?b1 (observe (new_broker 1) Subscribe (Subscribed 0) ?t)"
    by (rule run_step [OF run_init]) simp
  then have "broker_run 1 ?b1 ?t" by simp
  moreover have "broker_step ?b1 Subscribe Refused ?b1" by simp
  ultimately have "broker_run 1 ?b1 (observe ?b1 Subscribe Refused ?t)" by (rule run_step)
  then have "broker_run 1 ?b1 ?t" by simp
  from run_step [OF this step_publish]
  have "broker_run 1 (publish ev ?b1) (observe ?b1 (Publish ev) Silent ?t)" .
  moreover have "broker_step (publish ev ?b1) (Consume 0) (Delivered [ev]) (snd (consume 0 (publish ev ?b1)))"
    by simp
  ultimately have "broker_run 1 (snd (consume 0 (publish ev ?b1)))
      (observe (publish ev ?b1) (Consume 0) (Delivered [ev]) (observe ?b1 (Publish ev) Silent ?t))"
    by (rule run_step)
  moreover have "observe (publish ev ?b1) (Consume 0) (Delivered [ev]) (observe ?b1 (Publish ev) Silent ?t)
      = \<lparr>tr_published = (\<lambda>_. [])(0 := [ev]), tr_delivered = (\<lambda>_. [])(0 := [ev])\<rparr>"
    by (simp add: fun_eq_iff)
  ultimately show ?thesis by simp
qed

lemma broker_run_safe_witness:
  "\<exists>b tr. broker_run 1 b tr \<and> tr_delivered tr 0 \<noteq> [] \<and>
     (\<forall>i. subseq (tr_delivered tr i @
       (case map_of (subscribers b) i of None \<Rightarrow> [] | Some q \<Rightarrow> pending q)) (tr_published tr i))"
proof (intro exI conjI)
  let ?ev = "[(''type'', JStr ''feed_updated'')]"
  show "broker_run 1 (snd (consume 0 (publish ?ev (snd (subscribe (new_broker 1))))))
    \<lparr>tr_published = (\<lambda>_. [])(0 := [?ev]), tr_delivered = (\<lambda>_. [])(0 := [?ev])\<rparr>"
    by (rule broker_run_sample)
  from broker_run_safe [OF this]
  show "\<forall>i. subseq (tr_delivered \<lparr>tr_published = (\<lambda>_. [])(0 := [?ev]), tr_delivered = (\<lambda>_. [])(0 := [?ev])\<rparr> i @
       (case map_of (subscribers (snd (consume 0 (publish ?ev (snd (subscribe (new_broker 1))))))) i of
          None \<Rightarrow> [] | Some q \<Rightarrow> pending q))
       (tr_published \<lparr>tr_published = (\<lambda>_. [])(0 := [?ev]), tr_delivered = (\<lambda>_. [])(0 := [?ev])\<rparr> i)"
    by blast
qed simp

end
