(* ===== verification/World.thy ===== *)
theory World
  imports Config Store Normalize Events
begin

text \<open>
  The effects of the program. A computation reads and changes a \<open>world\<close> (the database, the
  clock, the requests and mails sent so far and the module globals) and ends with a value or an
  exception; what it changed before an exception stays changed. The network is a parameter: the
  answer to the n-th request, a response or an exception. \<open>httpx\<close> and \<open>app/http_client.py\<close>
  appear as one request of a client with the shared policy, and \<open>raise_for_status\<close>. Time
  passes only in \<open>sleep\<close>; the wall clock and the monotonic clocks are one clock.
\<close>

section \<open>Requests and responses\<close>

datatype body = NoBody | JsonBody json | TextBody string

record http_request =
  rq_method :: string
  rq_url :: string
  rq_headers :: "(string, string) dict"
  rq_params :: "(string \<times> string) list"
  rq_body :: body
  rq_timeout :: rat
  rq_follow :: bool

text \<open>\<open>rs_header\<close> looks up lower-case names; \<open>rs_error\<close> is the message of \<open>HTTPStatusError\<close>.\<close>

record http_response =
  rs_status :: nat
  rs_header :: "string \<Rightarrow> string option"
  rs_content :: string
  rs_json :: "json result"
  rs_error :: string

text \<open>Code outside the repository (SHA-1, \<open>feedparser\<close>, RFC 2822 dates, \<open>str\<close> of a value
  that is no text, the network and the mail server), and the configuration.\<close>

record env =
  cfg :: settings
  sha1 :: "string \<Rightarrow> string"
  parse_feed :: "string \<Rightarrow> json list"
  parse_date :: "string \<Rightarrow> pydt option"
  py_repr :: "json \<Rightarrow> string"
  net :: "nat \<Rightarrow> http_request \<Rightarrow> http_response result"
  smtp :: "nat \<Rightarrow> unit result"

record mail =
  m_from :: string
  m_to :: string
  m_subject :: string
  m_body :: string

text \<open>\<open>FeedCache\<close> of \<open>app/pipeline.py\<close>\<close>

record feed_cache =
  c_fetched_at :: "pydt option"
  c_generated_at :: "pydt option"
  c_errors :: "string list"
  c_steps :: "(string, string) dict"

definition empty_cache :: feed_cache where
  "empty_cache = \<lparr>c_fetched_at = None, c_generated_at = None, c_errors = [], c_steps = []\<rparr>"

text \<open>What \<open>parse_osv\<close> of \<open>app/osv.py\<close> extracts; the cache holds it, or the empty dict (\<open>None\<close>)
  of a CVE that OSV does not know, with the time it was fetched.\<close>

record osv_data =
  os_summary :: string
  os_details :: json
  os_aliases :: json
  os_affected :: "string list"
  os_fixed :: "string list"
  os_severity :: "string option"
  os_patch :: bool

record 'db world =
  w_db :: 'db
  w_now :: int
  w_sent :: "http_request list"
  w_mails :: "mail list"
  w_nvd_next :: int
  w_kev :: "((string, json) dict \<times> int) option"
  w_osv :: "(string, osv_data option \<times> int) dict"
  w_synced :: "int option"
  w_pruned :: "int option"
  w_cache :: feed_cache
  w_broker :: broker

definition new_world :: "'db \<Rightarrow> int \<Rightarrow> settings \<Rightarrow> 'db world" where
  "new_world db now st = \<lparr>w_db = db, w_now = now, w_sent = [], w_mails = [], w_nvd_next = 0, w_kev = None,
     w_osv = [], w_synced = None, w_pruned = None, w_cache = empty_cache,
     w_broker = new_broker (max_sse_subscribers st)\<rparr>"

section \<open>Computations\<close>

type_synonym ('db, 'a) io = "'db world \<Rightarrow> 'a result \<times> 'db world"

definition ret :: "'a \<Rightarrow> ('db, 'a) io" where
  "ret x w = (Inr x, w)"

definition raise :: "exc \<Rightarrow> ('db, 'a) io" where
  "raise e w = (Inl e, w)"

definition lift :: "'a result \<Rightarrow> ('db, 'a) io" where
  "lift r w = (r, w)"

definition bind :: "('db, 'a) io \<Rightarrow> ('a \<Rightarrow> ('db, 'b) io) \<Rightarrow> ('db, 'b) io" where
  "bind m f w = (case m w of (Inl e, w') \<Rightarrow> (Inl e, w') | (Inr x, w') \<Rightarrow> f x w')"

text \<open>\<open>try: m except Exception as e: h e\<close>\<close>

definition catch :: "('db, 'a) io \<Rightarrow> (exc \<Rightarrow> ('db, 'a) io) \<Rightarrow> ('db, 'a) io" where
  "catch m h w = (case m w of (Inl e, w') \<Rightarrow> h e w' | (Inr x, w') \<Rightarrow> (Inr x, w'))"

definition get_now :: "('db, int) io" where
  "get_now w = (Inr (w_now w), w)"

definition sleep :: "int \<Rightarrow> ('db, unit) io" where
  "sleep us w = (Inr (), w\<lparr>w_now := w_now w + us\<rparr>)"

lemmas io_defs = ret_def raise_def lift_def bind_def catch_def get_now_def sleep_def

lemma bind_ret [simp]: "bind (ret x) f = f x"
  by (simp add: fun_eq_iff io_defs)

lemma bind_lift_Inr [simp]: "bind (lift (Inr x)) f = f x"
  by (simp add: fun_eq_iff io_defs)

lemma bind_raise [simp]: "bind (raise e) f = raise e"
  by (simp add: fun_eq_iff io_defs)

lemma bind_Inr_iff:
  "bind m f w = (Inr y, w') \<longleftrightarrow> (\<exists>x w1. m w = (Inr x, w1) \<and> f x w1 = (Inr y, w'))"
  by (auto simp: bind_def split: prod.splits sum.splits)

lemma bind_Inl_iff:
  "bind m f w = (Inl e, w') \<longleftrightarrow> m w = (Inl e, w') \<or> (\<exists>x w1. m w = (Inr x, w1) \<and> f x w1 = (Inl e, w'))"
  by (auto simp: bind_def split: prod.splits sum.splits)

text \<open>One step of a run.\<close>

lemma run_ret: "ret x w = (Inr x, w)" "raise e w = (Inl e, w)" "lift r w = (r, w)" "get_now w = (Inr (w_now w), w)"
  by (simp_all add: io_defs)

lemma bind_run: "m w = (Inr x, w1) \<Longrightarrow> bind m f w = f x w1"
  and bind_stop: "m w = (Inl e, w1) \<Longrightarrow> bind m f w = (Inl e, w1)"
  by (simp_all add: bind_def)

lemma bind_get_now [simp]: "bind get_now f w = f (w_now w) w"
  by (simp add: bind_def get_now_def)

lemma catch_iff:
  "catch m h w = (r, w') \<longleftrightarrow>
     (\<exists>x. m w = (Inr x, w') \<and> r = Inr x) \<or> (\<exists>e w1. m w = (Inl e, w1) \<and> h e w1 = (r, w'))"
  by (auto simp: catch_def split: prod.splits sum.splits)

lemma catch_Inr: "m w = (Inr x, w') \<Longrightarrow> catch m h w = (Inr x, w')"
  by (simp add: catch_def)

lemma catch_Inl: "m w = (Inl e, w') \<Longrightarrow> catch m h w = h e w'"
  by (simp add: catch_def)

section \<open>HTTP\<close>

definition user_agent :: string where
  "user_agent = ''security-live-feed-mvp/0.1 (+contact: security-team@example.com)''"

text \<open>The headers of the client, updated with those of the call.\<close>

definition client_headers :: "(string, string) dict \<Rightarrow> (string, string) dict" where
  "client_headers hs = fold (\<lambda>(k, v). dict_set k v) hs [(''User-Agent'', user_agent)]"

definition http_timeout :: rat where "http_timeout = 8"

text \<open>\<open>client(timeout=..., headers=..., follow_redirects=...)\<close>, each argument optional.\<close>

record http_client =
  ac_timeout :: rat
  ac_headers :: "(string, string) dict"
  ac_follow :: bool

definition client :: "rat option \<Rightarrow> (string, string) dict \<Rightarrow> bool option \<Rightarrow> http_client" where
  "client timeout headers follow =
     \<lparr>ac_timeout = (case timeout of None \<Rightarrow> http_timeout | Some t \<Rightarrow> t), ac_headers = client_headers headers,
      ac_follow = (case follow of None \<Rightarrow> True | Some b \<Rightarrow> b)\<rparr>"

abbreviation plain_client :: http_client where
  "plain_client \<equiv> client None [] None"

text \<open>A request has the headers of the client, updated with its own.\<close>

definition request ::
    "http_client \<Rightarrow> string \<Rightarrow> string \<Rightarrow> (string, string) dict \<Rightarrow> (string \<times> string) list \<Rightarrow> body \<Rightarrow> http_request" where
  "request c meth u hs ps bd =
     \<lparr>rq_method = meth, rq_url = u, rq_headers = fold (\<lambda>(k, v). dict_set k v) hs (ac_headers c), rq_params = ps,
      rq_body = bd, rq_timeout = ac_timeout c, rq_follow = ac_follow c\<rparr>"

lemma request_sel [simp]:
  "rq_method (request c meth u hs ps bd) = meth" "rq_url (request c meth u hs ps bd) = u"
  "rq_params (request c meth u hs ps bd) = ps" "rq_body (request c meth u hs ps bd) = bd"
  by (simp_all add: request_def)

definition http_send ::
    "http_client \<Rightarrow> env \<Rightarrow> string \<Rightarrow> string \<Rightarrow> (string, string) dict \<Rightarrow> (string \<times> string) list \<Rightarrow> body \<Rightarrow> ('db, http_response) io" where
  "http_send c E meth u hs ps bd w =
     (let rq = request c meth u hs ps bd
      in (net E (length (w_sent w)) rq, w\<lparr>w_sent := w_sent w @ [rq]\<rparr>))"

abbreviation http_get :: "env \<Rightarrow> string \<Rightarrow> (string, string) dict \<Rightarrow> (string \<times> string) list \<Rightarrow> ('db, http_response) io" where
  "http_get E u hs ps \<equiv> http_send plain_client E ''GET'' u hs ps NoBody"

definition raise_for_status :: "http_response \<Rightarrow> unit result" where
  "raise_for_status r =
     (if 200 \<le> rs_status r \<and> rs_status r < 300 then Inr ()
      else Inl (Exc ''HTTPStatusError'' (HttpStatus (rs_status r)) (rs_error r) None None))"

section \<open>The store\<close>

definition db_read :: "('db \<Rightarrow> 'a result) \<Rightarrow> ('db, 'a) io" where
  "db_read f w = (f (w_db w), w)"

text \<open>A write changes the database or raises; \<open>db_update\<close> also has a result.\<close>

definition db_update :: "('db \<Rightarrow> ('a \<times> 'db) result) \<Rightarrow> ('db, 'a) io" where
  "db_update f w = (case f (w_db w) of Inl e \<Rightarrow> (Inl e, w) | Inr (x, d) \<Rightarrow> (Inr x, w\<lparr>w_db := d\<rparr>))"

definition db_write :: "('db \<Rightarrow> 'db result) \<Rightarrow> ('db, unit) io" where
  "db_write f w = (case f (w_db w) of Inl e \<Rightarrow> (Inl e, w) | Inr d \<Rightarrow> (Inr (), w\<lparr>w_db := d\<rparr>))"

section \<open>Loops\<close>

fun io_map :: "('a \<Rightarrow> ('db, 'b) io) \<Rightarrow> 'a list \<Rightarrow> ('db, 'b list) io" where
  "io_map f [] = ret []"
| "io_map f (x # xs) = bind (f x) (\<lambda>y. bind (io_map f xs) (\<lambda>ys. ret (y # ys)))"

lemma io_map_run:
  "f x w = (Inr y, w1) \<Longrightarrow> io_map f xs w1 = (Inr ys, w2) \<Longrightarrow> io_map f (x # xs) w = (Inr (y # ys), w2)"
  by (simp add: bind_run ret_def)

text \<open>\<open>asyncio.gather(..., return_exceptions=True)\<close>, run in the order of the list.\<close>

definition attempt :: "('db, 'a) io \<Rightarrow> ('db, 'a result) io" where
  "attempt m w = (case m w of (r, w') \<Rightarrow> (Inr r, w'))"

section \<open>Computations that do not raise\<close>

definition no_throw :: "('db, 'a) io \<Rightarrow> bool" where
  "no_throw m \<longleftrightarrow> (\<forall>w. \<exists>x w'. m w = (Inr x, w'))"

named_theorems io_intros \<open>rules for judgements about computations\<close>

lemma no_throw_ret [simp, io_intros]: "no_throw (ret x)" "no_throw get_now" "no_throw (sleep us)" "no_throw (attempt m)"
  by (simp_all add: no_throw_def io_defs attempt_def split: prod.split)

lemma no_throw_bind [io_intros]: "no_throw m \<Longrightarrow> (\<And>x. no_throw (f x)) \<Longrightarrow> no_throw (bind m f)"
  unfolding no_throw_def
proof (intro allI)
  fix w assume m: "\<forall>w. \<exists>x w'. m w = (Inr x, w')" and f: "\<And>x. \<forall>w. \<exists>y w'. f x w = (Inr y, w')"
  from m obtain x w1 where "m w = (Inr x, w1)" by blast
  with f show "\<exists>y w'. bind m f w = (Inr y, w')" by (simp add: bind_def)
qed

lemma no_throw_catch [io_intros]: "(\<And>e. no_throw (h e)) \<Longrightarrow> no_throw (catch m h)"
  unfolding no_throw_def catch_def by (auto split: prod.splits sum.splits)

lemma no_throw_io_map [io_intros]: "(\<And>x. no_throw (f x)) \<Longrightarrow> no_throw (io_map f xs)"
  by (induction xs) (auto intro: io_intros)

lemma no_throwE:
  assumes "no_throw m"
  obtains x w' where "m w = (Inr x, w')"
  using assms unfolding no_throw_def by metis

section \<open>What a computation sends\<close>

text \<open>It adds only requests with property \<open>P\<close> to the log, and time does not run backwards.\<close>

definition later :: "(http_request \<Rightarrow> bool) \<Rightarrow> 'db world \<Rightarrow> 'db world \<Rightarrow> bool" where
  "later P w w' \<longleftrightarrow> w_now w \<le> w_now w' \<and> (\<exists>rs. w_sent w' = w_sent w @ rs \<and> list_all P rs)"

definition sends :: "(http_request \<Rightarrow> bool) \<Rightarrow> ('db, 'a) io \<Rightarrow> bool" where
  "sends P m \<longleftrightarrow> (\<forall>w. later P w (snd (m w)))"

lemma later_refl [simp]: "later P w w"
  by (simp add: later_def)

lemma later_same: "w_sent w' = w_sent w \<Longrightarrow> w_now w \<le> w_now w' \<Longrightarrow> later P w w'"
  by (simp add: later_def)

lemma later_trans: "later P w w1 \<Longrightarrow> later P w1 w2 \<Longrightarrow> later P w w2"
  unfolding later_def by (force intro: exI [of _ "_ @ _"])

lemma sends_ret [simp, io_intros]:
  "sends P (ret x)" "sends P (raise e)" "sends P (lift r)" "sends P get_now"
  "sends P (db_read f)" "sends P (db_write g)" "sends P (db_update h)"
  by (auto simp: sends_def io_defs db_read_def db_write_def db_update_def intro: later_same split: sum.split)

lemma sends_sleep [io_intros]: "0 \<le> us \<Longrightarrow> sends P (sleep us)"
  by (auto simp: sends_def io_defs intro: later_same)

lemma sends_bind [io_intros]:
  assumes "sends P m" "\<And>x. sends P (f x)"
  shows "sends P (bind m f)"
  unfolding sends_def
proof
  fix w
  obtain r1 w1 where m: "m w = (r1, w1)" by (cases "m w")
  with assms(1) have l: "later P w w1" by (metis sends_def snd_conv)
  show "later P w (snd (bind m f w))"
    using l m assms(2) later_trans [OF l] by (cases r1) (auto simp: bind_def sends_def)
qed

lemma sends_catch [io_intros]:
  assumes "sends P m" "\<And>e. sends P (h e)"
  shows "sends P (catch m h)"
  unfolding sends_def
proof
  fix w
  obtain r1 w1 where m: "m w = (r1, w1)" by (cases "m w")
  with assms(1) have l: "later P w w1" by (metis sends_def snd_conv)
  show "later P w (snd (catch m h w))"
    using l m assms(2) later_trans [OF l] by (cases r1) (auto simp: catch_def sends_def)
qed

lemma sends_attempt [io_intros]: "sends P m \<Longrightarrow> sends P (attempt m)"
  by (simp add: sends_def attempt_def case_prod_unfold)

lemma sends_io_map [io_intros]: "(\<And>x. sends P (f x)) \<Longrightarrow> sends P (io_map f xs)"
  by (induction xs) (auto intro: io_intros)

lemma sends_mono: "sends P m \<Longrightarrow> (\<And>rq. P rq \<Longrightarrow> Q rq) \<Longrightarrow> sends Q m"
  unfolding sends_def later_def list_all_iff by blast

lemma sends_if [io_intros]: "(c \<Longrightarrow> sends P m) \<Longrightarrow> (\<not> c \<Longrightarrow> sends P m') \<Longrightarrow> sends P (if c then m else m')"
  and no_throw_if [io_intros]: "(c \<Longrightarrow> no_throw m) \<Longrightarrow> (\<not> c \<Longrightarrow> no_throw m') \<Longrightarrow> no_throw (if c then m else m')"
  by simp_all

lemma sends_option [io_intros]:
  "(x = None \<Longrightarrow> sends P m) \<Longrightarrow> (\<And>y. x = Some y \<Longrightarrow> sends P (f y)) \<Longrightarrow> sends P (case x of None \<Rightarrow> m | Some y \<Rightarrow> f y)"
  and no_throw_option [io_intros]:
  "(x = None \<Longrightarrow> no_throw m') \<Longrightarrow> (\<And>y. x = Some y \<Longrightarrow> no_throw (g y)) \<Longrightarrow> no_throw (case x of None \<Rightarrow> m' | Some y \<Rightarrow> g y)"
  by (auto split: option.split)

section \<open>Invariants of the database\<close>

text \<open>
  A computation that ends while the clock is still a Python time keeps \<open>I\<close> of the database.
  The clock of the start is then a Python time too, as time does not run backwards.
\<close>

definition keeps :: "('db \<Rightarrow> bool) \<Rightarrow> ('db, 'a) io \<Rightarrow> bool" where
  "keeps I m \<longleftrightarrow> (\<forall>w. I (w_db w) \<and> 0 \<le> w_now w \<and> dt_range (w_now (snd (m w))) \<longrightarrow>
     I (w_db (snd (m w))))"

definition timely :: "('db, 'a) io \<Rightarrow> bool" where
  "timely m \<longleftrightarrow> (\<forall>w. w_now w \<le> w_now (snd (m w)))"

lemma sends_timely: "sends P m \<Longrightarrow> timely m"
  by (simp add: sends_def later_def timely_def)

lemma dt_range_before: "dt_range b \<Longrightarrow> 0 \<le> a \<Longrightarrow> a \<le> b \<Longrightarrow> dt_range a"
  by (simp add: dt_range_def)

lemma keepsD:
  assumes "keeps I m" "m w = (r, w')" "I (w_db w)" "0 \<le> w_now w" "dt_range (w_now w')"
  shows "I (w_db w')"
  using assms unfolding keeps_def by (metis snd_conv)

lemma keeps_db:
  "(\<And>w. w_db (snd (m w)) = w_db w) \<Longrightarrow> keeps I m"
  by (simp add: keeps_def)

lemma keeps_basic [simp, io_intros]:
  "keeps I (ret x)" "keeps I (raise e)" "keeps I (lift r)" "keeps I get_now" "keeps I (db_read f)"
  "keeps I (http_send c E meth u hs ps bd)"
  by (rule keeps_db; simp add: io_defs db_read_def http_send_def Let_def)+

lemma keeps_sleep [io_intros]: "keeps I (sleep us)"
  by (rule keeps_db) (simp add: io_defs)

lemma keeps_bind [io_intros]:
  assumes "keeps I m" "\<And>x. keeps I (f x)" "timely m" "\<And>x. timely (f x)"
  shows "keeps I (bind m f)"
  unfolding keeps_def
proof (intro allI impI)
  fix w
  assume w: "I (w_db w) \<and> 0 \<le> w_now w \<and> dt_range (w_now (snd (bind m f w)))"
  obtain r w1 where m: "m w = (r, w1)" by (cases "m w")
  have l: "w_now w \<le> w_now w1" using assms(3) m by (metis timely_def snd_conv)
  show "I (w_db (snd (bind m f w)))"
  proof (cases r)
    case (Inl e)
    with m w keepsD [OF assms(1) m] show ?thesis by (simp add: bind_def)
  next
    case (Inr x)
    then have b: "bind m f w = f x w1" using m by (simp add: bind_def)
    have l2: "w_now w1 \<le> w_now (snd (f x w1))" using assms(4) by (simp add: timely_def)
    with w b l have "dt_range (w_now w1)" using dt_range_before [of "w_now (snd (f x w1))" "w_now w1"] by auto
    with w keepsD [OF assms(1) m] have "I (w_db w1)" by blast
    moreover have "0 \<le> w_now w1" using w l by linarith
    ultimately show ?thesis using w b assms(2) [of x] by (simp add: keeps_def)
  qed
qed

lemma keeps_catch [io_intros]:
  assumes "keeps I m" "\<And>e. keeps I (h e)" "timely m" "\<And>e. timely (h e)"
  shows "keeps I (catch m h)"
  unfolding keeps_def
proof (intro allI impI)
  fix w
  assume w: "I (w_db w) \<and> 0 \<le> w_now w \<and> dt_range (w_now (snd (catch m h w)))"
  obtain r w1 where m: "m w = (r, w1)" by (cases "m w")
  have l: "w_now w \<le> w_now w1" using assms(3) m by (metis timely_def snd_conv)
  show "I (w_db (snd (catch m h w)))"
  proof (cases r)
    case (Inr x)
    with m w keepsD [OF assms(1) m] show ?thesis by (simp add: catch_def)
  next
    case (Inl e)
    then have b: "catch m h w = h e w1" using m by (simp add: catch_def)
    have l2: "w_now w1 \<le> w_now (snd (h e w1))" using assms(4) by (simp add: timely_def)
    with w b l have "dt_range (w_now w1)" using dt_range_before [of "w_now (snd (h e w1))" "w_now w1"] by auto
    with w keepsD [OF assms(1) m] have "I (w_db w1)" by blast
    moreover have "0 \<le> w_now w1" using w l by linarith
    ultimately show ?thesis using w b assms(2) [of e] by (simp add: keeps_def)
  qed
qed

lemma keeps_attempt [io_intros]: "keeps I m \<Longrightarrow> keeps I (attempt m)"
  by (simp add: keeps_def attempt_def case_prod_unfold)

lemma keeps_if [io_intros]: "(c \<Longrightarrow> keeps I m) \<Longrightarrow> (\<not> c \<Longrightarrow> keeps I m') \<Longrightarrow> keeps I (if c then m else m')"
  and timely_if [io_intros]: "(c \<Longrightarrow> timely m) \<Longrightarrow> (\<not> c \<Longrightarrow> timely m') \<Longrightarrow> timely (if c then m else m')"
  by simp_all

lemma keeps_option [io_intros]:
  "(x = None \<Longrightarrow> keeps I m) \<Longrightarrow> (\<And>y. x = Some y \<Longrightarrow> keeps I (f y)) \<Longrightarrow> keeps I (case x of None \<Rightarrow> m | Some y \<Rightarrow> f y)"
  and timely_option [io_intros]:
  "(x = None \<Longrightarrow> timely m') \<Longrightarrow> (\<And>y. x = Some y \<Longrightarrow> timely (g y)) \<Longrightarrow> timely (case x of None \<Rightarrow> m' | Some y \<Rightarrow> g y)"
  by (auto split: option.split)

lemma timely_basic [simp, io_intros]:
  "timely (ret x)" "timely (raise e)" "timely (lift r)" "timely get_now" "timely (db_read f)"
  "timely (db_write g)" "timely (db_update g')" "timely (http_send c E meth u hs ps bd)"
  by (auto simp: timely_def io_defs db_read_def db_write_def db_update_def http_send_def Let_def split: sum.split)

lemma timely_sleep [io_intros]: "0 \<le> us \<Longrightarrow> timely (sleep us)"
  by (simp add: timely_def sleep_def)

lemma timely_bind [io_intros]:
  assumes "timely m" "\<And>x. timely (f x)"
  shows "timely (bind m f)"
  unfolding timely_def
proof
  fix w
  obtain r w1 where m: "m w = (r, w1)" by (cases "m w")
  with assms(1) have "w_now w \<le> w_now w1" by (metis timely_def snd_conv)
  then show "w_now w \<le> w_now (snd (bind m f w))"
    using m assms(2) by (cases r) (auto simp: bind_def timely_def intro: order_trans)
qed

lemma timely_catch [io_intros]:
  assumes "timely m" "\<And>e. timely (h e)"
  shows "timely (catch m h)"
  unfolding timely_def
proof
  fix w
  obtain r w1 where m: "m w = (r, w1)" by (cases "m w")
  with assms(1) have "w_now w \<le> w_now w1" by (metis timely_def snd_conv)
  then show "w_now w \<le> w_now (snd (catch m h w))"
    using m assms(2) by (cases r) (auto simp: catch_def timely_def intro: order_trans)
qed

lemma timely_attempt [io_intros]: "timely m \<Longrightarrow> timely (attempt m)"
  by (simp add: timely_def attempt_def case_prod_unfold)

lemma timely_io_map [io_intros]: "(\<And>x. timely (f x)) \<Longrightarrow> timely (io_map f xs)"
  by (induction xs) (auto intro: io_intros)

lemma keeps_io_map [io_intros]: "(\<And>x. keeps I (f x)) \<Longrightarrow> (\<And>x. timely (f x)) \<Longrightarrow> keeps I (io_map f xs)"
  by (induction xs) (auto intro!: io_intros)

section \<open>Computations that leave the database and the clock alone\<close>

definition leaves :: "('db, 'a) io \<Rightarrow> bool" where
  "leaves m \<longleftrightarrow> (\<forall>w. w_db (snd (m w)) = w_db w \<and> w_now (snd (m w)) = w_now w)"

lemma leaves_basic [simp, io_intros]:
  "leaves (ret x)" "leaves (raise e)" "leaves (lift r)" "leaves get_now" "leaves (db_read f)"
  "leaves (http_send c E meth u hs ps bd)"
  by (simp_all add: leaves_def io_defs db_read_def http_send_def Let_def)

lemma leavesD: "leaves m \<Longrightarrow> m w = (r, w') \<Longrightarrow> w_db w' = w_db w \<and> w_now w' = w_now w"
  unfolding leaves_def by (metis snd_conv)

lemma leaves_bind [io_intros]:
  assumes "leaves m" "\<And>x. leaves (f x)"
  shows "leaves (bind m f)"
  unfolding leaves_def
proof
  fix w
  obtain r w1 where m: "m w = (r, w1)" by (cases "m w")
  with leavesD [OF assms(1) m] assms(2) show "w_db (snd (bind m f w)) = w_db w \<and> w_now (snd (bind m f w)) = w_now w"
    by (cases r) (auto simp: bind_def leaves_def)
qed

lemma leaves_catch [io_intros]:
  assumes "leaves m" "\<And>e. leaves (h e)"
  shows "leaves (catch m h)"
  unfolding leaves_def
proof
  fix w
  obtain r w1 where m: "m w = (r, w1)" by (cases "m w")
  with leavesD [OF assms(1) m] assms(2) show "w_db (snd (catch m h w)) = w_db w \<and> w_now (snd (catch m h w)) = w_now w"
    by (cases r) (auto simp: catch_def leaves_def)
qed

lemma leaves_attempt [io_intros]: "leaves m \<Longrightarrow> leaves (attempt m)"
  by (simp add: leaves_def attempt_def case_prod_unfold)

lemma leaves_io_map [io_intros]: "(\<And>x. leaves (f x)) \<Longrightarrow> leaves (io_map f xs)"
  by (induction xs) (auto intro: io_intros)

lemma leaves_if [io_intros]: "(c \<Longrightarrow> leaves m) \<Longrightarrow> (\<not> c \<Longrightarrow> leaves m') \<Longrightarrow> leaves (if c then m else m')"
  and leaves_option [io_intros]:
  "(x = None \<Longrightarrow> leaves m) \<Longrightarrow> (\<And>y. x = Some y \<Longrightarrow> leaves (f y)) \<Longrightarrow> leaves (case x of None \<Rightarrow> m | Some y \<Rightarrow> f y)"
  by (auto split: option.split)

section \<open>The outbound policy\<close>

text \<open>Every request carries the shared user agent, waits at most the shared timeout and follows redirects,
  unless its caller overrides that; none does.\<close>

definition polite :: "http_request \<Rightarrow> bool" where
  "polite rq \<longleftrightarrow> map_of (rq_headers rq) ''User-Agent'' = Some user_agent \<and>
     0 < rq_timeout rq \<and> rq_timeout rq \<le> http_timeout \<and> rq_follow rq"

lemma map_of_fold_set: "k \<notin> fst ` set hs \<Longrightarrow> map_of (fold (\<lambda>(k, v). dict_set k v) hs d) k = map_of d k"
  by (induction hs arbitrary: d) auto

lemma polite_request:
  assumes "''User-Agent'' \<notin> fst ` set hs" "0 < t" "t \<le> http_timeout"
  shows "polite (request (client (Some t) [] None) meth u hs ps bd)" "polite (request plain_client meth u hs ps bd)"
  using assms by (simp_all add: polite_def request_def client_def client_headers_def map_of_fold_set http_timeout_def)

lemma sends_request: "polite (request c meth u hs ps bd) \<Longrightarrow> sends polite (http_send c E meth u hs ps bd)"
  by (auto simp: sends_def later_def http_send_def Let_def)

lemma sends_http [io_intros]:
  assumes "''User-Agent'' \<notin> fst ` set hs"
  shows "sends polite (http_send plain_client E meth u hs ps bd)"
  by (rule sends_request) (rule polite_request(2) [OF assms, of http_timeout]; simp add: http_timeout_def)

end
