(* ===== verification/Parsers.thy ===== *)
theory Parsers
  imports World
begin

text \<open>
  The parsers of \<open>app/fetcher.py\<close>: what each kind of source (RSS, NVD, Red Hat, GitHub
  advisories) makes of a response, as a list of items or an exception. A field of a record that
  the code stores without looking at its type is a text here (\<open>as_str\<close>). The lemmas show
  that every parser yields items the store accepts, of its source, with consistent severity,
  tags and urgency.
\<close>

section \<open>Shared pieces\<close>

text \<open>\<open>str(v)\<close>; \<open>continue\<close> in a loop is \<open>None\<close>.\<close>

definition py_str :: "env \<Rightarrow> json \<Rightarrow> string" where
  "py_str E v = (case v of JStr s \<Rightarrow> s | _ \<Rightarrow> py_repr E v)"

definition somes :: "'a option list \<Rightarrow> 'a list" where
  "somes xs = concat (map (\<lambda>x. case x of None \<Rightarrow> [] | Some y \<Rightarrow> [y]) xs)"

definition parse_all :: "(json \<Rightarrow> feed_item option result) \<Rightarrow> json list \<Rightarrow> feed_item list result" where
  "parse_all f rows = res_bind (res_map f rows) (\<lambda>xs. Inr (somes xs))"

text \<open>\<open>int(v)\<close>\<close>

fun py_to_int :: "json \<Rightarrow> int result" where
  "py_to_int (JInt i) = Inr i"
| "py_to_int (JBool b) = Inr (if b then 1 else 0)"
| "py_to_int (JFloat x) = Inr (if x < 0 then - \<lfloor>- x\<rfloor> else \<lfloor>x\<rfloor>)"
| "py_to_int (JStr s) = (case py_int s of None \<Rightarrow> raise_value ''invalid literal for int()'' | Some i \<Rightarrow> Inr i)"
| "py_to_int v = raise_type ''int() argument must be a string, a bytes-like object or a real number''"

text \<open>\<open>datetime.fromisoformat(raw.replace("Z", "+00:00")) if raw else None\<close>, any exception
  giving \<open>None\<close>.\<close>

definition iso_or_none :: "json \<Rightarrow> pydt option" where
  "iso_or_none raw =
     (case raw of JStr s \<Rightarrow> if s = [] then None else fromisoformat (replace_all ''Z'' ''+00:00'' s) | _ \<Rightarrow> None)"

text \<open>
  \<open>items.sort(key=lambda item: item.published or datetime.min.replace(tzinfo=utc),
  reverse=True)\<close>: a sort that meets both a naive and an aware time compares some pair of
  them, which raises.
\<close>

definition published_or_min :: "feed_item \<Rightarrow> pydt" where
  "published_or_min item = (case published item of None \<Rightarrow> dt_min | Some p \<Rightarrow> p)"

definition sort_published :: "feed_item list \<Rightarrow> feed_item list result" where
  "sort_published items =
     (if list_all (dt_aware \<circ> published_or_min) items \<or> list_all (Not \<circ> dt_aware \<circ> published_or_min) items
      then Inr (sort_desc (instant \<circ> published_or_min) items)
      else raise_type ''cannot compare offset-naive and offset-aware datetimes'')"

text \<open>\<open>severity in ("critical", "high")\<close>\<close>

definition severe :: "string \<Rightarrow> bool" where
  "severe sev \<longleftrightarrow> sev \<in> set [''critical'', ''high'']"

section \<open>RSS\<close>

definition first_text :: "env \<Rightarrow> json \<Rightarrow> string \<Rightarrow> string result" where
  "first_text E entry key = res_bind (py_get_def entry key (JStr [])) (\<lambda>v. Inr
     (case v of
        JStr s \<Rightarrow> strip s
      | JList [] \<Rightarrow> []
      | JList (x # _) \<Rightarrow> strip (py_str E x)
      | _ \<Rightarrow> if truthy v then strip (py_str E v) else []))"

text \<open>\<open>datetime(*parsed[:6], tzinfo=utc)\<close>, or \<open>None\<close> when it raises.\<close>

definition as_int :: "json \<Rightarrow> int option" where
  "as_int v = (case v of JInt i \<Rightarrow> Some i | JBool b \<Rightarrow> Some (if b then 1 else 0) | _ \<Rightarrow> None)"

definition datetime_utc :: "int list \<Rightarrow> pydt option" where
  "datetime_utc xs =
     (case xs @ replicate (6 - length xs) 0 of
        [y, mo, d, h, mi, s] \<Rightarrow>
          if 3 \<le> length xs \<and> valid_ymd y mo d \<and> 0 \<le> h \<and> h \<le> 23 \<and> 0 \<le> mi \<and> mi \<le> 59 \<and> 0 \<le> s \<and> s \<le> 59
          then Some (utc (ymd2days y mo d * us_day + h * us_hour + mi * us_min + s * us_sec)) else None
      | _ \<Rightarrow> None)"

definition struct_time :: "json \<Rightarrow> pydt option" where
  "struct_time v =
     (case v of
        JList xs \<Rightarrow>
          (let ys = map as_int (take 6 xs) in
           if None \<in> set ys then None else datetime_utc (somes ys))
      | _ \<Rightarrow> None)"

fun first_some :: "('a \<Rightarrow> 'b option) \<Rightarrow> 'a list \<Rightarrow> 'b option" where
  "first_some f [] = None"
| "first_some f (x # xs) = (case f x of None \<Rightarrow> first_some f xs | Some y \<Rightarrow> Some y)"

definition published_from_entry :: "env \<Rightarrow> json \<Rightarrow> pydt option result" where
  "published_from_entry E entry =
     (case entry of
        JObj kvs \<Rightarrow> Inr
          (case first_some (\<lambda>k. case map_of kvs k of None \<Rightarrow> None | Some v \<Rightarrow> struct_time v)
                  [''published_parsed'', ''updated_parsed'', ''created_parsed''] of
             Some p \<Rightarrow> Some p
           | None \<Rightarrow> first_some (\<lambda>k. case map_of kvs k of
               Some (JStr raw) \<Rightarrow> if strip raw = [] then None else map_option ensure_aware (parse_date E raw)
             | _ \<Rightarrow> None) [''published'', ''updated''])
      | _ \<Rightarrow> no_attr entry ''get'')"

definition rss_item :: "env \<Rightarrow> source \<Rightarrow> json \<Rightarrow> feed_item option result" where
  "rss_item E src entry =
     res_bind (first_text E entry ''title'') (\<lambda>ti.
     res_bind (first_text E entry ''summary'') (\<lambda>su1.
     res_bind (if su1 \<noteq> [] then Inr su1 else first_text E entry ''description'') (\<lambda>raw_summary.
     let su = truncate_text (strip_html raw_summary) in
     res_bind (res_bind (py_get_def entry ''link'' (JStr [])) as_str) (\<lambda>link.
     if ti = [] then Inr None else
     let text = ti @ '' '' @ su in
     if \<not> is_relevant src text then Inr None else
     let cs = extract_cves text;
         ts = infer_tags text (src_tags src) cs;
         score = (if src_id src = ''cisa'' then extract_cvss_score raw_summary else None);
         sev = infer_severity text score;
         urg = (severe sev \<and> (''exploit'' |\<in>| ts \<or> contains ''exploit'' (lower text)));
         pa = patch_status_from_text src text in
     res_bind (published_from_entry E entry) (\<lambda>pub.
     Inr (Some ((new_item (hash_item (sha1 E) link ti) ti su link (src_name src) (src_url src) pub)
       \<lparr>tags := ts, cves := cs, severity := sev, urgent := urg, patch_status := pa\<rparr>)))))))"

definition rss_items :: "env \<Rightarrow> source \<Rightarrow> json list \<Rightarrow> feed_item list result" where
  "rss_items E src entries = parse_all (rss_item E src) (take (max_items src) entries)"

section \<open>NVD\<close>

definition metric_scores :: "json \<Rightarrow> string \<Rightarrow> rat list result" where
  "metric_scores metrics key =
     res_bind (py_get_def metrics key (JList [])) (\<lambda>v.
     res_bind (py_iter (py_or v (JList []))) (\<lambda>ms.
     res_bind (res_map (\<lambda>m. res_bind (py_get_def m ''cvssData'' (JObj [])) (\<lambda>d.
         res_bind (py_get d ''baseScore'') (\<lambda>b. Inr (as_number b)))) ms) (\<lambda>bs.
     Inr (somes bs))))"

definition nvd_cvss_score :: "json \<Rightarrow> rat option result" where
  "nvd_cvss_score vuln =
     res_bind (py_get_def vuln ''metrics'' (JObj [])) (\<lambda>metrics.
     res_bind (res_map (metric_scores metrics)
         [''cvssMetricV40'', ''cvssMetricV31'', ''cvssMetricV30'', ''cvssMetricV2'']) (\<lambda>sss.
     Inr (case concat sss of [] \<Rightarrow> None | s # ss \<Rightarrow> Some (fold max ss s))))"

fun english_value :: "json list \<Rightarrow> string result" where
  "english_value [] = Inr []"
| "english_value (d # ds) = res_bind (py_get d ''lang'') (\<lambda>l.
     if l = JStr ''en'' then res_bind (py_get_def d ''value'' (JStr [])) as_str else english_value ds)"

definition nvd_english_description :: "json \<Rightarrow> string result" where
  "nvd_english_description cve =
     res_bind (py_get_def cve ''descriptions'' (JList [])) (\<lambda>v.
     res_bind (py_iter (py_or v (JList []))) english_value)"

text \<open>\<open>v[0]\<close> of a truthy value\<close>

fun py_first :: "json \<Rightarrow> json result" where
  "py_first (JList (x # _)) = Inr x"
| "py_first (JStr (c # _)) = Inr (JStr [c])"
| "py_first (JObj _) = raise_key ''0''"
| "py_first v = raise_type (CHR 0x27 # type_name v @ [CHR 0x27] @ '' object is not subscriptable'')"

definition nvd_reference_url :: "env \<Rightarrow> json \<Rightarrow> string result" where
  "nvd_reference_url E cve =
     res_bind (py_get_def cve ''references'' (JList [])) (\<lambda>v.
     if truthy v
     then res_bind (py_first v) (\<lambda>r. res_bind (py_get_def r ''url'' (JStr [])) as_str)
     else res_bind (py_get cve ''id'') (\<lambda>i. Inr (''https://nvd.nist.gov/vuln/detail/'' @ py_str E i)))"

text \<open>\<open>strftime("%Y-%m-%dT%H:%M:%S" + suffix)\<close>\<close>

definition nvd_stamp :: "int \<Rightarrow> string \<Rightarrow> string" where
  "nvd_stamp t sfx = iso_date (t div us_day) @ ''T'' @ iso_hms (t mod us_day div us_sec) @ sfx"

definition nvd_params :: "int \<Rightarrow> string \<Rightarrow> int \<Rightarrow> int \<Rightarrow> int option \<Rightarrow> (string, string) dict" where
  "nvd_params now query results_per_page days start_index =
     (let ps = dict_of (parse_qsl query);
          ps = dict_set ''pubStartDate'' (nvd_stamp (now - max 1 days * us_day) ''.000'') ps;
          ps = dict_set ''pubEndDate'' (nvd_stamp now ''.999'') ps;
          ps = dict_set ''resultsPerPage'' (int_str (max 1 results_per_page)) ps
      in case start_index of None \<Rightarrow> ps | Some i \<Rightarrow> dict_set ''startIndex'' (int_str (max 0 i)) ps)"

definition nvd_window_url :: "int \<Rightarrow> string \<Rightarrow> int \<Rightarrow> int \<Rightarrow> int option \<Rightarrow> string result" where
  "nvd_window_url now surl results_per_page days start_index =
     (case urlsplit surl of
        None \<Rightarrow> raise_value ''Invalid IPv6 URL''
      | Some u \<Rightarrow> Inr (with_query u (urlencode (nvd_params now (u_query u) results_per_page days start_index))))"

definition nvd_item :: "env \<Rightarrow> source \<Rightarrow> json \<Rightarrow> feed_item option result" where
  "nvd_item E src wrapper =
     res_bind (py_get_def wrapper ''cve'' (JObj [])) (\<lambda>cve.
     res_bind (py_get_def cve ''id'' (JStr [])) (\<lambda>i.
     if \<not> truthy i then Inr None else
     res_bind (as_str i) (\<lambda>cve_id.
     res_bind (nvd_english_description cve) (\<lambda>description.
     let text = cve_id @ '' '' @ description in
     res_bind (nvd_cvss_score cve) (\<lambda>cvss.
     let ts = infer_tags text (src_tags src) [cve_id];
         sev = infer_severity text cvss in
     res_bind (py_get cve ''published'') (\<lambda>raw.
     res_bind (nvd_reference_url E cve) (\<lambda>link.
     Inr (Some ((new_item (hash_item (sha1 E) cve_id cve_id) cve_id description link
         (src_name src) (src_url src) (iso_or_none raw))
       \<lparr>tags := ts, cves := [cve_id], severity := sev, urgent := severe sev \<and> ''exploit'' |\<in>| ts\<rparr>)))))))))"

definition nvd_items :: "env \<Rightarrow> source \<Rightarrow> json \<Rightarrow> feed_item list result" where
  "nvd_items E src data =
     res_bind (py_get data ''vulnerabilities'') (\<lambda>v.
     res_bind (py_iter (py_or v (JList []))) (parse_all (nvd_item E src)))"

section \<open>Red Hat\<close>

text \<open>\<open>re.split(r"(?<=[.!?])\s+", description)[0]\<close>\<close>

fun first_sentence :: "char option \<Rightarrow> string \<Rightarrow> string" where
  "first_sentence p [] = []"
| "first_sentence p (c # s) =
     (if is_space c \<and> (case p of None \<Rightarrow> False | Some d \<Rightarrow> d \<in> {CHR ''.'', CHR ''!'', CHR ''?''})
      then [] else c # first_sentence (Some c) s)"

definition redhat_title :: "string \<Rightarrow> string \<Rightarrow> string" where
  "redhat_title i description =
     (let s = first_sentence None description in
      if description \<noteq> [] \<and> s \<noteq> [] \<and> length s < 120 then i @ '': '' @ s else i)"

definition redhat_item :: "env \<Rightarrow> source \<Rightarrow> json \<Rightarrow> feed_item option result" where
  "redhat_item E src row =
     res_bind (py_get_def row ''CVE'' (JStr [])) (\<lambda>i.
     if \<not> truthy i then Inr None else
     res_bind (py_get_def row ''bugzilla_description'' (JStr [])) (\<lambda>d.
     res_bind (as_str (py_or d (JStr []))) (\<lambda>d.
     let description = truncate_text (strip_html d) in
     res_bind (as_str i) (\<lambda>cve_id.
     let ti = redhat_title cve_id description;
         text = ti @ '' '' @ description;
         ts = infer_tags text (src_tags src) [cve_id];
         sev = infer_severity text None in
     res_bind (redhat_patch_status row) (\<lambda>pa.
     res_bind (py_get row ''public_date'') (\<lambda>raw.
     Inr (Some ((new_item (hash_item (sha1 E) cve_id ti) ti description
         (''https://access.redhat.com/security/cve/'' @ cve_id) (src_name src) (src_url src) (iso_or_none raw))
       \<lparr>tags := ts, cves := [cve_id], severity := sev, urgent := False, patch_status := pa\<rparr>))))))))"

text \<open>\<open>data[:n]\<close>\<close>

fun py_take :: "nat \<Rightarrow> json \<Rightarrow> json list result" where
  "py_take n (JList xs) = Inr (take n xs)"
| "py_take n (JStr s) = Inr (map (\<lambda>c. JStr [c]) (take n s))"
| "py_take n v = raise_type ''unhashable type: slice''"

definition redhat_items :: "env \<Rightarrow> source \<Rightarrow> json \<Rightarrow> feed_item list result" where
  "redhat_items E src data = res_bind (py_take (max_items src) data) (parse_all (redhat_item E src))"

section \<open>GitHub advisories\<close>

definition ghsa_severity :: "(string \<times> string) list" where
  "ghsa_severity = [(''CRITICAL'', ''critical''), (''HIGH'', ''high''), (''MEDIUM'', ''medium''),
     (''MODERATE'', ''medium''), (''LOW'', ''low'')]"

definition github_headers :: "settings \<Rightarrow> (string, string) dict" where
  "github_headers st =
     [(''Accept'', ''application/vnd.github+json'')] @
     (case github_token st of None \<Rightarrow> []
      | Some t \<Rightarrow> if t = [] then [] else [(''Authorization'', ''Bearer '' @ t)])"

definition ghsa_published :: "env \<Rightarrow> json \<Rightarrow> pydt option result" where
  "ghsa_published E row =
     res_bind (py_get row ''published_at'') (\<lambda>a.
     res_bind (py_get row ''published'') (\<lambda>b.
     res_bind (py_get row ''updated_at'') (\<lambda>c.
     res_bind (py_get row ''updated'') (\<lambda>d.
     let raw = py_or a (py_or b (py_or c d)) in
     Inr (if \<not> truthy raw then None
          else map_option ensure_aware (fromisoformat (replace_all ''Z'' ''+00:00'' (py_str E raw))))))))"

text \<open>\<open>(row.get(k) or "").m()\<close>\<close>

definition str_field :: "string \<Rightarrow> json \<Rightarrow> string \<Rightarrow> string result" where
  "str_field m row k = res_bind (py_get row k) (\<lambda>v. str_for m (py_or v (JStr [])))"

definition ghsa_item :: "env \<Rightarrow> source \<Rightarrow> json \<Rightarrow> feed_item option result" where
  "ghsa_item E src row =
     (if type_name row \<noteq> ''dict'' then Inr None else
     res_bind (str_field ''strip'' row ''ghsa_id'') (\<lambda>g. let ghsa_id = strip g in
     res_bind (str_field ''strip'' row ''cve_id'') (\<lambda>c. let cve_id = upper (strip c) in
     res_bind (str_field ''strip'' row ''summary'') (\<lambda>su. let su = strip su;
         label = (if cve_id \<noteq> [] then cve_id else ghsa_id) in
     if label = [] then Inr None else
     res_bind (str_or row ''description'' []) (\<lambda>d.
     let description = truncate_text (strip_html d);
         ti = (if su \<noteq> [] then label @ '': '' @ su else label);
         text = ti @ '' '' @ description;
         cs = from_keys ((if cve_id \<noteq> [] then [cve_id] else []) @ extract_cves text) in
     res_bind (str_field ''upper'' row ''severity'') (\<lambda>s.
     let sev0 = dict_get ghsa_severity (upper s) ''unknown'';
         sev = (if sev0 = ''unknown'' then infer_severity text None else sev0);
         ts = infer_tags text (src_tags src) cs in
     res_bind (str_or row ''html_url'' (''https://github.com/advisories/'' @ ghsa_id)) (\<lambda>link.
     res_bind (ghsa_published E row) (\<lambda>pub.
     Inr (Some ((new_item (hash_item (sha1 E) link ti) ti (if description \<noteq> [] then description else su) link
         (src_name src) (src_url src) pub)
       \<lparr>tags := ts, cves := cs, severity := sev, urgent := severe sev \<and> ''exploit'' |\<in>| ts\<rparr>))))))))))"

definition ghsa_items :: "env \<Rightarrow> source \<Rightarrow> json list \<Rightarrow> feed_item list result" where
  "ghsa_items E src rows =
     res_bind (parse_all (ghsa_item E src) rows) (\<lambda>items.
     res_bind (sort_published items) (\<lambda>items. Inr (take (max_items src) items)))"

section \<open>What the parsers yield\<close>

lemma somes_simps [simp]: "somes [] = []" "somes (None # xs) = somes xs" "somes (Some x # xs) = x # somes xs"
  by (simp_all add: somes_def)

lemma set_somes [simp]: "set (somes xs) = {x. Some x \<in> set xs}"
  by (induction xs) (auto simp: somes_def split: option.splits)

lemma length_somes: "length (somes xs) \<le> length xs"
  by (induction xs) (auto simp: somes_def split: option.splits)

lemma parse_all_in:
  "parse_all f rows = Inr items \<Longrightarrow> it \<in> set items \<Longrightarrow> \<exists>row \<in> set rows. f row = Inr (Some it)"
proof -
  assume "parse_all f rows = Inr items" "it \<in> set items"
  then obtain xs where "list_all2 (\<lambda>x y. f x = Inr y) rows xs" "Some it \<in> set xs"
    by (auto simp: parse_all_def res_simps)
  moreover have "list_all2 P rows xs \<Longrightarrow> x \<in> set xs \<Longrightarrow> \<exists>r \<in> set rows. P r x" for P x
    by (induction rule: list_all2_induct) auto
  ultimately show ?thesis by blast
qed

lemma parse_all_length: "parse_all f rows = Inr items \<Longrightarrow> length items \<le> length rows"
  using length_somes by (fastforce simp: parse_all_def res_simps dest!: list_all2_lengthD)

lemma sort_published_Inr: "sort_published items = Inr items' \<Longrightarrow> items' = sort_desc (instant \<circ> published_or_min) items"
  by (auto simp: sort_published_def raise_type_def split: if_splits)

text \<open>The items of a source: its name and URL, one of the severity and patch levels, its tags and
  more, ids without repetition, and urgent only when severe.\<close>

definition item_of :: "source \<Rightarrow> feed_item \<Rightarrow> bool" where
  "item_of src it \<longleftrightarrow> source it = src_name src \<and> source_url it = src_url src \<and>
     severity it \<in> set severity_levels \<and> patch_status it \<in> set patch_levels \<and>
     fset (src_tags src) \<subseteq> fset (tags it) \<and> (\<forall>t \<in> fset (tags it). plain_tag t) \<and>
     distinct (cves it) \<and> (cves it \<noteq> [] \<longrightarrow> ''cve'' |\<in>| tags it) \<and>
     (urgent it \<longrightarrow> severe (severity it)) \<and> \<not> is_sample it"

definition plain_tags :: "string fset \<Rightarrow> bool" where
  "plain_tags T \<longleftrightarrow> (\<forall>t \<in> fset T. plain_tag t)"

lemma plain_tags_source: "src \<in> set all_sources \<Longrightarrow> plain_tags (src_tags src)"
proof -
  have "list_all (\<lambda>s. plain_tags (src_tags s)) all_sources"
    by (simp add: source_defs plain_tags_def plain_tag_def tag_char_def is_digit_def cp_def)
  then show "src \<in> set all_sources \<Longrightarrow> plain_tags (src_tags src)" by (simp add: list_all_iff)
qed

lemma plain_add_if: "plain_tag t \<Longrightarrow> plain_tags T \<Longrightarrow> plain_tags (add_if b t T)"
  by (auto simp: plain_tags_def add_if_def)

lemma plain_infer_tags: "plain_tags T \<Longrightarrow> plain_tags (infer_tags text T cs)"
  unfolding infer_tags_def Let_def
  by (intro plain_add_if) (simp_all add: plain_tag_def tag_char_def is_digit_def cp_def)

lemma unknown_levels: "''unknown'' \<in> set severity_levels" "''unknown'' \<in> set patch_levels"
  by (simp_all add: severity_levels_def patch_levels_def)

lemma item_ofI:
  assumes "plain_tags (src_tags src)" "sev \<in> set severity_levels" "pa \<in> set patch_levels" "distinct cs" "urg \<Longrightarrow> severe sev"
  shows "item_of src ((new_item i ti su u (src_name src) (src_url src) pub)
     \<lparr>tags := infer_tags s (src_tags src) cs, cves := cs, severity := sev, urgent := urg, patch_status := pa\<rparr>)"
  using assms plain_infer_tags [OF assms(1), of s cs] infer_tags_source [of _ "src_tags src" s cs]
    infer_tags_cve [of s "src_tags src" cs]
  by (auto simp: item_of_def new_item_def plain_tags_def)

lemma item_ofI_unknown:
  assumes "plain_tags (src_tags src)" "sev \<in> set severity_levels" "distinct cs" "urg \<Longrightarrow> severe sev"
  shows "item_of src ((new_item i ti su u (src_name src) (src_url src) pub)
     \<lparr>tags := infer_tags s (src_tags src) cs, cves := cs, severity := sev, urgent := urg\<rparr>)"
  using item_ofI [OF assms(1,2) unknown_levels(2) assms(3,4), where urg = urg and i = i and ti = ti and su = su and u = u and pub = pub]
  by (simp add: new_item_def)

lemma patch_text_level: "patch_status_from_text src text \<in> set patch_levels"
  by (simp add: patch_status_from_text_def patch_levels_def Let_def)

lemma redhat_patch_level: "redhat_patch_status row = Inr s \<Longrightarrow> s \<in> set patch_levels"
  by (auto simp: redhat_patch_status_def summarize_states_def patch_levels_def res_simps split: if_splits)

lemma ghsa_severity_level: "dict_get ghsa_severity k ''unknown'' \<in> set severity_levels"
  by (auto simp: dict_get_def ghsa_severity_def severity_levels_def)

lemma continue_iff: "(if c then Inr None else r) = Inr (Some x) \<longleftrightarrow> \<not> c \<and> r = Inr (Some x)"
  by simp

lemmas item_steps = Let_def res_bind_Inr_iff continue_iff sum.inject option.inject

lemma ghsa_item_of:
  assumes "ghsa_item E src e = Inr (Some it)" "plain_tags (src_tags src)" shows "item_of src it"
  using assms(1) unfolding ghsa_item_def item_steps
  by (elim exE conjE, hypsubst)
    (auto simp del: from_keys.simps
      intro!: item_ofI_unknown [OF assms(2)] infer_severity_level ghsa_severity_level unknown_levels distinct_from_keys)

lemma distinct_extract_cves: "distinct (extract_cves s)"
  by (simp add: extract_cves_alt)

lemma rss_item_of:
  assumes "rss_item E src e = Inr (Some it)" "plain_tags (src_tags src)" shows "item_of src it"
  using assms(1) unfolding rss_item_def item_steps
  by (elim exE conjE, hypsubst) 
    (auto intro!: item_ofI [OF assms(2)] infer_severity_level patch_text_level distinct_extract_cves)

lemma nvd_item_of:
  assumes "nvd_item E src e = Inr (Some it)" "plain_tags (src_tags src)" shows "item_of src it"
  using assms(1) unfolding nvd_item_def item_steps
  by (elim exE conjE, hypsubst) (auto intro!: item_ofI_unknown [OF assms(2)] infer_severity_level unknown_levels)

lemma redhat_item_of:
  assumes "redhat_item E src e = Inr (Some it)" "plain_tags (src_tags src)" shows "item_of src it"
  using assms(1) unfolding redhat_item_def item_steps
  by (elim exE conjE, hypsubst) (auto intro!: item_ofI [OF assms(2)] infer_severity_level elim: redhat_patch_level)

lemma ghsa_item_published: "ghsa_item E src row = Inr (Some it) \<Longrightarrow> ghsa_published E row = Inr (published it)"
  unfolding ghsa_item_def item_steps
  by (elim exE conjE, drule arg_cong [where f = published]) (simp add: new_item_def)

lemma ghsa_published_aware: "ghsa_published E row = Inr (Some p) \<Longrightarrow> dt_aware p"
  by (auto simp: ghsa_published_def Let_def res_simps ensure_aware_utc split: if_splits)

lemma aware_or_min: "ghsa_item E src row = Inr (Some it) \<Longrightarrow> dt_aware (published_or_min it)"
  using ghsa_item_published [of E src row it] ghsa_published_aware [of E row]
  by (cases "published it") (auto simp: published_or_min_def dt_min_def)

lemma ghsa_items_total:
  assumes "parse_all (ghsa_item E src) rows = Inr xs"
  shows "ghsa_items E src rows = Inr (take (max_items src) (sort_desc (instant \<circ> published_or_min) xs))"
proof -
  have "list_all (dt_aware \<circ> published_or_min) xs"
    using parse_all_in [OF assms] aware_or_min by (fastforce simp: list_all_iff)
  then show ?thesis using assms by (simp add: ghsa_items_def sort_published_def)
qed

section \<open>Properties\<close>

text \<open>A GitHub source never loses its newest advisories and never fails on their order: of all
  advisories that parse it returns as many as the source allows, newest first, and no advisory
  left out is newer than one returned.\<close>

theorem ghsa_keeps_newest:
  assumes "ghsa_items E src rows = Inr items"
  shows "\<exists>xs. parse_all (ghsa_item E src) rows = Inr xs \<and> mset items \<subseteq># mset xs \<and>
    length items = min (max_items src) (length xs) \<and> descending (instant \<circ> published_or_min) items \<and>
    (\<forall>x \<in> set items. \<forall>y \<in># mset xs - mset items. instant (published_or_min y) \<le> instant (published_or_min x))"
proof -
  from assms obtain xs where xs: "parse_all (ghsa_item E src) rows = Inr xs"
    by (auto simp: ghsa_items_def res_simps)
  let ?ys = "sort_desc (instant \<circ> published_or_min) xs"
  have items: "items = take (max_items src) ?ys" using ghsa_items_total [OF xs] assms by simp
  have "mset xs = mset (take (max_items src) ?ys) + mset (drop (max_items src) ?ys)"
    by (metis append_take_drop_id mset_append mset_sort_desc)
  then have m: "mset xs = mset items + mset (drop (max_items src) ?ys)" by (simp add: items)
  then have "\<forall>x \<in> set items. \<forall>y \<in># mset xs - mset items. (instant \<circ> published_or_min) y \<le> (instant \<circ> published_or_min) x"
    using descending_take_drop [OF descending_sort_desc, where f = "instant \<circ> published_or_min"]
    by (simp add: items)
  then show ?thesis
    using xs m by (intro exI [of _ xs]) (simp add: items descending_take comp_def min.commute)
qed

definition offline :: env where
  "offline = \<lparr>cfg = default_settings, sha1 = (\<lambda>s. s), parse_feed = (\<lambda>_. []), parse_date = (\<lambda>_. None),
     py_repr = (\<lambda>_. []), net = (\<lambda>_ _. Inl (Exc ''ConnectError'' (Transport False) ''refused'' None None)), smtp = (\<lambda>_. raise_key ''offline'')\<rparr>"

definition demo_source :: source where
  "demo_source = all_sources ! 12"

lemma demo_source_listed: "demo_source \<in> set all_sources"
  unfolding demo_source_def by (rule nth_mem) (simp add: source_defs)

definition demo_rows :: "json list" where
  "demo_rows = [JObj [(''ghsa_id'', JStr ''GHSA-1''), (''published_at'', JStr [])],
     JObj [(''ghsa_id'', JStr ''GHSA-2''), (''published_at'', JStr ''2024-05-01T10:15:00Z'')]]"

lemma demo_row_parses:
  assumes "strip g \<noteq> []" "row = JObj [(''ghsa_id'', JStr g), (''published_at'', JStr t)]"
  shows "\<exists>it. ghsa_item offline src row = Inr (Some it)"
  using assms(1) by (simp add: assms(2) ghsa_item_def Let_def str_field_def py_or_def str_or_def ghsa_published_def strip_def
      lstrip_def rstrip_def upper_def del: from_keys.simps) auto

lemma demo_rows_parse: "\<exists>items. ghsa_items offline demo_source demo_rows = Inr items \<and> length items = 2"
proof -
  have m: "max_items demo_source = 5" by (simp add: demo_source_def source_defs)
  have "strip ''GHSA-1'' \<noteq> []" "strip ''GHSA-2'' \<noteq> []" by code_simp+
  then obtain a b where "parse_all (ghsa_item offline demo_source) demo_rows = Inr [a, b]"
    using demo_row_parses [OF _ refl, of "''GHSA-1''" demo_source "[]"]
      demo_row_parses [OF _ refl, of "''GHSA-2''" demo_source "''2024-05-01T10:15:00Z''"]
    by (auto simp: parse_all_def demo_rows_def somes_def)
  from ghsa_items_total [OF this] m show ?thesis by simp
qed

lemma ghsa_keeps_newest_witness:
  "\<exists>items. ghsa_items offline demo_source demo_rows = Inr items \<and> length items = 2 \<and>
     descending (instant \<circ> published_or_min) items"
  using demo_rows_parse ghsa_keeps_newest [of offline demo_source demo_rows] by blast



text \<open>A page of the NVD API, whose times carry no offset, with one CVE that has no publication time.\<close>

definition nvd_page :: json where
  "nvd_page = JObj [(''vulnerabilities'', JList
     [JObj [(''cve'', JObj [(''id'', JStr ''CVE-2024-0001''), (''published'', JStr ''2024-05-01T10:15:00.000'')])],
      JObj [(''cve'', JObj [(''id'', JStr ''CVE-2024-0002'')])]])]"

lemma nvd_page_times:
  "iso_or_none (JStr ''2024-05-01T10:15:00.000'') = Some \<lparr>dt_wall = 63850155300000000, dt_off = None\<rparr>"
  by code_simp

text \<open>One NVD entry without a publication time fails the whole source: the other entries parse to
  naive times, the missing one becomes an aware minimum, and the sort compares the two, which
  raises.\<close>

theorem nvd_missing_date_fails_source:
  "\<exists>a b. nvd_items E src nvd_page = Inr [a, b] \<and> \<not> res_ok (sort_published [a, b])"
proof -
  have "iso_or_none JNull = None" by (simp add: iso_or_none_def)
  with nvd_page_times show ?thesis
    by (simp add: nvd_page_def nvd_items_def parse_all_def nvd_item_def Let_def py_or_def nvd_english_description_def
        nvd_cvss_score_def metric_scores_def nvd_reference_url_def somes_def sort_published_def published_or_min_def
        new_item_def dt_aware_def dt_min_def utc_def raise_type_def)
qed

end
