(* ===== verification/Enrich.thy ===== *)
theory Enrich
  imports Parsers
begin

text \<open>
  \<open>app/enrich.py\<close>: the CISA catalogue of known exploited vulnerabilities (KEV) with its
  cache, EPSS scores in batches, the enrichment of the items of a refresh, and the KEV source.
  Both enrichments are best effort. The lemmas show that the enrichment never raises, what it
  does to each item, and that items of the KEV source keep their flag.
\<close>

section \<open>The KEV catalogue\<close>

definition kev_url :: string where
  "kev_url = ''https://www.cisa.gov/sites/default/files/feeds/known_exploited_vulnerabilities.json''"

definition kev_ttl :: int where "kev_ttl = 24 * 60 * 60"

definition kev_entry :: "json \<Rightarrow> (string \<times> json) option result" where
  "kev_entry v = res_bind (py_get v ''cveID'') (\<lambda>c.
     if \<not> truthy c then Inr None
     else res_bind (str_for ''upper'' c) (\<lambda>s. Inr (Some (upper s, v))))"

definition kev_catalog :: "json \<Rightarrow> (string, json) dict result" where
  "kev_catalog data =
     res_bind (py_get_def data ''vulnerabilities'' (JList [])) (\<lambda>v.
     res_bind (py_iter v) (\<lambda>vulns.
     res_bind (res_map kev_entry vulns) (\<lambda>es. Inr (dict_of (somes es)))))"

definition kev_hit :: "('db, (string, json) dict option) io" where
  "kev_hit w = (Inr (case w_kev w of
       Some (c, t0) \<Rightarrow> if w_now w - t0 < kev_ttl * us_sec then Some c else None
     | None \<Rightarrow> None), w)"

definition kev_put :: "(string, json) dict \<Rightarrow> int \<Rightarrow> ('db, unit) io" where
  "kev_put c t0 w = (Inr (), w\<lparr>w_kev := Some (c, t0)\<rparr>)"

definition fetch_kev :: "env \<Rightarrow> ('db, (string, json) dict) io" where
  "fetch_kev E =
     bind get_now (\<lambda>now.
     bind kev_hit (\<lambda>hit. case hit of Some c \<Rightarrow> ret c | None \<Rightarrow>
     bind (http_get E kev_url [] []) (\<lambda>resp.
     bind (lift (raise_for_status resp)) (\<lambda>_.
     bind (lift (rs_json resp)) (\<lambda>data.
     bind (lift (kev_catalog data)) (\<lambda>c.
     bind (kev_put c now) (\<lambda>_. ret c)))))))"

section \<open>EPSS\<close>

definition epss_url :: string where "epss_url = ''https://api.first.org/data/v1/epss''"
definition epss_batch_size :: nat where "epss_batch_size = 100"

definition epss_row :: "json \<Rightarrow> (string \<times> rat) option result" where
  "epss_row row =
     res_bind (str_field ''upper'' row ''cve'') (\<lambda>c.
     res_bind (py_get row ''epss'') (\<lambda>e.
     Inr (if upper c = [] then None else map_option (Pair (upper c)) (as_number e))))"

definition epss_rows :: "json \<Rightarrow> (string \<times> rat) list result" where
  "epss_rows data =
     res_bind (py_get_def data ''data'' (JList [])) (\<lambda>v.
     res_bind (py_iter v) (\<lambda>rows.
     res_bind (res_map epss_row rows) (\<lambda>xs. Inr (somes xs))))"

text \<open>The slices \<open>xs[start:start + n]\<close> of the loop over \<open>range(0, len(xs), n)\<close>.\<close>

fun chunks :: "nat \<Rightarrow> 'a list \<Rightarrow> 'a list list" where
  "chunks n [] = []"
| "chunks n (x # xs) = (x # take (n - 1) xs) # chunks n (drop (n - 1) xs)"

text \<open>\<open>sorted(set(cves))\<close> with the cap of the settings.\<close>

definition epss_cves :: "settings \<Rightarrow> string list \<Rightarrow> string list" where
  "epss_cves st cs = (let u = sort (remdups cs) in if 0 < epss_max_cves st then take (nat (epss_max_cves st)) u else u)"

definition epss_batch :: "env \<Rightarrow> string list \<Rightarrow> ('db, (string \<times> rat) list) io" where
  "epss_batch E batch =
     bind (http_get E epss_url [] [(''cve'', join '','' batch)]) (\<lambda>resp.
     bind (lift (raise_for_status resp)) (\<lambda>_.
     bind (lift (rs_json resp)) (\<lambda>data. lift (epss_rows data))))"

definition fetch_epss :: "env \<Rightarrow> string list \<Rightarrow> ('db, (string, rat) dict) io" where
  "fetch_epss E cs =
     (if cs = [] then ret []
      else bind (io_map (epss_batch E) (chunks epss_batch_size (epss_cves (cfg E) cs)))
        (\<lambda>xss. ret (dict_of (concat xss))))"

section \<open>Enrichment\<close>

definition known_scores :: "(string, rat) dict \<Rightarrow> feed_item \<Rightarrow> rat list" where
  "known_scores epss item = somes (map (map_of epss) (cves item))"

definition max_score :: "rat list \<Rightarrow> rat option" where
  "max_score ss = (case ss of [] \<Rightarrow> None | s # ss \<Rightarrow> Some (fold max ss s))"

definition enrich_item :: "(string, json) dict \<Rightarrow> (string, rat) dict \<Rightarrow> feed_item \<Rightarrow> feed_item" where
  "enrich_item kevs epss item =
     (let k = list_ex (\<lambda>c. map_of kevs c \<noteq> None) (cves item);
          score = max_score (known_scores epss item)
      in item\<lparr>kev := k, epss_score := score,
           tags := (if k then finsert ''kev'' (finsert ''exploit'' (tags item)) else tags item),
           urgent := (if k \<and> severe (severity item) then True
             else if (case score of None \<Rightarrow> False | Some x \<Rightarrow> 1 / 2 \<le> x) \<and> severe (severity item) then True
             else urgent item)\<rparr>)"

definition enrich_items :: "env \<Rightarrow> feed_item list \<Rightarrow> ('db, feed_item list) io" where
  "enrich_items E items =
     (let cs = sort (remdups (concat (map cves items))) in
      if cs = [] then ret items
      else
        bind (catch (fetch_kev E) (\<lambda>_. ret [])) (\<lambda>kevs.
        bind (catch (fetch_epss E cs) (\<lambda>_. ret [])) (\<lambda>epss.
        ret (map (enrich_item kevs epss) items))))"

section \<open>The KEV source\<close>

definition nvd_detail :: string where "nvd_detail = ''https://nvd.nist.gov/vuln/detail/''"

text \<open>\<open>_NVD_LINK_RE\<close>; the value is the CVE id.\<close>

definition nvd_link_match :: "string matcher" where
  "nvd_link_match p s =
     (let n = length nvd_detail; r = drop n s; year = take 4 (drop 4 r);
          ds = take 7 (takeWhile is_digit (drop 9 r)) in
      if lower (take n s) = nvd_detail \<and> lower (take 4 r) = ''cve-'' \<and> length year = 4 \<and> list_all is_digit year
         \<and> prefix ''-'' (drop 8 r) \<and> 4 \<le> length ds
      then Some (n + 9 + length ds, take (9 + length ds) r) else None)"

definition kev_reference :: "env \<Rightarrow> json \<Rightarrow> string result" where
  "kev_reference E entry =
     res_bind (py_get entry ''notes'') (\<lambda>v.
     case re_scan nvd_link_match None 0 (py_str E (py_or v (JStr []))) of
       i # _ \<Rightarrow> Inr (nvd_detail @ upper i)
     | [] \<Rightarrow> res_bind (str_field ''upper'' entry ''cveID'') (\<lambda>c. Inr (nvd_detail @ upper c)))"

text \<open>\<open>strptime(raw, "%Y-%m-%d")\<close>: one or two digits for the month and the day.\<close>

definition short_number :: "string \<Rightarrow> int option" where
  "short_number s = (if list_all is_digit s \<and> length s \<in> {1, 2} then Some (int (digits_val s)) else None)"

definition strptime_date :: "string \<Rightarrow> int option" where
  "strptime_date raw =
     (case split_on CHR ''-'' raw of
        [y, m, d] \<Rightarrow>
          (case (short_number m, short_number (if prefix '' '' d \<and> length d = 2 then tl d else d)) of
             (Some m, Some d) \<Rightarrow>
               if length y = 4 \<and> list_all is_digit y \<and> valid_ymd (int (digits_val y)) m d
               then Some (ymd2days (int (digits_val y)) m d) else None
           | _ \<Rightarrow> None)
      | _ \<Rightarrow> None)"

definition kev_added_at :: "env \<Rightarrow> json \<Rightarrow> pydt option result" where
  "kev_added_at E entry =
     res_bind (py_get entry ''dateAdded'') (\<lambda>v.
     Inr (map_option (\<lambda>n. utc (n * us_day)) (strptime_date (strip (py_str E (py_or v (JStr [])))))))"

definition kev_recent :: "env \<Rightarrow> int \<Rightarrow> json \<Rightarrow> (int \<times> json) option result" where
  "kev_recent E cutoff entry =
     res_bind (kev_added_at E entry) (\<lambda>added.
     Inr (case added of None \<Rightarrow> None
        | Some a \<Rightarrow> if cutoff \<le> instant a then Some (instant a, entry) else None))"

definition kev_item :: "env \<Rightarrow> source \<Rightarrow> int \<times> json \<Rightarrow> feed_item option result" where
  "kev_item E src p = (case p of (added, entry) \<Rightarrow>
     res_bind (str_field ''upper'' entry ''cveID'') (\<lambda>c.
     if upper c = [] then Inr None else
     res_bind (str_field ''strip'' entry ''vulnerabilityName'') (\<lambda>n.
     let i = upper c; ti = (if strip n \<noteq> [] then i @ '': '' @ strip n else i) in
     res_bind (str_or entry ''shortDescription'' []) (\<lambda>d.
     res_bind (py_get entry ''requiredAction'') (\<lambda>act.
     let parts = [d] @ (if truthy act then [''Required action: '' @ py_str E act] else []);
         su = truncate_text (strip_html (join '' '' (filter (\<lambda>p. p \<noteq> []) parts))) in
     res_bind (kev_reference E entry) (\<lambda>link.
     let txt = ti @ '' '' @ su;
         ts = infer_tags txt (finsert ''kev'' (src_tags src)) [i] in
     res_bind (res_map (\<lambda>k. res_bind (py_get entry k) (\<lambda>v. Inr (py_str E (py_or v (JStr [])))))
         [''requiredAction'', ''notes'', ''shortDescription'']) (\<lambda>ws.
     let sev = infer_severity txt (extract_cvss_score (join '' '' ws)) in
     Inr (Some ((new_item (hash_item (sha1 E) link ti) ti su link (src_name src) (src_url src) (Some (utc added)))
       \<lparr>tags := ts, cves := [i], severity := sev, urgent := True, kev := True\<rparr>)))))))))"

definition kev_items :: "env \<Rightarrow> source \<Rightarrow> int \<Rightarrow> (string, json) dict \<Rightarrow> feed_item list result" where
  "kev_items E src now catalog =
     (let cutoff = now - max 1 (kev_source_days (cfg E)) * us_day in
      res_bind (res_map (kev_recent E cutoff) (map snd catalog)) (\<lambda>rs.
      res_bind (res_map (kev_item E src) (take (max_items src) (sort_desc fst (somes rs)))) (\<lambda>xs.
      Inr (somes xs))))"

definition fetch_recent_kev :: "env \<Rightarrow> source \<Rightarrow> ('db, feed_item list) io" where
  "fetch_recent_kev E src =
     bind (fetch_kev E) (\<lambda>catalog. bind get_now (\<lambda>now. lift (kev_items E src now catalog)))"

section \<open>Batches\<close>

lemma concat_chunks: "0 < n \<Longrightarrow> concat (chunks n xs) = xs"
proof (induction n xs rule: chunks.induct)
  case (2 n x xs)
  then show ?case by (metis append_Cons append_take_drop_id chunks.simps(2) concat.simps(2))
qed simp

lemma chunks_sizes: "0 < n \<Longrightarrow> b \<in> set (chunks n xs) \<Longrightarrow> b \<noteq> [] \<and> length b \<le> n"
  by (induction n xs rule: chunks.induct) auto

lemma epss_cves_facts:
  "distinct (epss_cves st cs)" "sorted (epss_cves st cs)" "set (epss_cves st cs) \<subseteq> set cs"
  "0 < epss_max_cves st \<Longrightarrow> length (epss_cves st cs) = min (nat (epss_max_cves st)) (card (set cs))"
  "epss_max_cves st \<le> 0 \<Longrightarrow> set (epss_cves st cs) = set cs"
  by (auto simp: epss_cves_def Let_def sorted_wrt_take length_remdups_card_conv dest: in_set_takeD)

section \<open>Scores\<close>

lemma fold_max_Max: "fold max xs (x :: 'a::linorder) = Max (set (x # xs))"
  by (metis Max.set_eq_fold)

lemma max_score_Max: "max_score ss = (if ss = [] then None else Some (Max (set ss)))"
  by (cases ss) (simp_all add: max_score_def fold_max_Max)

lemma set_known_scores: "set (known_scores epss item) = {x. \<exists>c \<in> set (cves item). map_of epss c = Some x}"
  by (force simp: known_scores_def image_iff)

lemma enrich_item_kept [simp]:
  "item_id (enrich_item kevs epss it) = item_id it" "severity (enrich_item kevs epss it) = severity it"
  "cves (enrich_item kevs epss it) = cves it" "published (enrich_item kevs epss it) = published it"
  "patch_status (enrich_item kevs epss it) = patch_status it" "is_sample (enrich_item kevs epss it) = is_sample it"
  "summary (enrich_item kevs epss it) = summary it" "title (enrich_item kevs epss it) = title it"
  by (simp_all add: enrich_item_def Let_def)

lemma plain_tags_enrich: "plain_tags (tags it) \<Longrightarrow> plain_tags (tags (enrich_item kevs epss it))"
  by (auto simp: enrich_item_def Let_def plain_tags_def plain_tag_def tag_char_def is_digit_def cp_def)

lemma item_ok_enrich: "item_ok it \<Longrightarrow> item_ok (enrich_item kevs epss it)"
  using plain_tags_enrich [of it kevs epss] by (simp add: item_ok_def published_ok_def plain_tags_def)

section \<open>Best effort\<close>

lemma no_throw_enrich_items: "no_throw (enrich_items E items)"
  unfolding enrich_items_def Let_def by (intro io_intros)

lemma sends_kev_hit [io_intros]: "sends P kev_hit" "sends P (kev_put c t)"
  by (auto simp: sends_def kev_hit_def kev_put_def intro: later_same)

lemma sends_fetch_kev [io_intros]: "sends polite (fetch_kev E)"
  unfolding fetch_kev_def by (intro io_intros) auto

lemma sends_fetch_epss [io_intros]: "sends polite (fetch_epss E cs)"
  unfolding fetch_epss_def epss_batch_def by (intro io_intros) auto

lemma sends_enrich_items [io_intros]: "sends polite (enrich_items E items)"
  unfolding enrich_items_def Let_def by (intro io_intros)

lemma sends_fetch_recent_kev [io_intros]: "sends polite (fetch_recent_kev E src)"
  unfolding fetch_recent_kev_def by (intro io_intros)

section \<open>The catalogue and its items\<close>

lemma set_fold_dict_set: "set (fold (\<lambda>(k, v). dict_set k v) kvs d) \<subseteq> set d \<union> set kvs"
proof (induction kvs arbitrary: d)
  case (Cons p kvs)
  obtain k v where p: "p = (k, v)" by (cases p)
  have "set (dict_set k v d) \<subseteq> insert (k, v) (set d)" by (induction d) auto
  with Cons [of "dict_set k v d"] p show ?case by auto
qed simp

lemma set_dict_of: "set (dict_of kvs) \<subseteq> set kvs"
  using set_fold_dict_set [of kvs "[]"] by (simp add: dict_of_def)

lemma list_all2_in: "list_all2 P xs ys \<Longrightarrow> y \<in> set ys \<Longrightarrow> \<exists>x \<in> set xs. P x y"
  by (induction rule: list_all2_induct) auto

lemma kev_catalog_entries:
  assumes "kev_catalog data = Inr c" "(k, v) \<in> set c"
  shows "kev_entry v = Inr (Some (k, v))"
proof -
  from assms(1) obtain vs es where es: "list_all2 (\<lambda>x y. kev_entry x = Inr y) vs es" "c = dict_of (somes es)"
    by (auto simp: kev_catalog_def res_simps)
  with assms(2) set_dict_of have "Some (k, v) \<in> set es" by fastforce
  from list_all2_in [OF es(1) this] obtain x where "kev_entry x = Inr (Some (k, v))" by blast
  moreover from this have "x = v" by (auto simp: kev_entry_def res_simps split: if_splits)
  ultimately show ?thesis by simp
qed

lemma kev_entry_id: "kev_entry v = Inr (Some (k, v)) \<Longrightarrow> str_field ''upper'' v ''cveID'' = Inr s \<Longrightarrow> upper s = k"
  by (auto simp: kev_entry_def str_field_def py_or_def res_simps split: if_splits)

lemma kev_item_facts:
  assumes "kev_item E src (a, v) = Inr (Some it)"
  shows "urgent it \<and> kev it \<and> ''kev'' |\<in>| tags it \<and> published it = Some (utc a) \<and>
    (\<exists>s. str_field ''upper'' v ''cveID'' = Inr s \<and> cves it = [upper s])"
  using assms unfolding kev_item_def prod.case item_steps
  by (elim exE conjE, hypsubst) (simp add: new_item_def infer_tags_source)

lemma kev_recent_Some:
  "kev_recent E cutoff v = Inr (Some (a, v')) \<Longrightarrow> v' = v \<and> cutoff \<le> a"
  by (auto simp: kev_recent_def res_simps split: option.splits if_splits)

lemma kev_items_sorted:
  assumes "list_all2 (\<lambda>p y. kev_item E src p = Inr y) ps xs" "descending fst ps"
  shows "descending (instant \<circ> published_or_min) (somes xs)"
  using assms
proof (induction rule: list_all2_induct)
  case (Cons p ps x xs)
  then have IH: "descending (instant \<circ> published_or_min) (somes xs)" by (simp add: descending_def)
  show ?case
  proof (cases x)
    case None
    with IH show ?thesis by (simp add: comp_def)
  next
    case (Some it)
    have key: "instant (published_or_min y) = fst q" if "kev_item E src q = Inr (Some y)" for q y
      using kev_item_facts [of E src "fst q" "snd q" y] that by (simp add: published_or_min_def)
    have "instant (published_or_min y) \<le> instant (published_or_min it)" if "y \<in> set (somes xs)" for y
    proof -
      from that have "Some y \<in> set xs" by simp
      from list_all2_in [OF Cons.hyps(2) this] obtain q where "q \<in> set ps" "kev_item E src q = Inr (Some y)" by blast
      with Cons.prems Cons.hyps(1) Some key show ?thesis by (auto simp: descending_def)
    qed
    with IH Some show ?thesis by (simp add: descending_def)
  qed
qed (simp add: descending_def somes_def)

section \<open>Properties\<close>

text \<open>Items of the KEV source are urgent, flagged and tagged \<open>kev\<close>, no older than the
  configured window, at most as many as the source allows, newest first; and the enrichment that
  follows with the same catalogue keeps their flag and their urgency, whatever the EPSS scores are.\<close>

theorem kev_items_flagged:
  assumes "kev_catalog data = Inr c" "kev_items E src now c = Inr items"
  shows "length items \<le> max_items src \<and> descending (instant \<circ> published_or_min) items \<and>
    (\<forall>it \<in> set items. urgent it \<and> kev it \<and> ''kev'' |\<in>| tags it \<and>
       now - max 1 (kev_source_days (cfg E)) * us_day \<le> instant (published_or_min it) \<and>
       kev (enrich_item c epss it) \<and> urgent (enrich_item c epss it))"
proof -
  let ?cut = "now - max 1 (kev_source_days (cfg E)) * us_day"
  from assms(2) obtain rs xs where
      rs: "list_all2 (\<lambda>x y. kev_recent E ?cut x = Inr y) (map snd c) rs" and
      xs: "list_all2 (\<lambda>x y. kev_item E src x = Inr y) (take (max_items src) (sort_desc fst (somes rs))) xs" and
      items: "items = somes xs"
    by (auto simp: kev_items_def Let_def res_simps)
  have "length items \<le> max_items src"
    using length_somes [of xs] list_all2_lengthD [OF xs] by (simp add: items)
  moreover have "descending (instant \<circ> published_or_min) items"
    unfolding items by (rule kev_items_sorted [OF xs descending_take [OF descending_sort_desc]])
  moreover have "urgent it \<and> kev it \<and> ''kev'' |\<in>| tags it \<and> ?cut \<le> instant (published_or_min it) \<and>
      kev (enrich_item c epss it) \<and> urgent (enrich_item c epss it)" if it: "it \<in> set items" for it
  proof -
    from it items have "Some it \<in> set xs" by simp
    from list_all2_in [OF xs this] obtain a v where av: "(a, v) \<in> set (somes rs)" "kev_item E src (a, v) = Inr (Some it)"
      by (auto dest: in_set_takeD)
    then have "Some (a, v) \<in> set rs" by simp
    from list_all2_in [OF rs this] obtain k v' where v: "(k, v') \<in> set c" "kev_recent E ?cut v' = Inr (Some (a, v))" by auto
    note f = kev_item_facts [OF av(2)]
    from f obtain s where s: "str_field ''upper'' v ''cveID'' = Inr s" "cves it = [upper s]" by blast
    have "v' = v" "?cut \<le> a" using kev_recent_Some [OF v(2)] by auto
    with v(1) s kev_entry_id [OF kev_catalog_entries [OF assms(1)]] have "upper s = k" by blast
    with v(1) have m: "map_of c (upper s) \<noteq> None" unfolding map_of_eq_None_iff by force
    with f s \<open>?cut \<le> a\<close> m show ?thesis by (simp add: enrich_item_def Let_def published_or_min_def)
  qed
  ultimately show ?thesis by blast
qed

text \<open>A catalogue with one entry, for the witnesses.\<close>

definition demo_entry :: json where
  "demo_entry = JObj [(''cveID'', JStr ''cve-2024-1''), (''dateAdded'', JStr ''2024-05-01'')]"

definition demo_catalog :: "(string, json) dict" where
  "demo_catalog = [(''CVE-2024-1'', demo_entry)]"

lemma demo_catalog_parses: "kev_catalog (JObj [(''vulnerabilities'', JList [demo_entry])]) = Inr demo_catalog"
proof -
  have "upper ''cve-2024-1'' = ''CVE-2024-1''" by code_simp
  then show ?thesis by (simp add: kev_catalog_def kev_entry_def demo_entry_def demo_catalog_def dict_of_def)
qed

lemma demo_kev_added: "kev_added_at offline demo_entry = Inr (Some (utc (739006 * us_day)))"
proof -
  have "strptime_date (strip ''2024-05-01'') = Some 739006" by code_simp
  then show ?thesis by (simp add: kev_added_at_def demo_entry_def py_or_def py_str_def)
qed

lemma demo_kev_item: "\<exists>it. kev_item offline demo_source (739006 * us_day, demo_entry) = Inr (Some it)"
proof -
  have "upper ''cve-2024-1'' \<noteq> []" by code_simp
  moreover have "re_scan nvd_link_match None 0 [] = []" by simp
  ultimately show ?thesis
    by (simp add: kev_item_def demo_entry_def Let_def str_field_def py_or_def py_str_def str_or_def kev_reference_def
        strip_def lstrip_def rstrip_def)
qed

lemma demo_kev_items: "\<exists>it. kev_items offline demo_source (739006 * us_day) demo_catalog = Inr [it]"
proof -
  have "0 < max 1 (kev_source_days (cfg offline)) * us_day" by (simp add: us_day_def)
  then have "kev_recent offline (739006 * us_day - max 1 (kev_source_days (cfg offline)) * us_day) demo_entry
      = Inr (Some (739006 * us_day, demo_entry))"
    by (simp add: kev_recent_def demo_kev_added)
  moreover obtain it where "kev_item offline demo_source (739006 * us_day, demo_entry) = Inr (Some it)"
    using demo_kev_item by blast
  moreover have "max_items demo_source = 5" by (simp add: demo_source_def source_defs)
  ultimately show ?thesis
    by (simp add: kev_items_def demo_catalog_def Let_def somes_def sort_desc_def)
qed

lemma kev_items_flagged_witness:
  "\<exists>it. kev_items offline demo_source (739006 * us_day) demo_catalog = Inr [it] \<and> kev (enrich_item demo_catalog [] it)"
proof -
  obtain it where it: "kev_items offline demo_source (739006 * us_day) demo_catalog = Inr [it]"
    using demo_kev_items by blast
  with kev_items_flagged [OF demo_catalog_parses it, of "[]"] show ?thesis by auto
qed

text \<open>EPSS requests stay within the service's limits and lose nothing: the batches hold between
  1 and 100 ids, together they are exactly the distinct ids in order, cut at the configured cap
  (none when it is 0).\<close>

theorem epss_batches_partition:
  "concat (chunks epss_batch_size (epss_cves st cs)) = epss_cves st cs \<and>
   list_all (\<lambda>b. b \<noteq> [] \<and> length b \<le> 100) (chunks epss_batch_size (epss_cves st cs)) \<and>
   distinct (epss_cves st cs) \<and> sorted (epss_cves st cs) \<and> set (epss_cves st cs) \<subseteq> set cs \<and>
   length (epss_cves st cs) =
     (if 0 < epss_max_cves st then min (nat (epss_max_cves st)) (card (set cs)) else card (set cs))"
proof -
  have "length (epss_cves st cs) = card (set (epss_cves st cs))"
    using epss_cves_facts(1) by (metis distinct_card)
  then show ?thesis
    using concat_chunks [of epss_batch_size "epss_cves st cs"] chunks_sizes [of epss_batch_size _ "epss_cves st cs"]
      epss_cves_facts [where st = st and cs = cs]
    by (auto simp: epss_batch_size_def list_all_iff)
qed

text \<open>C38. What the enrichment sets on an item, exactly: \<open>kev\<close> when one of its CVEs is in the catalogue; the
  EPSS score is the largest one received for its CVEs and none (not 0) when none was received; the
  tags \<open>exploit\<close> and \<open>kev\<close> are added when \<open>kev\<close> is set, and no tag otherwise; an item of severity
  critical or high becomes urgent when \<open>kev\<close> is set or the score is at least one half, and urgency is
  never removed; every other field stays.\<close>

theorem enrich_item_correct:
  shows "(kev (enrich_item kevs epss it) \<longleftrightarrow> (\<exists>c \<in> set (cves it). c \<in> fst ` set kevs)) \<and>
    epss_score (enrich_item kevs epss it) =
      (let S = {x. \<exists>c \<in> set (cves it). map_of epss c = Some x} in if S = {} then None else Some (Max S)) \<and>
    (urgent (enrich_item kevs epss it) \<longleftrightarrow> urgent it \<or> severity it \<in> {''critical'', ''high''} \<and>
       ((\<exists>c \<in> set (cves it). c \<in> fst ` set kevs) \<or>
        (\<exists>x. epss_score (enrich_item kevs epss it) = Some x \<and> 1 / 2 \<le> x))) \<and>
    fset (tags (enrich_item kevs epss it)) =
      fset (tags it) \<union> (if kev (enrich_item kevs epss it) then {''exploit'', ''kev''} else {}) \<and>
    (enrich_item kevs epss it)\<lparr>kev := kev it, epss_score := epss_score it, tags := tags it, urgent := urgent it\<rparr> = it"
proof -
  have k: "list_ex (\<lambda>c. map_of kevs c \<noteq> None) (cves it) \<longleftrightarrow> (\<exists>c \<in> set (cves it). c \<in> fst ` set kevs)"
    by (simp add: list_ex_iff map_of_eq_None_iff)
  have s: "max_score (known_scores epss it) =
      (let S = {x. \<exists>c \<in> set (cves it). map_of epss c = Some x} in if S = {} then None else Some (Max S))"
    unfolding max_score_Max Let_def set_known_scores [symmetric] set_empty ..
  show ?thesis
    unfolding s [symmetric] k [symmetric] by (auto simp: enrich_item_def Let_def severe_def split: option.splits)
qed

lemma enrich_item_correct_witness:
  "kev (enrich_item demo_catalog [] (new_item [] [] [] [] [] [] None \<lparr>cves := [''CVE-2024-1'']\<rparr>))"
  using enrich_item_correct [of demo_catalog "[]" "new_item [] [] [] [] [] [] None \<lparr>cves := [''CVE-2024-1'']\<rparr>"]
  by (auto simp: demo_catalog_def new_item_def)

end
