(* ===== verification/SqlText.thy ===== *)
theory SqlText
  imports Json
begin

text \<open>
  The text matching of the two SQL dialects: \<open>LIKE\<close> (\<open>ILIKE\<close>) with the backslash as escape
  character, over a function that folds the case of a character, and \<open>_escape_like\<close>, which both
  adapters apply to user input. Two facts carry the searches: an escaped pattern between
  percent signs matches exactly the texts that contain the input (up to case), and the pattern
  of the SQLite tag filter, a quoted tag inside the stored JSON text, matches exactly
  the lists that contain the tag.
\<close>

section \<open>LIKE\<close>

definition ascii_lower :: "char \<Rightarrow> char" where
  "ascii_lower c = (if 65 \<le> cp c \<and> cp c \<le> 90 then char_of (cp c + 32) else c)"

abbreviation bslash :: char where
  "bslash \<equiv> CHR 0x5C"

fun like :: "(char \<Rightarrow> char) \<Rightarrow> string \<Rightarrow> string \<Rightarrow> bool" where
  "like f [] s = (s = [])"
| "like f (p # ps) s =
     (if p = CHR ''%''
      then like f ps s \<or> (case s of [] \<Rightarrow> False | c # s' \<Rightarrow> like f (p # ps) s')
      else if p = bslash
      then (case (ps, s) of (e # ps', c # s') \<Rightarrow> f c = f e \<and> like f ps' s' | _ \<Rightarrow> False)
      else (case s of [] \<Rightarrow> False | c # s' \<Rightarrow> (p = CHR ''_'' \<or> f c = f p) \<and> like f ps s'))"

definition escape_like :: "string \<Rightarrow> string" where
  "escape_like v = replace_all ''_'' [bslash, CHR ''_''] (replace_all ''%'' [bslash, CHR ''%'']
     (replace_all [bslash] [bslash, bslash] v))"

definition like_pattern :: "string \<Rightarrow> string" where
  "like_pattern q = ''%'' @ escape_like q @ ''%''"

declare like.simps [simp del]

section \<open>An escaped pattern is a substring search\<close>

lemma replace_all_char: "replace_all [c] new s = concat (map (\<lambda>d. if d = c then new else [d]) s)"
proof -
  have "re_sub (lit_match [c] new) p 0 s = concat (map (\<lambda>d. if d = c then new else [d]) s)" for p
    by (induction s arbitrary: p) (auto simp: lit_match_def)
  then show ?thesis by (simp add: replace_all_def)
qed

definition escape_char :: "char \<Rightarrow> string" where
  "escape_char c = (if c \<in> {bslash, CHR ''%'', CHR ''_''} then [bslash, c] else [c])"

lemma escape_like_chars: "escape_like v = concat (map escape_char v)"
  unfolding escape_like_def replace_all_char by (induction v) (auto simp: escape_char_def)

lemma like_escape_char: "like f (escape_char e @ ps) s \<longleftrightarrow> (case s of [] \<Rightarrow> False | c # s' \<Rightarrow> f c = f e \<and> like f ps s')"
  by (auto simp: escape_char_def like.simps split: list.split)

lemma like_percent: "like f (CHR ''%'' # ps) s \<longleftrightarrow> (\<exists>u v. s = u @ v \<and> like f ps v)"
proof (induction s)
  case Nil
  then show ?case by (simp add: like.simps)
next
  case (Cons c s)
  have "like f (CHR ''%'' # ps) (c # s) \<longleftrightarrow> like f ps (c # s) \<or> (\<exists>u v. s = u @ v \<and> like f ps v)"
    by (subst like.simps) (simp add: Cons)
  also have "\<dots> \<longleftrightarrow> (\<exists>u v. c # s = u @ v \<and> like f ps v)"
    by (metis (no_types) append_Cons append_Nil append_eq_Cons_conv)
  finally show ?case .
qed

lemma like_percent_only [simp]: "like f ''%'' s"
  unfolding like_percent by (intro exI [of _ s] exI [of _ "[]"]) (simp add: like.simps)

lemma like_escaped: "like f (escape_like q @ ps) s \<longleftrightarrow> (\<exists>u v. s = u @ v \<and> map f u = map f q \<and> like f ps v)"
proof (induction q arbitrary: s)
  case Nil
  then show ?case by (simp add: escape_like_chars)
next
  case (Cons c q)
  have *: "like f (escape_like (c # q) @ ps) s \<longleftrightarrow>
      (case s of [] \<Rightarrow> False | d # s' \<Rightarrow> f d = f c \<and> like f (escape_like q @ ps) s')"
    unfolding escape_like_chars by (simp add: like_escape_char)
  show ?case
  proof (cases s)
    case Nil
    then show ?thesis using * by simp
  next
    case (Cons d s')
    then have "like f (escape_like (c # q) @ ps) s \<longleftrightarrow>
        f d = f c \<and> (\<exists>u v. s' = u @ v \<and> map f u = map f q \<and> like f ps v)"
      using * Cons.IH by simp
    also have "\<dots> \<longleftrightarrow> (\<exists>u v. s = u @ v \<and> map f u = map f (c # q) \<and> like f ps v)"
      unfolding Cons by (auto simp: Cons_eq_append_conv map_eq_Cons_conv intro: exI [of _ "d # _"])
    finally show ?thesis .
  qed
qed

lemma like_pattern_iff: "like f (like_pattern q) s \<longleftrightarrow> contains (map f q) (map f s)"
proof -
  have "like f (like_pattern q) s \<longleftrightarrow> (\<exists>u v. s = u @ v \<and> like f (escape_like q @ ''%'') v)"
    using like_percent [of f "escape_like q @ ''%''" s] by (simp only: like_pattern_def append_Cons append_Nil)
  also have "\<dots> \<longleftrightarrow> (\<exists>u v. s = u @ v \<and> (\<exists>w x. v = w @ x \<and> map f w = map f q))"
    by (simp only: like_escaped like_percent_only simp_thms)
  also have "\<dots> \<longleftrightarrow> (\<exists>u v w. s = u @ v @ w \<and> map f v = map f q)"
    by metis
  also have "\<dots> \<longleftrightarrow> (\<exists>u w. map f s = u @ map f q @ w)" (is "?l \<longleftrightarrow> ?r")
  proof
    assume ?l
    then show ?r by (metis map_append)
  next
    assume ?r
    then obtain u w where "map f s = u @ map f q @ w" by blast
    then obtain s1 s2 where "s = s1 @ s2" "map f s2 = map f q @ w" by (metis map_eq_append_conv)
    moreover from this(2) obtain s3 s4 where "s2 = s3 @ s4" "map f s3 = map f q" by (metis map_eq_append_conv)
    ultimately show ?l by blast
  qed
  finally show ?thesis by (simp add: contains_iff)
qed

section \<open>The SQLite tag filter\<close>

definition tag_pattern :: "string \<Rightarrow> string" where
  "tag_pattern t = CHR ''%'' # CHR 0x22 # escape_like t @ [CHR 0x22, CHR ''%'']"

lemma tag_pattern_eq: "tag_pattern t = like_pattern (CHR 0x22 # t @ [CHR 0x22])"
  by (simp add: tag_pattern_def like_pattern_def escape_like_chars escape_char_def)

text \<open>Splitting at quotes: a quoted word without quotes is a segment between two others.\<close>

lemma split_on_from_acc: "split_on_from c w s = (w @ hd (split_on c s)) # tl (split_on c s)"
proof (induction s arbitrary: w)
  case (Cons d s)
  show ?case
  proof (cases "d = c")
    case False
    then show ?thesis using Cons [of "w @ [d]"] Cons [of "[d]"] by simp
  qed simp
qed simp

lemma split_on_nonempty [simp]: "split_on_from c w s \<noteq> []"
  by (induction s arbitrary: w) auto

lemma split_on_append: "split_on c (u @ c # v) = split_on c u @ split_on c v"
proof (induction u)
  case (Cons d u)
  show ?case
  proof (cases "d = c")
    case False
    then show ?thesis
      using Cons by (simp add: split_on_from_acc [of c "[d]"])
  qed (use Cons in simp)
qed simp

lemma split_on_none: "c \<notin> set s \<Longrightarrow> split_on c s = [s]"
proof (induction s)
  case (Cons d s)
  then show ?case by (auto simp: split_on_from_acc [of c "[d]"])
qed simp

definition inner :: "'a list \<Rightarrow> 'a list" where
  "inner xs = butlast (tl xs)"

lemma quoted_in_split:
  assumes "c \<notin> set x" "s = u @ c # x @ c # v"
  shows "x \<in> set (inner (split_on c s))"
proof -
  have "split_on c s = split_on c u @ x # split_on c v"
    using assms by (simp add: split_on_append split_on_none)
  then show ?thesis by (cases "split_on c u") (auto simp: inner_def butlast_append)
qed

lemma split_on_prefix: "c \<notin> set w \<Longrightarrow> split_on c (w @ s) = (w @ hd (split_on c s)) # tl (split_on c s)"
proof (induction w)
  case (Cons d w)
  then show ?case by (auto simp: split_on_from_acc [of c "[d]"])
qed simp

definition quoted :: "string list \<Rightarrow> string" where
  "quoted xs = join '', '' (map (\<lambda>x. CHR 0x22 # x @ [CHR 0x22]) xs)"

lemma split_quoted:
  assumes "xs \<noteq> []" "\<forall>x \<in> set xs. CHR 0x22 \<notin> set x" "CHR 0x22 \<notin> set q"
  shows "\<exists>ys. split_on CHR 0x22 (quoted xs @ q) = [] # ys @ [q] \<and> set ys \<subseteq> insert '', '' (set xs)"
  using assms(1,2)
proof (induction xs)
  case (Cons x xs)
  have one: "split_on CHR 0x22 (CHR 0x22 # x @ CHR 0x22 # r) = [] # x # split_on CHR 0x22 r" for r
    using Cons.prems(2) split_on_append [of "CHR 0x22" x r] by (simp add: split_on_none)
  show ?case
  proof (cases xs)
    case Nil
    then show ?thesis using one [of q] assms(3) by (simp add: quoted_def split_on_none)
  next
    case (Cons y ys)
    then obtain zs where zs: "split_on CHR 0x22 (quoted xs @ q) = [] # zs @ [q]" "set zs \<subseteq> insert '', '' (set xs)"
      using Cons.IH Cons.prems(2) by auto
    have "split_on CHR 0x22 ('', '' @ quoted xs @ q) = '', '' # zs @ [q]"
      using split_on_prefix [of "CHR 0x22" "'', ''" "quoted xs @ q"] zs(1) by simp
    then have "split_on CHR 0x22 (quoted (x # xs) @ q) = [] # (x # '', '' # zs) @ [q]"
      using one [of "'', '' @ quoted xs @ q"] Cons by (simp add: quoted_def)
    with zs(2) show ?thesis by (intro exI [of _ "x # '', '' # zs"]) auto
  qed
qed simp

lemma contains_quoted_mem: "x \<in> set xs \<Longrightarrow> contains (CHR 0x22 # x @ [CHR 0x22]) (quoted xs)"
proof (induction xs)
  case (Cons y xs)
  have head: "\<exists>r. quoted (y # xs) = CHR 0x22 # y @ CHR 0x22 # r" by (cases xs) (auto simp: quoted_def)
  have tail: "xs \<noteq> [] \<Longrightarrow> \<exists>r. quoted (y # xs) = r @ quoted xs"
    by (cases xs) (auto simp: quoted_def intro: exI [of _ "CHR 0x22 # y @ CHR 0x22 # '', ''"])
  show ?case
  proof (cases "x = y")
    case True
    with head show ?thesis unfolding contains_iff by (metis append_Cons append_Nil append_assoc)
  next
    case False
    with Cons have "contains (CHR 0x22 # x @ [CHR 0x22]) (quoted xs)" "xs \<noteq> []" by auto
    with tail show ?thesis unfolding contains_iff by (metis append_assoc)
  qed
qed simp

lemma contains_quoted:
  assumes "\<forall>y \<in> set xs. CHR 0x22 \<notin> set y" "CHR 0x22 \<notin> set x" "x \<noteq> '', ''"
  shows "contains (CHR 0x22 # x @ [CHR 0x22]) (''['' @ quoted xs @ '']'') \<longleftrightarrow> x \<in> set xs"
proof
  assume c: "contains (CHR 0x22 # x @ [CHR 0x22]) (''['' @ quoted xs @ '']'')"
  show "x \<in> set xs"
  proof (cases "xs = []")
    case True
    with c show ?thesis by (simp add: quoted_def)
  next
    case False
    from split_quoted [OF False assms(1), of "'']''"] obtain ys where
      ys: "split_on CHR 0x22 (quoted xs @ '']'') = [] # ys @ ['']'']" "set ys \<subseteq> insert '', '' (set xs)" by auto
    have "inner (split_on CHR 0x22 (''['' @ quoted xs @ '']'')) = ys"
      using split_on_prefix [of "CHR 0x22" "''[''" "quoted xs @ '']''"] ys(1) by (simp add: inner_def)
    moreover from c obtain u v where "''['' @ quoted xs @ '']'' = u @ CHR 0x22 # x @ CHR 0x22 # v"
      unfolding contains_iff by auto
    ultimately have "x \<in> set ys" using quoted_in_split [OF assms(2)] by metis
    with ys(2) assms(3) show ?thesis by auto
  qed
next
  assume "x \<in> set xs"
  from contains_quoted_mem [OF this]
  show "contains (CHR 0x22 # x @ [CHR 0x22]) (''['' @ quoted xs @ '']'')"
    unfolding contains_iff by (metis append_assoc)
qed

text \<open>Characters that \<open>json.dumps\<close> writes as they are, and that case folding keeps.\<close>

definition json_plain :: "char \<Rightarrow> bool" where
  "json_plain c \<longleftrightarrow> 32 \<le> cp c \<and> cp c \<le> 126 \<and> c \<noteq> CHR 0x22 \<and> c \<noteq> bslash"

lemma json_escape_plain: "json_plain c \<Longrightarrow> json_escape c = [c]"
  by (auto simp: json_plain_def json_escape_def cp_def)

lemma json_quote_plain: "list_all json_plain x \<Longrightarrow> json_quote x = CHR 0x22 # x @ [CHR 0x22]"
  by (induction x) (auto simp: json_quote_def json_escape_plain)

lemma json_dumps_plain: "list_all (list_all json_plain) xs \<Longrightarrow> json_dumps_strs xs = ''['' @ quoted xs @ '']''"
proof -
  assume "list_all (list_all json_plain) xs"
  then have m: "map json_quote xs = map (\<lambda>x. CHR 0x22 # x @ [CHR 0x22]) xs"
    by (auto simp: list_all_iff json_quote_plain)
  show ?thesis unfolding json_dumps_strs_def quoted_def m by simp
qed

lemma map_join: "map f (join sep xs) = join (map f sep) (map (map f) xs)"
  by (induction sep xs rule: join.induct) auto

lemma tag_filter:
  assumes "list_all (list_all json_plain) xs" "list_all json_plain t" "t \<noteq> '', ''"
    "\<forall>x \<in> insert t (set xs). map ascii_lower x = x"
  shows "like ascii_lower (tag_pattern t) (json_dumps_strs xs) \<longleftrightarrow> t \<in> set xs"
proof -
  have f: "ascii_lower CHR 0x22 = CHR 0x22" "ascii_lower CHR ''['' = CHR ''[''" "ascii_lower CHR '']'' = CHR '']''"
    "ascii_lower CHR '','' = CHR '',''" "ascii_lower CHR '' '' = CHR '' ''"
    by (simp_all add: ascii_lower_def cp_def)
  have "map ascii_lower (quoted xs) = quoted (map (map ascii_lower) xs)"
    by (simp add: quoted_def map_join f comp_def)
  also have "map (map ascii_lower) xs = xs" using assms(4) by (simp add: map_idI)
  finally have "map ascii_lower (quoted xs) = quoted xs" .
  then have q: "map ascii_lower (''['' @ quoted xs @ '']'') = ''['' @ quoted xs @ '']''" by (simp add: f)
  have "\<forall>y \<in> set xs. CHR 0x22 \<notin> set y" "CHR 0x22 \<notin> set t"
    using assms(1,2) by (auto simp: list_all_iff json_plain_def)
  from contains_quoted [OF this assms(3)] have
    "contains (map ascii_lower (CHR 0x22 # t @ [CHR 0x22])) (map ascii_lower (''['' @ quoted xs @ '']'')) \<longleftrightarrow> t \<in> set xs"
    unfolding q using assms(4) by (simp add: f)
  then show ?thesis
    unfolding tag_pattern_eq like_pattern_iff json_dumps_plain [OF assms(1)] .
qed

section \<open>Properties\<close>

text \<open>User input in a search pattern is matched literally: after \<open>_escape_like\<close>, a pattern
  with percent signs around it matches exactly the texts that contain the input, up to the
  dialect's case folding, whatever percent signs, underscores or backslashes the input has.\<close>

theorem like_pattern_is_substring:
  "like f (''%'' @ escape_like q @ ''%'') s \<longleftrightarrow> contains (map f q) (map f s)"
  using like_pattern_iff [of f q s] by (simp add: like_pattern_def)

text \<open>The SQLite tag filter finds exactly the rows that carry the tag, for lower-case tags
  made of characters JSON does not escape; the text of the one false positive (a comma and a
  space, what stands between two quoted tags) is excluded.\<close>

theorem tag_filter_is_membership:
  assumes "list_all (list_all json_plain) xs" "list_all json_plain t" "t \<noteq> '', ''"
    "\<forall>x \<in> insert t (set xs). map ascii_lower x = x"
  shows "like ascii_lower (tag_pattern t) (json_dumps_strs xs) \<longleftrightarrow> t \<in> set xs"
  using assms by (rule tag_filter)

lemma tag_filter_is_membership_witness:
  "like ascii_lower (tag_pattern ''cloud'') (json_dumps_strs [''linux'', ''cloud'']) \<and>
   \<not> like ascii_lower (tag_pattern ''clo'') (json_dumps_strs [''linux'', ''cloud''])"
proof
  have f: "map ascii_lower ''linux'' = ''linux''" "map ascii_lower ''cloud'' = ''cloud''"
    "map ascii_lower ''clo'' = ''clo''" by code_simp+
  show "like ascii_lower (tag_pattern ''cloud'') (json_dumps_strs [''linux'', ''cloud''])"
    by (subst tag_filter_is_membership) (use f in simp_all, simp_all add: json_plain_def cp_def)
  show "\<not> like ascii_lower (tag_pattern ''clo'') (json_dumps_strs [''linux'', ''cloud''])"
    by (subst tag_filter_is_membership) (use f in simp_all, simp_all add: json_plain_def cp_def)
qed

text \<open>The tag filter of SQLite ignores ASCII case and the tag boundary text: a query for
  another case matches, and so does a query for comma-space on any item with two tags.\<close>

theorem tag_filter_false_positives:
  "like ascii_lower (tag_pattern ''CLOUD'') (json_dumps_strs [''cloud'']) \<and>
   like ascii_lower (tag_pattern '', '') (json_dumps_strs [''cloud'', ''linux''])"
  by code_simp

end
