(* ===== verification/PgStore.thy ===== *)
theory PgStore
  imports Store SqlText
begin

text \<open>
  \<open>app/postgres_store.py\<close>: the PostgreSQL adapter as operations on typed tables. A
  \<open>timestamptz\<close> is an instant in microseconds, a \<open>jsonb\<close> array of strings a list. A
  table lists its rows in the order a scan meets them; rows that tie in an \<open>ORDER BY\<close>
  come out in that order. SQL leaves their order open, so a fact about a result says only that it
  is a \<open>page\<close> of the rows, and facts that compare two databases leave the order of the rows of
  each of them open. The pool is the
  flag \<open>pg_up\<close>: while it is down, every operation raises \<open>StoreUnavailable\<close>. The
  session's time zone is UTC. The lemmas show that the adapter honours the contract \<open>storage\<close>.
\<close>

section \<open>Tables\<close>

record pg_row =
  p_id :: string
  p_title :: string
  p_summary :: string
  p_url :: string
  p_source :: string
  p_source_url :: string
  p_published :: "int option"
  p_tags :: "string list"
  p_cves :: "string list"
  p_severity :: string
  p_urgent :: bool
  p_kev :: bool
  p_epss_score :: "rat option"
  p_is_sample :: bool
  p_osv_affected :: "string list"
  p_osv_fixed :: "string list"
  p_osv_severity :: "string option"
  p_patch_status :: string
  p_first_seen :: int
  p_last_seen :: int

record pg_state =
  g_etag :: "string option"
  g_last_modified :: "string option"
  g_last_fetched_at :: "int option"
  g_last_ok_at :: "int option"
  g_last_error :: "string option"
  g_last_payload :: "json list option"

record pg_db =
  pg_items :: "(string, pg_row) dict"
  pg_alerted :: "(string, int) dict"
  pg_states :: "(string, pg_state) dict"
  pg_up :: bool

definition pg_empty :: pg_db where
  "pg_empty = \<lparr>pg_items = [], pg_alerted = [], pg_states = [], pg_up = True\<rparr>"

section \<open>Operations\<close>

definition pg_unavailable :: "'a result" where
  "pg_unavailable = Inl (Exc ''StoreUnavailable'' StoreUnavailable ''database unavailable''
     (Some (Exc ''OperationalError'' OtherExc [] None None)) None)"

text \<open>\<open>with _connection()\<close>\<close>

definition pg_conn :: "pg_db \<Rightarrow> 'a \<Rightarrow> 'a result" where
  "pg_conn db x = (if pg_up db then Inr x else pg_unavailable)"

definition pg_get_source_state :: "string \<Rightarrow> pg_db \<Rightarrow> source_state option result" where
  "pg_get_source_state sid db = pg_conn db (case map_of (pg_states db) sid of None \<Rightarrow> None
     | Some r \<Rightarrow> Some \<lparr>st_etag = g_etag r, st_last_modified = g_last_modified r,
         st_last_fetched_at = map_option iso_now (g_last_fetched_at r),
         st_last_ok_at = map_option iso_now (g_last_ok_at r),
         st_last_error = g_last_error r, st_last_payload = g_last_payload r\<rparr>)"

definition pg_state_row :: "int \<Rightarrow> state_write \<Rightarrow> pg_state" where
  "pg_state_row now w = \<lparr>g_etag = w_etag w, g_last_modified = w_last_modified w,
     g_last_fetched_at = Some (case w_fetched_at w of None \<Rightarrow> now | Some t \<Rightarrow> instant t),
     g_last_ok_at = (if w_ok w then Some now else None),
     g_last_error = w_error w, g_last_payload = w_payload w\<rparr>"

definition pg_set_source_state :: "int \<Rightarrow> string \<Rightarrow> state_write \<Rightarrow> pg_db \<Rightarrow> pg_db result" where
  "pg_set_source_state now sid w db =
     (let ex = pg_state_row now w;
          row = (case map_of (pg_states db) sid of None \<Rightarrow> ex
            | Some old \<Rightarrow> \<lparr>g_etag = coalesce (g_etag ex) (g_etag old),
                g_last_modified = coalesce (g_last_modified ex) (g_last_modified old),
                g_last_fetched_at = g_last_fetched_at ex,
                g_last_ok_at = coalesce (g_last_ok_at ex) (g_last_ok_at old),
                g_last_error = g_last_error ex,
                g_last_payload = coalesce (g_last_payload ex) (g_last_payload old)\<rparr>)
      in pg_conn db (db\<lparr>pg_states := dict_set sid row (pg_states db)\<rparr>))"

definition pg_prune_items :: "pydt \<Rightarrow> pg_db \<Rightarrow> (nat \<times> pg_db) result" where
  "pg_prune_items before db =
     (let cutoff = instant before;
          doomed = (\<lambda>r. \<not> p_is_sample r \<and> p_last_seen r < cutoff);
          kept = filter (\<lambda>p. \<not> doomed (snd p)) (pg_items db);
          alerts = filter (\<lambda>p. \<not> (snd p < cutoff \<and> fst p \<notin> fst ` set kept)) (pg_alerted db)
      in pg_conn db (length (filter (\<lambda>p. doomed (snd p)) (pg_items db)),
                     db\<lparr>pg_items := kept, pg_alerted := alerts\<rparr>))"

definition pg_ping :: "pg_db \<Rightarrow> bool result" where
  "pg_ping db = pg_conn db True"

definition pg_row_of :: "int \<Rightarrow> feed_item \<Rightarrow> pg_row" where
  "pg_row_of now item = \<lparr>p_id = item_id item, p_title = title item, p_summary = summary item,
     p_url = url item, p_source = source item, p_source_url = source_url item,
     p_published = map_option (instant \<circ> ensure_aware) (published item),
     p_tags = sorted_list_of_fset (tags item), p_cves = cves item, p_severity = severity item,
     p_urgent = urgent item, p_kev = kev item, p_epss_score = epss_score item,
     p_is_sample = is_sample item, p_osv_affected = osv_affected item, p_osv_fixed = osv_fixed item,
     p_osv_severity = osv_severity item, p_patch_status = patch_status item,
     p_first_seen = now, p_last_seen = now\<rparr>"

text \<open>\<open>ON CONFLICT(id) DO UPDATE\<close> sets every column but \<open>first_seen\<close>.\<close>

definition pg_upsert_row :: "pg_row \<Rightarrow> (string, pg_row) dict \<Rightarrow> (string, pg_row) dict" where
  "pg_upsert_row r d = dict_set (p_id r)
     (case map_of d (p_id r) of None \<Rightarrow> r | Some old \<Rightarrow> r\<lparr>p_first_seen := p_first_seen old\<rparr>) d"

definition pg_upsert_items :: "int \<Rightarrow> feed_item list \<Rightarrow> pg_db \<Rightarrow> (nat \<times> pg_db) result" where
  "pg_upsert_items now items db =
     (if items = [] then Inr (0, db)
      else let rows = map (pg_row_of now) items
           in pg_conn db (length rows, db\<lparr>pg_items := fold pg_upsert_row rows (pg_items db)\<rparr>))"

definition pg_seed_if_empty :: "(string \<Rightarrow> string) \<Rightarrow> int \<Rightarrow> pg_db \<Rightarrow> (nat \<times> pg_db) result" where
  "pg_seed_if_empty sha1 now db =
     res_bind (pg_conn db (length (pg_items db))) (\<lambda>count.
       if 0 < count then Inr (0, db)
       else pg_upsert_items now (sample_items sha1 (utc now)) db)"

definition pg_feed_item :: "pg_row \<Rightarrow> feed_item" where
  "pg_feed_item r = \<lparr>item_id = p_id r, title = p_title r, summary = p_summary r, url = p_url r,
     source = p_source r, source_url = p_source_url r, published = map_option utc (p_published r),
     tags = fset_of_list (p_tags r), cves = p_cves r,
     severity = (if p_severity r = [] then ''unknown'' else p_severity r),
     urgent = p_urgent r, kev = p_kev r, epss_score = p_epss_score r, is_sample = p_is_sample r,
     osv_affected = p_osv_affected r, osv_fixed = p_osv_fixed r, osv_severity = p_osv_severity r,
     patch_status = (if p_patch_status r = [] then ''unknown'' else p_patch_status r)\<rparr>"

definition pg_row_to_item :: "int \<Rightarrow> pg_row \<Rightarrow> json" where
  "pg_row_to_item now r = item_to_dict (pg_feed_item r) (utc now)"

abbreviation pg_rows :: "pg_db \<Rightarrow> pg_row list" where
  "pg_rows db \<equiv> map snd (pg_items db)"

text \<open>\<open>_HIDE_SAMPLE\<close>\<close>

definition pg_hide_sample :: "pg_db \<Rightarrow> pg_row \<Rightarrow> bool" where
  "pg_hide_sample db r \<longleftrightarrow> p_is_sample r = False \<or> \<not> (\<exists>r' \<in> set (pg_rows db). p_is_sample r' = False)"

text \<open>The tag (\<open>@>\<close>) and severity clauses, present when the argument is given.\<close>

definition pg_clauses :: "string option \<Rightarrow> string option \<Rightarrow> pg_row \<Rightarrow> bool" where
  "pg_clauses tag sev r \<longleftrightarrow>
     (case given tag of None \<Rightarrow> True | Some t \<Rightarrow> t \<in> set (p_tags r)) \<and>
     (case given sev of None \<Rightarrow> True | Some s \<Rightarrow> p_severity r = s)"

text \<open>\<open>ORDER BY published DESC NULLS LAST, urgent DESC, last_seen DESC NULLS LAST\<close>\<close>

definition pg_order :: "pg_row \<Rightarrow> int option \<times> bool \<times> int" where
  "pg_order r = (p_published r, p_urgent r, p_last_seen r)"

definition pg_query_feed :: "int \<Rightarrow> string option \<Rightarrow> string option \<Rightarrow> int \<Rightarrow> pg_db \<Rightarrow> json list result" where
  "pg_query_feed now tag sev n db =
     pg_conn db (map (pg_row_to_item now)
       (limit_to n (sort_desc pg_order (filter (\<lambda>r. pg_hide_sample db r \<and> pg_clauses tag sev r) (pg_rows db)))))"

text \<open>\<open>ILIKE\<close> on title, summary, source and the text of the \<open>jsonb\<close> array of CVE ids.\<close>

definition pg_text_match :: "string \<Rightarrow> pg_row \<Rightarrow> bool" where
  "pg_text_match q r \<longleftrightarrow> (let m = like lower_char (like_pattern q) in
     m (p_title r) \<or> m (p_summary r) \<or> m (p_source r) \<or> m (json_dumps_strs (p_cves r)))"

definition pg_search_feed :: "int \<Rightarrow> string \<Rightarrow> string option \<Rightarrow> string option \<Rightarrow> int \<Rightarrow> pg_db \<Rightarrow> json list result" where
  "pg_search_feed now q tag sev n db =
     (if q = [] then pg_query_feed now tag sev n db
      else pg_conn db (map (pg_row_to_item now)
        (limit_to n (sort_desc pg_order
          (filter (\<lambda>r. pg_hide_sample db r \<and> pg_text_match q r \<and> pg_clauses tag sev r) (pg_rows db))))))"

text \<open>\<open>GROUP BY\<close> with \<open>COUNT(*)\<close>, and the tag counter of \<open>stats\<close>.\<close>

definition count_by :: "string list \<Rightarrow> (string, nat) dict" where
  "count_by xs = map (\<lambda>k. (k, count_list xs k)) (from_keys xs)"

definition max_of :: "'a::linorder list \<Rightarrow> 'a option" where
  "max_of xs = (case xs of [] \<Rightarrow> None | y # ys \<Rightarrow> Some (fold max ys y))"

definition pg_stats :: "pg_db \<Rightarrow> store_stats result" where
  "pg_stats db =
     (let rows = pg_rows db; cnt = (\<lambda>P. length (filter P rows));
          total = cnt (\<lambda>_. True); live = cnt (\<lambda>r. \<not> p_is_sample r)
      in pg_conn db \<lparr>n_total = total, n_live = live, n_sample = total - live,
           n_urgent = cnt p_urgent,
           by_severity = count_by (map p_severity rows),
           by_tag = count_by (concat (map p_tags rows)),
           n_kev = cnt (\<lambda>r. p_kev r \<and> \<not> p_is_sample r),
           n_epss = cnt (\<lambda>r. p_epss_score r \<noteq> None \<and> \<not> p_is_sample r),
           n_osv = cnt (\<lambda>r. \<not> p_is_sample r \<and> p_osv_affected r \<noteq> []),
           latest_seen = map_option iso_now (max_of (map p_last_seen rows))\<rparr>)"

definition pg_unalerted_urgent_items :: "int \<Rightarrow> int \<Rightarrow> pg_db \<Rightarrow> json list result" where
  "pg_unalerted_urgent_items now n db =
     pg_conn db (map (pg_row_to_item now)
       (limit_to n (sort_desc p_published
         (filter (\<lambda>r. p_urgent r \<and> map_of (pg_alerted db) (p_id r) = None \<and> pg_hide_sample db r) (pg_rows db)))))"

text \<open>\<open>INSERT ... ON CONFLICT DO NOTHING\<close>, once per id.\<close>

definition insert_new :: "'v \<Rightarrow> 'k \<Rightarrow> ('k, 'v) dict \<Rightarrow> ('k, 'v) dict" where
  "insert_new v k d = (case map_of d k of None \<Rightarrow> dict_set k v d | Some _ \<Rightarrow> d)"

definition pg_mark_alerted :: "int \<Rightarrow> string list \<Rightarrow> pg_db \<Rightarrow> pg_db result" where
  "pg_mark_alerted now ids db =
     (if ids = [] then Inr db
      else pg_conn db (db\<lparr>pg_alerted := fold (insert_new now) ids (pg_alerted db)\<rparr>))"

definition postgres_store :: "pg_db backend" where
  "postgres_store = \<lparr>upsert_items = pg_upsert_items, query_feed = pg_query_feed, search_feed = pg_search_feed,
     stats = pg_stats, unalerted_urgent_items = pg_unalerted_urgent_items, mark_alerted = pg_mark_alerted,
     get_source_state = pg_get_source_state, set_source_state = pg_set_source_state,
     prune_items = pg_prune_items, seed_if_empty = pg_seed_if_empty, ping = pg_ping\<rparr>"

section \<open>The archive a PostgreSQL database represents\<close>

definition pg_arow :: "pg_row \<Rightarrow> arow" where
  "pg_arow r = \<lparr>a_item = pg_feed_item r, a_first_seen = p_first_seen r, a_last_seen = p_last_seen r\<rparr>"

definition pg_state_of :: "pg_state \<Rightarrow> source_state" where
  "pg_state_of r = \<lparr>st_etag = g_etag r, st_last_modified = g_last_modified r,
     st_last_fetched_at = map_option iso_now (g_last_fetched_at r),
     st_last_ok_at = map_option iso_now (g_last_ok_at r),
     st_last_error = g_last_error r, st_last_payload = g_last_payload r\<rparr>"

definition pg_archive :: "pg_db \<Rightarrow> archive" where
  "pg_archive db = \<lparr>ar_items = map_option pg_arow \<circ> map_of (pg_items db),
     ar_alerted = map_of (pg_alerted db),
     ar_states = map_option pg_state_of \<circ> map_of (pg_states db)\<rparr>"

definition row_times_ok :: "pg_row \<Rightarrow> bool" where
  "row_times_ok r \<longleftrightarrow> dt_range (p_first_seen r) \<and> dt_range (p_last_seen r) \<and>
     (case p_published r of None \<Rightarrow> True | Some w \<Rightarrow> dt_range w)"

definition pg_inv :: "pg_db \<Rightarrow> bool" where
  "pg_inv db \<longleftrightarrow> dict_ok (pg_items db) \<and> dict_ok (pg_alerted db) \<and> dict_ok (pg_states db) \<and>
     (\<forall>(i, r) \<in> set (pg_items db). p_id r = i \<and> row_times_ok r \<and> p_severity r \<noteq> [] \<and> p_patch_status r \<noteq> [] \<and>
        (\<forall>t \<in> set (p_tags r). plain_tag t) \<and> sorted_list_of_fset (fset_of_list (p_tags r)) = p_tags r) \<and>
     (\<forall>(i, t) \<in> set (pg_alerted db). dt_range t)"

lemma pg_inv_empty: "pg_inv pg_empty"
  by (simp add: pg_inv_def pg_empty_def)

lemma sorted_fset: "fset_of_list (sorted_list_of_fset T) = T"
  by (simp add: fset_of_list.rep_eq flip: fset_inject)

lemma pg_feed_item_row: "pg_feed_item (pg_row_of now item) = stored_item item"
  by (cases item, cases "published item")
    (simp_all add: pg_feed_item_def pg_row_of_def stored_item_def published_utc_def ensure_aware_utc sorted_fset)

lemma pg_row_of_id [simp]: "p_id (pg_row_of now item) = item_id item"
  by (simp add: pg_row_of_def)

lemma pg_arow_row [simp]: "item_id (a_item (pg_arow r)) = p_id r"
  "is_sample (a_item (pg_arow r)) = p_is_sample r"
  "urgent (a_item (pg_arow r)) = p_urgent r"
  "a_last_seen (pg_arow r) = p_last_seen r"
  "a_first_seen (pg_arow r) = p_first_seen r"
  by (simp_all add: pg_arow_def pg_feed_item_def)

lemma pg_row_key: "row_key (pg_arow r) = pg_order r"
  by (simp add: row_key_def pg_order_def) (simp add: pg_arow_def pg_feed_item_def option.map_comp comp_def option.map_ident)

lemma pg_rows_by_id:
  assumes "pg_inv db" "r \<in> set (pg_rows db)"
  shows "map_of (pg_items db) (p_id r) = Some r"
  using assms by (auto simp: pg_inv_def map_of_in)

lemma pg_distinct_rows: "pg_inv db \<Longrightarrow> distinct (pg_rows db)"
proof -
  assume inv: "pg_inv db"
  then have "distinct (map fst (pg_items db))" "\<forall>(i, r) \<in> set (pg_items db). p_id r = i"
    by (auto simp: pg_inv_def dict_ok_def)
  then have "map p_id (pg_rows db) = map fst (pg_items db)" by auto
  with \<open>distinct (map fst (pg_items db))\<close> show ?thesis by (metis distinct_map)
qed

lemma pg_arow_inj: "pg_inv db \<Longrightarrow> inj_on pg_arow (set (pg_rows db))"
proof (rule inj_onI)
  fix r r'
  assume inv: "pg_inv db" and r: "r \<in> set (pg_rows db)" "r' \<in> set (pg_rows db)" "pg_arow r = pg_arow r'"
  from r(3) have "p_id r = p_id r'" by (metis pg_arow_row(1))
  with pg_rows_by_id [OF inv r(1)] pg_rows_by_id [OF inv r(2)] show "r = r'" by (metis option.inject)
qed

lemma ran_map_option: "ran (map_option f \<circ> m) = f ` ran m"
proof (intro set_eqI iffI)
  fix y assume "y \<in> ran (map_option f \<circ> m)"
  then obtain k x where "m k = Some x" "y = f x" by (auto simp: ran_def)
  then show "y \<in> f ` ran m" by (auto intro: ranI)
next
  fix y assume "y \<in> f ` ran m"
  then obtain k x where "m k = Some x" "y = f x" by (auto simp: ran_def)
  then have "(map_option f \<circ> m) k = Some y" by simp
  then show "y \<in> ran (map_option f \<circ> m)" by (rule ranI)
qed

lemma pg_ar_rows: "pg_inv db \<Longrightarrow> ar_rows (pg_archive db) = pg_arow ` set (pg_rows db)"
proof -
  assume inv: "pg_inv db"
  have "ran (map_of (pg_items db)) = set (pg_rows db)"
    using inv by (simp add: ran_distinct pg_inv_def dict_ok_def)
  moreover have "ran (map_option pg_arow \<circ> map_of (pg_items db)) = pg_arow ` ran (map_of (pg_items db))"
    by (rule ran_map_option)
  ultimately show ?thesis by (simp add: ar_rows_def pg_archive_def)
qed

lemma pg_visible:
  assumes "pg_inv db"
  shows "ar_visible (pg_archive db) = pg_arow ` {r \<in> set (pg_rows db). pg_hide_sample db r}"
proof -
  have "ar_live (pg_archive db) \<longleftrightarrow> (\<exists>r' \<in> set (pg_rows db). p_is_sample r' = False)"
    by (simp add: ar_live_def pg_ar_rows [OF assms])
  then show ?thesis
    unfolding ar_visible_def pg_ar_rows [OF assms] pg_hide_sample_def by (cases "ar_live (pg_archive db)") auto
qed

lemma pg_tags: "t |\<in>| tags (a_item (pg_arow r)) \<longleftrightarrow> t \<in> set (p_tags r)"
  by (simp add: pg_arow_def pg_feed_item_def fset_of_list.rep_eq)

lemma pg_severity: "p_severity r \<noteq> [] \<Longrightarrow> severity (a_item (pg_arow r)) = p_severity r"
  by (simp add: pg_arow_def pg_feed_item_def)

lemma pg_inv_row: "pg_inv db \<Longrightarrow> r \<in> set (pg_rows db) \<Longrightarrow> p_severity r \<noteq> [] \<and> p_patch_status r \<noteq> [] \<and> row_times_ok r
    \<and> (\<forall>t \<in> set (p_tags r). plain_tag t)"
  by (auto simp: pg_inv_def)

lemma pg_inv_tags: "pg_inv db \<Longrightarrow> r \<in> set (pg_rows db) \<Longrightarrow> p_tags r = sorted_list_of_fset (tags (a_item (pg_arow r)))"
  by (auto simp: pg_inv_def pg_arow_def pg_feed_item_def)

text \<open>The archive determines the rows, up to the order they are stored in.\<close>

lemma pg_row_by_arow:
  assumes "pg_inv d" "pg_inv e" "r \<in> set (pg_rows d)" "s \<in> set (pg_rows e)" "pg_arow r = pg_arow s"
  shows "r = s"
proof -
  have "p_tags r = p_tags s" using pg_inv_tags [OF assms(1,3)] pg_inv_tags [OF assms(2,4)] assms(5) by simp
  moreover have "p_published r = p_published s"
    using assms(5) pg_row_key [of r] pg_row_key [of s] by (simp add: pg_order_def)
  moreover have "p_severity r = p_severity s" "p_patch_status r = p_patch_status s"
    using assms(5) pg_inv_row [OF assms(1,3)] pg_inv_row [OF assms(2,4)]
    by (simp_all add: pg_arow_def pg_feed_item_def)
  ultimately show ?thesis using assms(5) by (cases r, cases s) (simp add: pg_arow_def pg_feed_item_def)
qed

lemma pg_rows_sub:
  assumes "pg_inv d" "pg_inv e" "pg_archive d = pg_archive e"
  shows "set (pg_rows d) \<subseteq> set (pg_rows e)"
proof
  fix r assume r: "r \<in> set (pg_rows d)"
  then have "pg_arow r \<in> ar_rows (pg_archive d)" unfolding pg_ar_rows [OF assms(1)] by (rule imageI)
  then have "pg_arow r \<in> pg_arow ` set (pg_rows e)" unfolding assms(3) pg_ar_rows [OF assms(2)] .
  then obtain s where s: "pg_arow r = pg_arow s" "s \<in> set (pg_rows e)" by (rule imageE)
  with pg_row_by_arow [OF assms(1,2) r] show "r \<in> set (pg_rows e)" by simp
qed

lemma pg_rows_same:
  assumes "pg_inv d" "pg_inv e" "pg_archive d = pg_archive e"
  shows "mset (pg_rows d) = mset (pg_rows e)"
proof -
  have "set (pg_rows d) = set (pg_rows e)"
    by (intro subset_antisym pg_rows_sub [OF assms] pg_rows_sub [OF assms(2,1) assms(3) [symmetric]])
  with pg_distinct_rows [OF assms(1)] pg_distinct_rows [OF assms(2)] show ?thesis
    by (simp only: set_eq_iff_mset_eq_distinct)
qed

lemma pg_matching:
  assumes "pg_inv db"
  shows "ar_matching tag sev (pg_archive db) =
    pg_arow ` {r \<in> set (pg_rows db). pg_hide_sample db r \<and> pg_clauses tag sev r}"
proof -
  have "(case given sev of None \<Rightarrow> True | Some s \<Rightarrow> severity (a_item (pg_arow r)) = s) \<longleftrightarrow>
      (case given sev of None \<Rightarrow> True | Some s \<Rightarrow> p_severity r = s)" if "r \<in> set (pg_rows db)" for r
    using pg_severity pg_inv_row [OF assms that] by (simp split: option.split)
  then show ?thesis
    unfolding ar_matching_def pg_visible [OF assms] pg_clauses_def pg_tags [symmetric]
    unfolding Compr_image_eq by (intro arg_cong [where f = "image pg_arow"] Collect_cong) auto
qed

text \<open>Any filtered, sorted and limited scan is a page of the represented rows.\<close>

lemma pg_page:
  assumes "pg_inv db" "\<And>r. key (pg_arow r) = ord r"
  shows "page key n (pg_arow ` {r \<in> set (pg_rows db). P r})
    (map pg_arow (limit_to n (sort_desc ord (filter P (pg_rows db)))))"
proof (rule page_image)
  have "distinct (filter P (pg_rows db))" using pg_distinct_rows [OF assms(1)] by (rule distinct_filter)
  from page_sort_desc [OF this, of ord n]
  show "page ord n {r \<in> set (pg_rows db). P r} (limit_to n (sort_desc ord (filter P (pg_rows db))))" by simp
  show "inj_on pg_arow {r \<in> set (pg_rows db). P r}"
    by (rule inj_on_subset [OF pg_arow_inj [OF assms(1)]]) blast
qed (rule assms(2))

lemma pg_emitted: "map (pg_row_to_item now) rs = emitted now (map pg_arow rs)"
  by (simp add: pg_row_to_item_def pg_arow_def)

lemma pg_upsert_row_step:
  assumes "pg_inv db" "item_ok item" "dt_range now"
  defines "db' \<equiv> db\<lparr>pg_items := pg_upsert_row (pg_row_of now item) (pg_items db)\<rparr>"
  shows "pg_inv db'" "pg_archive db' = ar_upsert now item (pg_archive db)"
proof -
  let ?r = "pg_row_of now item"
  let ?old = "map_of (pg_items db) (item_id item)"
  let ?new = "case ?old of None \<Rightarrow> ?r | Some old \<Rightarrow> ?r\<lparr>p_first_seen := p_first_seen old\<rparr>"
  have items: "pg_items db' = dict_set (item_id item) ?new (pg_items db)"
    by (simp add: db'_def pg_upsert_row_def)
  have old: "row_times_ok r" if "?old = Some r" for r
    using assms(1) that by (force simp: pg_inv_def map_of_in)
  have new: "p_id ?new = item_id item \<and> row_times_ok ?new \<and> p_severity ?new \<noteq> [] \<and> p_patch_status ?new \<noteq> []
      \<and> (\<forall>t \<in> set (p_tags ?new). plain_tag t) \<and> sorted_list_of_fset (fset_of_list (p_tags ?new)) = p_tags ?new"
  proof -
    have "row_times_ok ?r" using assms(2,3)
      by (auto simp: row_times_ok_def pg_row_of_def item_ok_def published_ok_def ensure_aware_utc split: option.splits)
    then show ?thesis using assms(2) old
      by (auto simp: pg_row_of_def item_ok_def row_times_ok_def sorted_fset split: option.split)
  qed
  have "set (dict_set k v d) \<subseteq> insert (k, v) (set d)" for k :: string and v :: pg_row and d
    by (induction d) auto
  with new assms(1) show "pg_inv db'"
    unfolding pg_inv_def items by (fastforce simp: db'_def)
  have "pg_arow ?new = \<lparr>a_item = stored_item item,
      a_first_seen = (case map_option pg_arow ?old of None \<Rightarrow> now | Some r \<Rightarrow> a_first_seen r), a_last_seen = now\<rparr>"
    using pg_feed_item_row [of now item]
    by (auto simp: pg_arow_def pg_feed_item_def pg_row_of_def split: option.split)
  then show "pg_archive db' = ar_upsert now item (pg_archive db)"
    by (simp add: pg_archive_def ar_upsert_def items) (simp add: db'_def fun_eq_iff)
qed

lemma pg_upsert_fold:
  assumes "pg_inv db" "list_all item_ok its" "dt_range now"
  defines "db' \<equiv> db\<lparr>pg_items := fold pg_upsert_row (map (pg_row_of now) its) (pg_items db)\<rparr>"
  shows "pg_inv db' \<and> pg_archive db' = fold (ar_upsert now) its (pg_archive db)"
  unfolding db'_def using assms(1,2)
proof (induction its arbitrary: db)
  case (Cons item its)
  let ?db1 = "db\<lparr>pg_items := pg_upsert_row (pg_row_of now item) (pg_items db)\<rparr>"
  from Cons.prems have "item_ok item" by simp
  note step = pg_upsert_row_step [OF Cons.prems(1) this assms(3)]
  from Cons.IH [OF step(1)] Cons.prems(2) step(2) show ?case by simp
qed simp

lemma pg_prune_archive:
  assumes "pg_inv db" "dt_range (instant before)"
  shows "\<exists>db' k. pg_prune_items before db = (if pg_up db then Inr (k, db') else pg_unavailable) \<and>
    pg_inv db' \<and> pg_up db' = pg_up db \<and> pg_archive db' = ar_prune (instant before) (pg_archive db)"
proof -
  let ?c = "instant before"
  define kept where "kept = filter (\<lambda>p. \<not> (\<not> p_is_sample (snd p) \<and> p_last_seen (snd p) < ?c)) (pg_items db)"
  define alerts where "alerts = filter (\<lambda>p. \<not> (snd p < ?c \<and> fst p \<notin> fst ` set kept)) (pg_alerted db)"
  define items' where "items' = (\<lambda>i. case (map_option pg_arow \<circ> map_of (pg_items db)) i of None \<Rightarrow> None
       | Some r \<Rightarrow> if \<not> is_sample (a_item r) \<and> a_last_seen r < ?c then None else Some r)"
  let ?db' = "db\<lparr>pg_items := kept, pg_alerted := alerts\<rparr>"
  have ok: "dict_ok (pg_items db)" "dict_ok (pg_alerted db)" using assms(1) by (auto simp: pg_inv_def)
  have items: "map_option pg_arow \<circ> map_of kept = items'"
    by (rule ext) (simp add: items'_def kept_def map_of_dict_filter [OF ok(1)] split: option.split)
  have keys: "i \<in> fst ` set kept \<longleftrightarrow> items' i \<noteq> None" for i
    by (simp add: items [symmetric] map_of_eq_None_iff)
  have "map_of alerts i = (case map_of (pg_alerted db) i of None \<Rightarrow> None
      | Some t \<Rightarrow> if t < ?c \<and> items' i = None then None else Some t)" for i
    unfolding alerts_def map_of_dict_filter [OF ok(2)] fst_conv snd_conv keys
    by (cases "map_of (pg_alerted db) i") auto
  then have al: "map_of alerts = (\<lambda>i. case map_of (pg_alerted db) i of None \<Rightarrow> None
      | Some t \<Rightarrow> if t < ?c \<and> items' i = None then None else Some t)" by (rule ext)
  have arch: "pg_archive ?db' = ar_prune ?c (pg_archive db)"
  proof -
    have "ar_prune ?c (pg_archive db) = \<lparr>ar_items = items', ar_alerted = (\<lambda>i. case map_of (pg_alerted db) i of None \<Rightarrow> None
      | Some t \<Rightarrow> if t < ?c \<and> items' i = None then None else Some t),
      ar_states = map_option pg_state_of \<circ> map_of (pg_states db)\<rparr>"
      unfolding items'_def ar_prune_def pg_archive_def Let_def by (simp cong: option.case_cong)
    moreover have "pg_items ?db' = kept" "pg_alerted ?db' = alerts" "pg_states ?db' = pg_states db" by simp_all
    ultimately show ?thesis by (simp only: pg_archive_def items al)
  qed
  have inv: "pg_inv ?db'"
    using assms(1) by (auto simp: pg_inv_def kept_def alerts_def intro: dict_ok_filter)
  have "pg_prune_items before db = (if pg_up db then
      Inr (length (filter (\<lambda>p. \<not> p_is_sample (snd p) \<and> p_last_seen (snd p) < ?c) (pg_items db)), ?db') else pg_unavailable)"
    unfolding kept_def alerts_def by (simp add: pg_prune_items_def Let_def pg_conn_def)
  then show ?thesis using inv arch
    by (intro exI [of _ ?db'] exI [of _ "length (filter (\<lambda>p. \<not> p_is_sample (snd p) \<and> p_last_seen (snd p) < ?c) (pg_items db))"]) simp
qed

lemma map_of_insert_new: "map_of (insert_new v k d) i = (if i = k \<and> map_of d k = None then Some v else map_of d i)"
  by (auto simp: insert_new_def split: option.split)

lemma map_of_insert_news: "map_of (fold (insert_new v) ks d) i =
    (case map_of d i of Some w \<Rightarrow> Some w | None \<Rightarrow> if i \<in> set ks then Some v else None)"
  by (induction ks arbitrary: d) (auto simp: map_of_insert_new split: option.splits)

lemma dict_ok_insert_news: "dict_ok d \<Longrightarrow> dict_ok (fold (insert_new v) ks d)"
  by (induction ks arbitrary: d) (auto simp: insert_new_def split: option.splits)

lemma set_insert_news: "set (fold (insert_new v) ks d) \<subseteq> set d \<union> UNIV \<times> {v}"
proof (induction ks arbitrary: d)
  case (Cons k ks)
  have "set (dict_set k v d) \<subseteq> insert (k, v) (set d)" for k d by (induction d) auto
  then have "set (insert_new v k d) \<subseteq> set d \<union> UNIV \<times> {v}" by (fastforce simp: insert_new_def split: option.splits)
  with Cons [of "insert_new v k d"] show ?case by auto
qed simp

lemma pg_mark_archive:
  fixes ids
  assumes "pg_inv db" "dt_range now"
  defines "db' \<equiv> db\<lparr>pg_alerted := fold (insert_new now) ids (pg_alerted db)\<rparr>"
  shows "pg_inv db' \<and> pg_archive db' = ar_mark now ids (pg_archive db)"
proof
  show "pg_inv db'"
    using assms set_insert_news [of now ids "pg_alerted db"] unfolding pg_inv_def
    by (auto simp: dict_ok_insert_news)
  show "pg_archive db' = ar_mark now ids (pg_archive db)"
    by (simp add: pg_archive_def ar_mark_def db'_def map_of_insert_news fun_eq_iff)
qed

lemma pg_state_merge:
  "pg_state_of (let ex = pg_state_row now w in
     case old of None \<Rightarrow> ex
     | Some o' \<Rightarrow> \<lparr>g_etag = coalesce (g_etag ex) (g_etag o'),
                g_last_modified = coalesce (g_last_modified ex) (g_last_modified o'),
                g_last_fetched_at = g_last_fetched_at ex,
                g_last_ok_at = coalesce (g_last_ok_at ex) (g_last_ok_at o'),
                g_last_error = g_last_error ex,
                g_last_payload = coalesce (g_last_payload ex) (g_last_payload o')\<rparr>)
   = state_after now w (map_option pg_state_of old)"
  by (cases old; cases "w_fetched_at w")
    (auto simp: Let_def pg_state_of_def pg_state_row_def state_after_def iso_now_def ensure_aware_utc
        coalesce_def split: option.splits)

lemma pg_set_archive:
  assumes "pg_inv db"
  shows "\<exists>db'. pg_set_source_state now sid w db = (if pg_up db then Inr db' else pg_unavailable) \<and>
    pg_inv db' \<and> pg_up db' = pg_up db \<and> pg_archive db' = ar_set_state now sid w (pg_archive db)"
proof -
  let ?row = "let ex = pg_state_row now w in
     case map_of (pg_states db) sid of None \<Rightarrow> ex
     | Some o' \<Rightarrow> \<lparr>g_etag = coalesce (g_etag ex) (g_etag o'),
                g_last_modified = coalesce (g_last_modified ex) (g_last_modified o'),
                g_last_fetched_at = g_last_fetched_at ex,
                g_last_ok_at = coalesce (g_last_ok_at ex) (g_last_ok_at o'),
                g_last_error = g_last_error ex,
                g_last_payload = coalesce (g_last_payload ex) (g_last_payload o')\<rparr>"
  let ?db' = "db\<lparr>pg_states := dict_set sid ?row (pg_states db)\<rparr>"
  have "pg_archive ?db' = ar_set_state now sid w (pg_archive db)"
    using pg_state_merge [of now w "map_of (pg_states db) sid"]
    by (simp add: pg_archive_def ar_set_state_def fun_eq_iff)
  moreover have "pg_inv ?db'" using assms by (simp add: pg_inv_def)
  ultimately show ?thesis
    by (intro exI [of _ ?db']) (simp add: pg_set_source_state_def Let_def pg_conn_def)
qed

lemma pg_get_archive: "pg_get_source_state sid db = pg_conn db (ar_states (pg_archive db) sid)"
  by (cases "map_of (pg_states db) sid") (simp_all add: pg_get_source_state_def pg_archive_def pg_state_of_def)

lemma pg_upsert_archive:
  assumes "pg_inv db" "pg_up db" "list_all item_ok its" "dt_range now"
  shows "\<exists>db'. pg_upsert_items now its db = Inr (length its, db') \<and> pg_inv db' \<and> pg_up db' \<and>
    pg_archive db' = fold (ar_upsert now) its (pg_archive db)"
proof (cases its)
  case Nil
  with assms show ?thesis by (simp add: pg_upsert_items_def)
next
  case (Cons it its')
  with assms pg_upsert_fold [OF assms(1,3,4)] show ?thesis
    by (simp add: pg_upsert_items_def Let_def pg_conn_def)
qed

lemma pg_down: "\<not> pg_up db \<Longrightarrow> pg_conn db x = pg_unavailable"
  by (simp add: pg_conn_def)

lemma pg_query_page:
  assumes "pg_inv db" "pg_up db"
  shows "\<exists>rs. query_feed postgres_store now tag sev n db = Inr (emitted now rs) \<and>
    page row_key n (ar_matching tag sev (pg_archive db)) rs"
  using assms pg_page [where key = row_key and ord = pg_order and db = db and n = n and
    P = "\<lambda>r. pg_hide_sample db r \<and> pg_clauses tag sev r"] pg_row_key
  by (simp add: postgres_store_def pg_query_feed_def pg_conn_def pg_emitted pg_matching [OF assms(1)] del: map_map) blast

interpretation pg: storage postgres_store pg_archive pg_inv pg_up
proof (unfold_locales, goal_cases)
  case (1 db i r)
  then show ?case by (auto simp: pg_archive_def pg_inv_def map_of_in)
next
  case (2 db)
  show ?case by (simp add: pg_archive_def dom_map_option_comp finite_dom_map_of)
next
  case (3 db its now)
  then show ?case by (simp add: postgres_store_def pg_upsert_archive)
next
  case (4 db tag now sev n)
  then show ?case using pg_query_page by blast
next
  case (5 db now n)
  have "ar_urgent (pg_archive db) = pg_arow ` {r \<in> set (pg_rows db).
      p_urgent r \<and> map_of (pg_alerted db) (p_id r) = None \<and> pg_hide_sample db r}"
    unfolding ar_urgent_def pg_visible [OF 5(1)] Compr_image_eq
    by (intro arg_cong [where f = "image pg_arow"]) (auto simp: pg_archive_def)
  moreover have "fst (row_key (pg_arow r)) = p_published r" for r by (simp add: pg_row_key pg_order_def)
  ultimately show ?case
    using 5 pg_page [where key = "\<lambda>r. fst (row_key r)" and ord = p_published and db = db and n = n and
      P = "\<lambda>r. p_urgent r \<and> map_of (pg_alerted db) (p_id r) = None \<and> pg_hide_sample db r"]
    by (simp add: postgres_store_def pg_unalerted_urgent_items_def pg_conn_def pg_emitted del: map_map) blast
next
  case (6 db now ids)
  then show ?case using pg_mark_archive [OF 6(1,3), of ids]
    by (auto simp: postgres_store_def pg_mark_alerted_def pg_conn_def ar_mark_def cong: option.case_cong)
next
  case (7 db sid)
  then show ?case by (simp add: postgres_store_def pg_get_archive pg_conn_def)
next
  case (8 db now w sid)
  then show ?case using pg_set_archive [OF 8(1), of now sid w] by (auto simp: postgres_store_def)
next
  case (9 db before)
  then show ?case using pg_prune_archive [OF 9(1,3)] by (auto simp: postgres_store_def)
qed (simp_all add: postgres_store_def pg_upsert_items_def pg_query_feed_def pg_unalerted_urgent_items_def
    pg_get_source_state_def pg_set_source_state_def pg_down pg_unavailable_def Let_def)

end
