(* ===== verification/SqliteStore.thy ===== *)
theory SqliteStore
  imports PgStore
begin

text \<open>
  \<open>app/sqlite_store.py\<close>: the SQLite adapter. Its columns are text, integers and reals: times
  are ISO texts, lists are JSON texts, booleans are 0 or 1, and the queries compare them as
  SQLite does (texts by code point, \<open>NULL\<close> before everything, \<open>LIKE\<close> up to ASCII case).
  The payload column is modelled by the value its JSON text encodes. Every operation simulates
  the one of \<open>PgStore\<close> under \<open>sq_of\<close>, so the adapter honours the same contract.
\<close>

section \<open>Tables\<close>

record sq_row =
  q_id :: string
  q_title :: string
  q_summary :: string
  q_url :: string
  q_source :: string
  q_source_url :: string
  q_published :: "string option"
  q_tags :: string
  q_cves :: string
  q_severity :: string
  q_urgent :: int
  q_kev :: int
  q_epss_score :: "rat option"
  q_is_sample :: int
  q_osv_affected :: string
  q_osv_fixed :: string
  q_osv_severity :: "string option"
  q_patch_status :: string
  q_first_seen :: string
  q_last_seen :: string

record sq_db =
  sq_items :: "(string, sq_row) dict"
  sq_alerted :: "(string, string) dict"
  sq_states :: "(string, source_state) dict"
  sq_up :: bool

definition sq_empty :: sq_db where
  "sq_empty = \<lparr>sq_items = [], sq_alerted = [], sq_states = [], sq_up = True\<rparr>"

section \<open>Operations\<close>

definition sq_unavailable :: "'a result" where
  "sq_unavailable = Inl (Exc ''OperationalError'' OtherExc ''unable to open database file'' None None)"

text \<open>\<open>with _connect()\<close>\<close>

definition sq_conn :: "sq_db \<Rightarrow> 'a \<Rightarrow> 'a result" where
  "sq_conn db x = (if sq_up db then Inr x else sq_unavailable)"

definition sq_bit :: "bool \<Rightarrow> int" where
  "sq_bit b = (if b then 1 else 0)"

definition sq_row_of :: "string \<Rightarrow> feed_item \<Rightarrow> sq_row" where
  "sq_row_of now item = \<lparr>q_id = item_id item, q_title = title item, q_summary = summary item,
     q_url = url item, q_source = source item, q_source_url = source_url item,
     q_published = iso (published item),
     q_tags = json_dumps_strs (sorted_list_of_fset (tags item)), q_cves = json_dumps_strs (cves item),
     q_severity = severity item, q_urgent = sq_bit (urgent item), q_kev = sq_bit (kev item),
     q_epss_score = epss_score item, q_is_sample = sq_bit (is_sample item),
     q_osv_affected = json_dumps_strs (osv_affected item), q_osv_fixed = json_dumps_strs (osv_fixed item),
     q_osv_severity = osv_severity item, q_patch_status = patch_status item,
     q_first_seen = now, q_last_seen = now\<rparr>"

text \<open>\<open>ON CONFLICT(id) DO UPDATE\<close> sets every column but \<open>first_seen\<close>.\<close>

definition sq_upsert_row :: "sq_row \<Rightarrow> (string, sq_row) dict \<Rightarrow> (string, sq_row) dict" where
  "sq_upsert_row r d = dict_set (q_id r)
     (case map_of d (q_id r) of None \<Rightarrow> r | Some old \<Rightarrow> r\<lparr>q_first_seen := q_first_seen old\<rparr>) d"

definition sq_upsert_items :: "int \<Rightarrow> feed_item list \<Rightarrow> sq_db \<Rightarrow> (nat \<times> sq_db) result" where
  "sq_upsert_items now items db =
     (if items = [] then Inr (0, db)
      else let rows = map (sq_row_of (iso_now now)) items
           in sq_conn db (length rows, db\<lparr>sq_items := fold sq_upsert_row rows (sq_items db)\<rparr>))"

text \<open>\<open>json.loads(text or "[]")\<close>\<close>

definition sq_loads :: "string \<Rightarrow> string list result" where
  "sq_loads s = (case json_loads_strs (if s = [] then ''[]'' else s) of
     None \<Rightarrow> raise_value ''Expecting value'' | Some xs \<Rightarrow> Inr xs)"

definition sq_published :: "sq_row \<Rightarrow> pydt option" where
  "sq_published r = (case q_published r of None \<Rightarrow> None | Some s \<Rightarrow> if s = [] then None else fromisoformat s)"

definition sq_feed_item :: "sq_row \<Rightarrow> feed_item result" where
  "sq_feed_item r =
     res_bind (sq_loads (q_tags r)) (\<lambda>ta.
     res_bind (sq_loads (q_cves r)) (\<lambda>cv.
     res_bind (sq_loads (q_osv_affected r)) (\<lambda>oa.
     res_bind (sq_loads (q_osv_fixed r)) (\<lambda>ofx.
     Inr \<lparr>item_id = q_id r, title = q_title r, summary = q_summary r, url = q_url r,
       source = q_source r, source_url = q_source_url r, published = sq_published r,
       tags = fset_of_list ta, cves = cv,
       severity = (if q_severity r = [] then ''unknown'' else q_severity r),
       urgent = (q_urgent r \<noteq> 0), kev = (q_kev r \<noteq> 0), epss_score = q_epss_score r,
       is_sample = (q_is_sample r \<noteq> 0), osv_affected = oa, osv_fixed = ofx,
       osv_severity = q_osv_severity r,
       patch_status = (if q_patch_status r = [] then ''unknown'' else q_patch_status r)\<rparr>))))"

definition sq_row_to_item :: "int \<Rightarrow> sq_row \<Rightarrow> json result" where
  "sq_row_to_item now r = res_bind (sq_feed_item r) (\<lambda>item. Inr (item_to_dict item (utc now)))"

abbreviation sq_rows :: "sq_db \<Rightarrow> sq_row list" where
  "sq_rows db \<equiv> map snd (sq_items db)"

definition sq_live_count :: "sq_db \<Rightarrow> nat" where
  "sq_live_count db = length (filter (\<lambda>r. q_is_sample r = 0) (sq_rows db))"

definition sq_sample_clause :: "sq_db \<Rightarrow> sq_row \<Rightarrow> bool" where
  "sq_sample_clause db r \<longleftrightarrow> (if 0 < sq_live_count db then q_is_sample r = 0 else True)"

definition sq_clauses :: "string option \<Rightarrow> string option \<Rightarrow> sq_row \<Rightarrow> bool" where
  "sq_clauses tag sev r \<longleftrightarrow>
     (case given tag of None \<Rightarrow> True | Some t \<Rightarrow> like ascii_lower (tag_pattern t) (q_tags r)) \<and>
     (case given sev of None \<Rightarrow> True | Some s \<Rightarrow> q_severity r = s)"

text \<open>\<open>ORDER BY published DESC, urgent DESC, last_seen DESC\<close>; \<open>NULL\<close> is the least value.\<close>

definition sq_order :: "sq_row \<Rightarrow> string option \<times> int \<times> string" where
  "sq_order r = (q_published r, q_urgent r, q_last_seen r)"

definition sq_query_feed :: "int \<Rightarrow> string option \<Rightarrow> string option \<Rightarrow> int \<Rightarrow> sq_db \<Rightarrow> json list result" where
  "sq_query_feed now tag sev n db =
     res_bind (sq_conn db (limit_to n (sort_desc sq_order
       (filter (\<lambda>r. sq_sample_clause db r \<and> sq_clauses tag sev r) (sq_rows db))))) (res_map (sq_row_to_item now))"

definition sq_text_match :: "string \<Rightarrow> sq_row \<Rightarrow> bool" where
  "sq_text_match q r \<longleftrightarrow> (let m = like ascii_lower (like_pattern q) in
     m (q_title r) \<or> m (q_summary r) \<or> m (q_source r) \<or> m (q_cves r))"

definition sq_search_feed :: "int \<Rightarrow> string \<Rightarrow> string option \<Rightarrow> string option \<Rightarrow> int \<Rightarrow> sq_db \<Rightarrow> json list result" where
  "sq_search_feed now q tag sev n db =
     (if q = [] then sq_query_feed now tag sev n db
      else res_bind (sq_conn db (limit_to n (sort_desc sq_order
        (filter (\<lambda>r. sq_sample_clause db r \<and> sq_text_match q r \<and> sq_clauses tag sev r) (sq_rows db)))))
        (res_map (sq_row_to_item now)))"

text \<open>The tag counter of \<open>stats\<close>: \<open>by_tag[tag] = by_tag.get(tag, 0) + 1\<close>.\<close>

definition bump :: "string \<Rightarrow> (string, nat) dict \<Rightarrow> (string, nat) dict" where
  "bump t d = dict_set t ((case map_of d t of None \<Rightarrow> 0 | Some n \<Rightarrow> n) + 1) d"

definition sq_stats :: "sq_db \<Rightarrow> store_stats result" where
  "sq_stats db =
     (let rows = sq_rows db; cnt = (\<lambda>P. length (filter P rows));
          total = length rows; live = sq_live_count db
      in res_bind (sq_conn db rows) (\<lambda>rows.
         res_bind (res_map (\<lambda>r. sq_loads (q_tags r)) rows) (\<lambda>tagss.
         Inr \<lparr>n_total = total, n_live = live, n_sample = total - live,
           n_urgent = cnt (\<lambda>r. q_urgent r = 1),
           by_severity = count_by (map q_severity rows),
           by_tag = fold bump (concat tagss) [],
           n_kev = cnt (\<lambda>r. q_kev r = 1 \<and> q_is_sample r = 0),
           n_epss = cnt (\<lambda>r. q_epss_score r \<noteq> None \<and> q_is_sample r = 0),
           n_osv = cnt (\<lambda>r. q_is_sample r = 0 \<and> q_osv_affected r \<notin> {''[]'', []}),
           latest_seen = max_of (map q_last_seen rows)\<rparr>)))"

definition sq_seed_if_empty :: "(string \<Rightarrow> string) \<Rightarrow> int \<Rightarrow> sq_db \<Rightarrow> (nat \<times> sq_db) result" where
  "sq_seed_if_empty sha1 now db =
     res_bind (sq_conn db (length (sq_items db))) (\<lambda>count.
       if 0 < count then Inr (0, db)
       else sq_upsert_items now (sample_items sha1 (utc now)) db)"

definition sq_unalerted_urgent_items :: "int \<Rightarrow> int \<Rightarrow> sq_db \<Rightarrow> json list result" where
  "sq_unalerted_urgent_items now n db =
     res_bind (sq_conn db (limit_to n (sort_desc q_published
       (filter (\<lambda>r. q_urgent r = 1 \<and> map_of (sq_alerted db) (q_id r) = None \<and> sq_sample_clause db r)
         (sq_rows db))))) (res_map (sq_row_to_item now))"

definition sq_mark_alerted :: "int \<Rightarrow> string list \<Rightarrow> sq_db \<Rightarrow> sq_db result" where
  "sq_mark_alerted now ids db =
     (if ids = [] then Inr db
      else sq_conn db (db\<lparr>sq_alerted := fold (insert_new (iso_now now)) ids (sq_alerted db)\<rparr>))"

definition sq_get_source_state :: "string \<Rightarrow> sq_db \<Rightarrow> source_state option result" where
  "sq_get_source_state sid db = sq_conn db (map_of (sq_states db) sid)"

definition sq_set_source_state :: "int \<Rightarrow> string \<Rightarrow> state_write \<Rightarrow> sq_db \<Rightarrow> sq_db result" where
  "sq_set_source_state now sid w db =
     (let ex = \<lparr>st_etag = w_etag w, st_last_modified = w_last_modified w,
            st_last_fetched_at = (case w_fetched_at w of None \<Rightarrow> Some (iso_now now) | Some t \<Rightarrow> iso (Some t)),
            st_last_ok_at = (if w_ok w then Some (iso_now now) else None),
            st_last_error = w_error w, st_last_payload = w_payload w\<rparr>;
          row = (case map_of (sq_states db) sid of None \<Rightarrow> ex
            | Some old \<Rightarrow> \<lparr>st_etag = coalesce (st_etag ex) (st_etag old),
                st_last_modified = coalesce (st_last_modified ex) (st_last_modified old),
                st_last_fetched_at = st_last_fetched_at ex,
                st_last_ok_at = coalesce (st_last_ok_at ex) (st_last_ok_at old),
                st_last_error = st_last_error ex,
                st_last_payload = coalesce (st_last_payload ex) (st_last_payload old)\<rparr>)
      in sq_conn db (db\<lparr>sq_states := dict_set sid row (sq_states db)\<rparr>))"

definition sq_prune_items :: "pydt \<Rightarrow> sq_db \<Rightarrow> (nat \<times> sq_db) result" where
  "sq_prune_items before db =
     (let cutoff = isoformat (ensure_aware before);
          doomed = (\<lambda>r. q_is_sample r = 0 \<and> q_last_seen r < cutoff);
          kept = filter (\<lambda>p. \<not> doomed (snd p)) (sq_items db);
          alerts = filter (\<lambda>p. \<not> (snd p < cutoff \<and> fst p \<notin> fst ` set kept)) (sq_alerted db)
      in sq_conn db (length (filter (\<lambda>p. doomed (snd p)) (sq_items db)),
                     db\<lparr>sq_items := kept, sq_alerted := alerts\<rparr>))"

definition sq_ping :: "sq_db \<Rightarrow> bool result" where
  "sq_ping db = sq_conn db True"

definition sqlite_store :: "sq_db backend" where
  "sqlite_store = \<lparr>upsert_items = sq_upsert_items, query_feed = sq_query_feed, search_feed = sq_search_feed,
     stats = sq_stats, unalerted_urgent_items = sq_unalerted_urgent_items, mark_alerted = sq_mark_alerted,
     get_source_state = sq_get_source_state, set_source_state = sq_set_source_state,
     prune_items = sq_prune_items, seed_if_empty = sq_seed_if_empty, ping = sq_ping\<rparr>"

section \<open>SQLite tables as text for PostgreSQL tables\<close>

definition sq_of_row :: "pg_row \<Rightarrow> sq_row" where
  "sq_of_row r = \<lparr>q_id = p_id r, q_title = p_title r, q_summary = p_summary r,
     q_url = p_url r, q_source = p_source r, q_source_url = p_source_url r,
     q_published = map_option iso_now (p_published r),
     q_tags = json_dumps_strs (p_tags r), q_cves = json_dumps_strs (p_cves r),
     q_severity = p_severity r, q_urgent = sq_bit (p_urgent r), q_kev = sq_bit (p_kev r),
     q_epss_score = p_epss_score r, q_is_sample = sq_bit (p_is_sample r),
     q_osv_affected = json_dumps_strs (p_osv_affected r), q_osv_fixed = json_dumps_strs (p_osv_fixed r),
     q_osv_severity = p_osv_severity r, q_patch_status = p_patch_status r,
     q_first_seen = iso_now (p_first_seen r), q_last_seen = iso_now (p_last_seen r)\<rparr>"

definition map_vals :: "('v \<Rightarrow> 'w) \<Rightarrow> ('k, 'v) dict \<Rightarrow> ('k, 'w) dict" where
  "map_vals f d = map (\<lambda>(k, v). (k, f v)) d"

definition sq_of :: "pg_db \<Rightarrow> sq_db" where
  "sq_of d = \<lparr>sq_items = map_vals sq_of_row (pg_items d), sq_alerted = map_vals iso_now (pg_alerted d),
     sq_states = map_vals pg_state_of (pg_states d), sq_up = pg_up d\<rparr>"

lemma dict_set_map_vals: "dict_set k (f v) (map_vals f d) = map_vals f (dict_set k v d)"
  by (induction d) (auto simp: map_vals_def)

lemma map_of_map_vals: "map_of (map_vals f d) k = map_option f (map_of d k)"
  by (induction d) (auto simp: map_vals_def)

lemma map_snd_map_vals: "map snd (map_vals f d) = map f (map snd d)"
  by (simp add: map_vals_def comp_def split_def)

lemma filter_map_vals: "filter P (map_vals f d) = map_vals f (filter (\<lambda>p. P (fst p, f (snd p))) d)"
  by (induction d) (auto simp: map_vals_def)

lemma length_map_vals: "length (map_vals f d) = length d"
  by (simp add: map_vals_def)

lemma keys_map_vals: "fst ` set (map_vals f d) = fst ` set d"
  by (force simp: map_vals_def)

lemma sq_of_simps [simp]:
  "sq_items (sq_of d) = map_vals sq_of_row (pg_items d)"
  "sq_alerted (sq_of d) = map_vals iso_now (pg_alerted d)"
  "sq_states (sq_of d) = map_vals pg_state_of (pg_states d)"
  "sq_up (sq_of d) = pg_up d"
  by (simp_all add: sq_of_def)

lemma sq_bit_simps [simp]: "sq_bit b = 0 \<longleftrightarrow> \<not> b" "sq_bit b = 1 \<longleftrightarrow> b" "sq_bit b \<le> sq_bit c \<longleftrightarrow> b \<le> c"
  by (simp_all add: sq_bit_def)

text \<open>ISO texts order as the instants they stand for.\<close>

lemma iso_now_less: "dt_range a \<Longrightarrow> dt_range b \<Longrightarrow> iso_now a < iso_now b \<longleftrightarrow> a < b"
  by (simp add: iso_now_def isoformat_utc_less)

lemma iso_now_le: "dt_range a \<Longrightarrow> dt_range b \<Longrightarrow> iso_now a \<le> iso_now b \<longleftrightarrow> a \<le> b"
  by (meson iso_now_less linorder_not_less)

lemma iso_now_eq: "dt_range a \<Longrightarrow> dt_range b \<Longrightarrow> iso_now a = iso_now b \<longleftrightarrow> a = b"
  by (simp add: iso_now_def isoformat_utc_eq)

definition opt_range :: "int option \<Rightarrow> bool" where
  "opt_range x \<longleftrightarrow> (case x of None \<Rightarrow> True | Some w \<Rightarrow> dt_range w)"

lemma iso_option_le:
  "opt_range x \<Longrightarrow> opt_range y \<Longrightarrow> map_option iso_now x \<le> map_option iso_now y \<longleftrightarrow> x \<le> y"
  by (cases x; cases y) (auto simp: opt_range_def iso_now_le)

lemma iso_option_eq:
  "opt_range x \<Longrightarrow> opt_range y \<Longrightarrow> map_option iso_now x = map_option iso_now y \<longleftrightarrow> x = y"
  by (cases x; cases y) (auto simp: opt_range_def iso_now_eq)

lemma row_times_opt: "row_times_ok r \<longleftrightarrow> dt_range (p_first_seen r) \<and> dt_range (p_last_seen r) \<and> opt_range (p_published r)"
  by (simp add: row_times_ok_def opt_range_def)

lemma iso_option_less:
  "opt_range x \<Longrightarrow> opt_range y \<Longrightarrow> map_option iso_now x < map_option iso_now y \<longleftrightarrow> x < y"
  by (meson iso_option_le linorder_not_less)

lemma sq_bit_less: "sq_bit b < sq_bit c \<longleftrightarrow> b < c"
  by (simp add: sq_bit_def)

lemma sq_order_le:
  assumes "row_times_ok x" "row_times_ok y"
  shows "sq_order (sq_of_row x) \<le> sq_order (sq_of_row y) \<longleftrightarrow> pg_order x \<le> pg_order y"
  using assms unfolding row_times_opt
  by (simp add: sq_order_def pg_order_def sq_of_row_def iso_option_le iso_option_less iso_now_le sq_bit_less
      del: less_bool_def le_bool_def)

text \<open>A row's text is read back as the row.\<close>

lemma iso_now_nonempty [simp]: "iso_now w \<noteq> []"
  by (simp add: iso_now_def isoformat_nonempty)

lemma sq_loads_dumps [simp]: "sq_loads (json_dumps_strs xs) = Inr xs"
  using json_loads_dumps [of xs] by (simp add: sq_loads_def json_dumps_strs_def)

lemma sq_feed_item_of_row:
  assumes "row_times_ok r"
  shows "sq_feed_item (sq_of_row r) = Inr (pg_feed_item r)"
proof -
  have "sq_published (sq_of_row r) = map_option utc (p_published r)"
    using assms by (cases "p_published r")
      (auto simp: sq_published_def sq_of_row_def row_times_ok_def iso_now_def isoformat_nonempty fromisoformat_isoformat)
  then show ?thesis
    by (simp add: sq_feed_item_def pg_feed_item_def) (simp add: sq_of_row_def)
qed

lemma sq_row_to_items:
  assumes "\<forall>r \<in> set rs. row_times_ok r"
  shows "res_map (sq_row_to_item now) (map sq_of_row rs) = Inr (map (pg_row_to_item now) rs)"
  using assms by (induction rs) (auto simp: sq_row_to_item_def sq_feed_item_of_row pg_row_to_item_def)

lemma sq_row_of: "sq_row_of (iso_now now) item = sq_of_row (pg_row_of now item)"
  by (cases "published item")
    (auto simp: sq_row_of_def pg_row_of_def sq_of_row_def iso_def iso_now_def ensure_aware_utc)

lemma sq_of_row_id [simp]: "q_id (sq_of_row r) = p_id r"
  by (simp add: sq_of_row_def)

lemma sq_upsert_row_of: "sq_upsert_row (sq_of_row r) (map_vals sq_of_row d) = map_vals sq_of_row (pg_upsert_row r d)"
proof -
  let ?new = "case map_of d (p_id r) of None \<Rightarrow> r | Some old \<Rightarrow> r\<lparr>p_first_seen := p_first_seen old\<rparr>"
  have "(case map_option sq_of_row (map_of d (p_id r)) of None \<Rightarrow> sq_of_row r
      | Some old \<Rightarrow> (sq_of_row r)\<lparr>q_first_seen := q_first_seen old\<rparr>) = sq_of_row ?new"
    by (auto simp: sq_of_row_def split: option.split)
  then show ?thesis
    by (simp add: sq_upsert_row_def pg_upsert_row_def map_of_map_vals dict_set_map_vals)
qed

lemma sq_upsert_rows_of:
  "fold sq_upsert_row (map sq_of_row rs) (map_vals sq_of_row d) = map_vals sq_of_row (fold pg_upsert_row rs d)"
  by (induction rs arbitrary: d) (auto simp: sq_upsert_row_of)

section \<open>Each operation simulates its counterpart\<close>

lemma sq_rows_of_items: "map (sq_row_of (iso_now now)) its = map sq_of_row (map (pg_row_of now) its)"
  by (simp add: sq_row_of)

lemma sq_upsert_sim:
  "pg_upsert_items now its d = Inr (k, d') \<Longrightarrow> sq_upsert_items now its (sq_of d) = Inr (k, sq_of d')"
  by (auto simp: pg_upsert_items_def sq_upsert_items_def Let_def pg_conn_def sq_conn_def sq_rows_of_items
      sq_upsert_rows_of pg_unavailable_def sq_of_def
      simp del: map_map split: if_splits)

lemma sq_rows_of: "sq_rows (sq_of d) = map sq_of_row (pg_rows d)"
  by (simp add: map_snd_map_vals)

lemma sq_sample_clause_of: "r \<in> set (pg_rows d) \<Longrightarrow> sq_sample_clause (sq_of d) (sq_of_row r) \<longleftrightarrow> pg_hide_sample d r"
  unfolding sq_sample_clause_def pg_hide_sample_def sq_live_count_def sq_rows_of
  by (auto simp: sq_of_row_def filter_map comp_def filter_empty_conv)

lemma tag_char_facts:
  assumes "tag_char c" shows "json_plain c" "ascii_lower c = c"
  using assms by (auto simp: tag_char_def json_plain_def ascii_lower_def is_digit_def cp_def)

lemma plain_tag_facts:
  assumes "plain_tag t" shows "list_all json_plain t" "map ascii_lower t = t" "t \<noteq> '', ''"
proof -
  show "list_all json_plain t" "map ascii_lower t = t"
    using assms tag_char_facts by (auto simp: plain_tag_def list_all_iff intro: map_idI)
  have "\<not> tag_char CHR '',''" by (simp add: tag_char_def is_digit_def cp_def)
  with assms show "t \<noteq> '', ''" by (auto simp: plain_tag_def)
qed

lemma sq_tag_like:
  assumes "\<forall>t \<in> set ts. plain_tag t" "plain_tag t"
  shows "like ascii_lower (tag_pattern t) (json_dumps_strs ts) \<longleftrightarrow> t \<in> set ts"
proof (rule tag_filter)
  show "list_all (list_all json_plain) ts" using assms(1) plain_tag_facts by (auto simp: list_all_iff)
qed (use assms plain_tag_facts in auto)

lemma sq_clauses_of:
  assumes "\<forall>t \<in> set (p_tags r). plain_tag t" "\<And>t. given tag = Some t \<Longrightarrow> plain_tag t"
  shows "sq_clauses tag sev (sq_of_row r) \<longleftrightarrow> pg_clauses tag sev r"
  using assms by (simp add: sq_clauses_def pg_clauses_def sq_of_row_def sq_tag_like split: option.split)

text \<open>A sorted, limited scan.\<close>

lemma sq_scan_sim:
  assumes "pg_inv d" "\<And>r. r \<in> set (pg_rows d) \<Longrightarrow> P (sq_of_row r) \<longleftrightarrow> Q r"
    and "\<And>x y. x \<in> set (pg_rows d) \<Longrightarrow> y \<in> set (pg_rows d) \<Longrightarrow> f (sq_of_row x) \<le> f (sq_of_row y) \<longleftrightarrow> g x \<le> g y"
  shows "res_map (sq_row_to_item now) (limit_to n (sort_desc f (filter P (sq_rows (sq_of d)))))
    = Inr (map (pg_row_to_item now) (limit_to n (sort_desc g (filter Q (pg_rows d)))))"
proof -
  have "filter P (sq_rows (sq_of d)) = map sq_of_row (filter Q (pg_rows d))"
    unfolding sq_rows_of filter_map [of P sq_of_row] using assms(2)
    by (intro arg_cong [where f = "map sq_of_row"] filter_cong) (simp_all only: comp_apply)
  moreover have "sort_desc (f \<circ> sq_of_row) (filter Q (pg_rows d)) = sort_desc g (filter Q (pg_rows d))"
    using assms(3) by (intro sort_desc_cong_order) auto
  moreover have "\<forall>r \<in> set (limit_to n (sort_desc g (filter Q (pg_rows d)))). row_times_ok r"
    using set_limit_to [of n "sort_desc g (filter Q (pg_rows d))"] pg_inv_row [OF assms(1)] by auto
  ultimately show ?thesis by (simp add: sort_desc_map limit_to_map sq_row_to_items)
qed

lemma sq_query_sim:
  assumes "pg_inv d" "\<And>t. given tag = Some t \<Longrightarrow> plain_tag t" "pg_up d"
  shows "sq_query_feed now tag sev n (sq_of d) = pg_query_feed now tag sev n d"
proof -
  have "sq_sample_clause (sq_of d) (sq_of_row r) \<and> sq_clauses tag sev (sq_of_row r) \<longleftrightarrow>
      pg_hide_sample d r \<and> pg_clauses tag sev r" if "r \<in> set (pg_rows d)" for r
    using that pg_inv_row [OF assms(1) that] assms(2) by (simp add: sq_sample_clause_of sq_clauses_of)
  moreover have "sq_order (sq_of_row x) \<le> sq_order (sq_of_row y) \<longleftrightarrow> pg_order x \<le> pg_order y"
    if "x \<in> set (pg_rows d)" "y \<in> set (pg_rows d)" for x y
    using that pg_inv_row [OF assms(1)] by (simp add: sq_order_le)
  ultimately show ?thesis
    using assms(3) unfolding sq_query_feed_def pg_query_feed_def
    by (simp only: sq_conn_def pg_conn_def sq_of_simps(4) if_True res_bind.simps sq_scan_sim [OF assms(1)])
qed

lemma sq_unalerted_sim:
  assumes "pg_inv d" "pg_up d"
  shows "sq_unalerted_urgent_items now n (sq_of d) = pg_unalerted_urgent_items now n d"
proof -
  have "q_urgent (sq_of_row r) = 1 \<and> map_of (sq_alerted (sq_of d)) (q_id (sq_of_row r)) = None \<and>
      sq_sample_clause (sq_of d) (sq_of_row r) \<longleftrightarrow>
      p_urgent r \<and> map_of (pg_alerted d) (p_id r) = None \<and> pg_hide_sample d r" if "r \<in> set (pg_rows d)" for r
    using that by (simp add: sq_sample_clause_of map_of_map_vals) (simp add: sq_of_row_def)
  moreover have "q_published (sq_of_row x) \<le> q_published (sq_of_row y) \<longleftrightarrow> p_published x \<le> p_published y"
    if "x \<in> set (pg_rows d)" "y \<in> set (pg_rows d)" for x y
    using that pg_inv_row [OF assms(1)] by (simp add: sq_of_row_def row_times_opt iso_option_le)
  ultimately show ?thesis
    using assms(2) unfolding sq_unalerted_urgent_items_def pg_unalerted_urgent_items_def
    by (simp only: sq_conn_def pg_conn_def sq_of_simps(4) if_True res_bind.simps sq_scan_sim [OF assms(1)])
qed

lemma insert_new_map_vals: "insert_new (f v) k (map_vals f d) = map_vals f (insert_new v k d)"
  by (auto simp: insert_new_def map_of_map_vals dict_set_map_vals split: option.split)

lemma sq_mark_sim: "pg_mark_alerted now ids d = Inr d' \<Longrightarrow> sq_mark_alerted now ids (sq_of d) = Inr (sq_of d')"
proof -
  have "fold (insert_new (iso_now now)) ids (map_vals iso_now d) = map_vals iso_now (fold (insert_new now) ids d)" for d :: "(string \<times> int) list"
    by (induction ids arbitrary: d) (auto simp: insert_new_map_vals)
  then show "pg_mark_alerted now ids d = Inr d' \<Longrightarrow> sq_mark_alerted now ids (sq_of d) = Inr (sq_of d')"
    by (auto simp: pg_mark_alerted_def sq_mark_alerted_def pg_conn_def sq_conn_def pg_unavailable_def sq_of_def
        split: if_splits)
qed

lemma sq_get_sim: "pg_up d \<Longrightarrow> sq_get_source_state sid (sq_of d) = pg_get_source_state sid d"
  by (cases "map_of (pg_states d) sid")
    (simp_all add: sq_get_source_state_def pg_get_source_state_def sq_conn_def pg_conn_def map_of_map_vals pg_state_of_def)

lemma sq_set_sim:
  assumes "pg_set_source_state now sid w d = Inr d'"
  shows "sq_set_source_state now sid w (sq_of d) = Inr (sq_of d')"
proof -
  have ex: "\<lparr>st_etag = w_etag w, st_last_modified = w_last_modified w,
            st_last_fetched_at = (case w_fetched_at w of None \<Rightarrow> Some (iso_now now) | Some t \<Rightarrow> iso (Some t)),
            st_last_ok_at = (if w_ok w then Some (iso_now now) else None),
            st_last_error = w_error w, st_last_payload = w_payload w\<rparr> = pg_state_of (pg_state_row now w)"
    by (auto simp: pg_state_of_def pg_state_row_def iso_def iso_now_def ensure_aware_utc split: option.split)
  have co: "coalesce (map_option f a) (map_option f b) = map_option f (coalesce a b)" for f :: "int \<Rightarrow> string" and a b
    by (simp add: coalesce_def split: option.split)
  show ?thesis
    using assms unfolding sq_set_source_state_def ex Let_def pg_set_source_state_def
    by (cases "map_of (pg_states d) sid")
      (auto simp: pg_conn_def sq_conn_def pg_unavailable_def map_of_map_vals sq_of_def co pg_state_of_def
        simp flip: dict_set_map_vals split: if_splits)
qed

lemma sq_prune_sim:
  assumes "pg_inv d" "dt_range (instant before)" "pg_prune_items before d = Inr (k, d')"
  shows "sq_prune_items before (sq_of d) = Inr (k, sq_of d')"
proof -
  let ?doomed = "\<lambda>r. \<not> p_is_sample r \<and> p_last_seen r < instant before"
  have cut: "isoformat (ensure_aware before) = iso_now (instant before)"
    by (simp add: iso_now_def ensure_aware_utc)
  have doomed: "q_is_sample (sq_of_row (snd p)) = 0 \<and> q_last_seen (sq_of_row (snd p)) < iso_now (instant before)
      \<longleftrightarrow> ?doomed (snd p)" if "p \<in> set (pg_items d)" for p
    using that assms(1,2) by (auto simp: sq_of_row_def pg_inv_def row_times_ok_def iso_now_less)
  have kept: "filter (\<lambda>p. \<not> (q_is_sample (snd p) = 0 \<and> q_last_seen (snd p) < iso_now (instant before))) (map_vals sq_of_row (pg_items d))
      = map_vals sq_of_row (filter (\<lambda>p. \<not> ?doomed (snd p)) (pg_items d))"
    unfolding filter_map_vals by (intro arg_cong [where f = "map_vals sq_of_row"] filter_cong) (use doomed in auto)
  have gone: "length (filter (\<lambda>p. q_is_sample (snd p) = 0 \<and> q_last_seen (snd p) < iso_now (instant before)) (map_vals sq_of_row (pg_items d)))
      = length (filter (\<lambda>p. ?doomed (snd p)) (pg_items d))"
    unfolding filter_map_vals length_map_vals
    by (intro arg_cong [where f = length] filter_cong) (use doomed in auto)
  have alerts: "filter (\<lambda>p. \<not> (snd p < iso_now (instant before) \<and> fst p \<notin> S)) (map_vals iso_now (pg_alerted d))
      = map_vals iso_now (filter (\<lambda>p. \<not> (snd p < instant before \<and> fst p \<notin> S)) (pg_alerted d))" for S
    unfolding filter_map_vals using assms(1,2)
    by (intro arg_cong [where f = "map_vals iso_now"] filter_cong) (auto simp: pg_inv_def iso_now_less)
  show ?thesis
    using assms(3) unfolding sq_prune_items_def Let_def cut sq_of_simps kept gone alerts keys_map_vals
    by (auto simp: pg_prune_items_def Let_def pg_conn_def sq_conn_def pg_unavailable_def sq_of_def split: if_splits)
qed

section \<open>The contract\<close>

definition sq_arow :: "sq_row \<Rightarrow> arow option" where
  "sq_arow r = (case (sq_feed_item r, fromisoformat (q_first_seen r), fromisoformat (q_last_seen r)) of
     (Inr item, Some f, Some l) \<Rightarrow> Some \<lparr>a_item = item, a_first_seen = instant f, a_last_seen = instant l\<rparr>
   | _ \<Rightarrow> None)"

definition sq_archive :: "sq_db \<Rightarrow> archive" where
  "sq_archive db = \<lparr>
     ar_items = (\<lambda>i. case map_of (sq_items db) i of None \<Rightarrow> None | Some r \<Rightarrow> sq_arow r),
     ar_alerted = (\<lambda>i. case map_of (sq_alerted db) i of None \<Rightarrow> None | Some s \<Rightarrow> map_option instant (fromisoformat s)),
     ar_states = map_of (sq_states db)\<rparr>"

definition sq_inv :: "sq_db \<Rightarrow> bool" where
  "sq_inv db \<longleftrightarrow> (\<exists>d. pg_inv d \<and> db = sq_of d)"

lemma sq_arow_of: "row_times_ok r \<Longrightarrow> sq_arow (sq_of_row r) = Some (pg_arow r)"
  by (simp add: sq_arow_def sq_feed_item_of_row pg_arow_def)
    (simp add: sq_of_row_def row_times_ok_def iso_now_def fromisoformat_isoformat)

lemma sq_archive_of:
  assumes "pg_inv d" shows "sq_archive (sq_of d) = pg_archive d"
proof -
  have i: "(case map_of (map_vals sq_of_row (pg_items d)) i of None \<Rightarrow> None | Some r \<Rightarrow> sq_arow r)
      = (map_option pg_arow \<circ> map_of (pg_items d)) i" for i
  proof (cases "map_of (pg_items d) i")
    case (Some r)
    then have "row_times_ok r" using assms by (force simp: pg_inv_def map_of_in)
    with Some show ?thesis by (simp add: map_of_map_vals sq_arow_of)
  qed (simp add: map_of_map_vals)
  have a: "(case map_of (map_vals iso_now (pg_alerted d)) i of None \<Rightarrow> None
      | Some s \<Rightarrow> map_option instant (fromisoformat s)) = map_of (pg_alerted d) i" for i
  proof (cases "map_of (pg_alerted d) i")
    case (Some t)
    then have "dt_range t" using assms by (force simp: pg_inv_def map_of_in)
    with Some show ?thesis by (simp add: map_of_map_vals iso_now_def fromisoformat_isoformat)
  qed (simp add: map_of_map_vals)
  have "map_of (map_vals pg_state_of (pg_states d)) = map_option pg_state_of \<circ> map_of (pg_states d)"
    by (simp add: fun_eq_iff map_of_map_vals)
  then show ?thesis unfolding sq_archive_def sq_of_simps i a pg_archive_def by (simp add: comp_def)
qed

interpretation sq: storage sqlite_store sq_archive sq_inv sq_up
proof (unfold_locales, goal_cases)
  case (1 db i r)
  then show ?case using pg.keyed by (auto simp: sq_inv_def sq_archive_of)
next
  case (2 db)
  then show ?case using pg.finite_items by (auto simp: sq_inv_def sq_archive_of)
next
  case (3 db its now)
  from 3 obtain d where d: "pg_inv d" "db = sq_of d" "pg_up d" by (auto simp: sq_inv_def)
  from pg_upsert_archive [OF d(1,3) 3(3,4)] obtain d' where
    "pg_upsert_items now its d = Inr (length its, d')" "pg_inv d'" "pg_up d'"
    "pg_archive d' = fold (ar_upsert now) its (pg_archive d)" by blast
  with d show ?case
    by (intro exI [of _ "sq_of d'"]) (auto simp: sqlite_store_def sq_upsert_sim sq_inv_def sq_archive_of)
next
  case (4 db tag now sev n)
  from 4 obtain d where d: "pg_inv d" "db = sq_of d" "pg_up d" by (auto simp: sq_inv_def)
  from pg.query [OF d(1,3), of tag now sev n] 4(3) sq_query_sim [OF d(1) _ d(3), of tag now sev n]
  show ?case by (simp add: sqlite_store_def postgres_store_def d sq_archive_of)
next
  case (5 db now n)
  from 5 obtain d where d: "pg_inv d" "db = sq_of d" "pg_up d" by (auto simp: sq_inv_def)
  from pg.unalerted [OF d(1,3), of now n] sq_unalerted_sim [OF d(1,3), of now n]
  show ?case by (simp add: sqlite_store_def postgres_store_def d sq_archive_of)
next
  case (6 db now ids)
  from 6 obtain d where d: "pg_inv d" "db = sq_of d" "pg_up d" by (auto simp: sq_inv_def)
  from pg.mark [OF d(1,3) 6(3), of ids] obtain d' where
    "pg_mark_alerted now ids d = Inr d'" "pg_inv d'" "pg_up d'" "pg_archive d' = ar_mark now ids (pg_archive d)"
    by (auto simp: postgres_store_def)
  with d show ?case
    by (intro exI [of _ "sq_of d'"]) (auto simp: sqlite_store_def sq_mark_sim sq_inv_def sq_archive_of)
next
  case (7 db sid)
  from 7 obtain d where d: "pg_inv d" "db = sq_of d" "pg_up d" by (auto simp: sq_inv_def)
  with pg.get_state [OF d(1,3), of sid] show ?case
    by (simp add: sqlite_store_def postgres_store_def sq_get_sim sq_archive_of)
next
  case (8 db now w sid)
  from 8 obtain d where d: "pg_inv d" "db = sq_of d" "pg_up d" by (auto simp: sq_inv_def)
  from pg.set_state [OF d(1,3) 8(3) 8(4), of w sid] obtain d' where
    "pg_set_source_state now sid w d = Inr d'" "pg_inv d'" "pg_up d'" "pg_archive d' = ar_set_state now sid w (pg_archive d)"
    by (auto simp: postgres_store_def)
  with d show ?case
    by (intro exI [of _ "sq_of d'"]) (auto simp: sqlite_store_def sq_set_sim sq_inv_def sq_archive_of)
next
  case (9 db before)
  from 9 obtain d where d: "pg_inv d" "db = sq_of d" "pg_up d" by (auto simp: sq_inv_def)
  from pg.prune [OF d(1,3) 9(3)] obtain d' k where
    "pg_prune_items before d = Inr (k, d')" "pg_inv d'" "pg_up d'" "pg_archive d' = ar_prune (instant before) (pg_archive d)"
    by (auto simp: postgres_store_def)
  with d sq_prune_sim [OF d(1) 9(3)] show ?case
    by (intro exI [of _ "sq_of d'"] exI [of _ k]) (auto simp: sqlite_store_def sq_inv_def sq_archive_of)
qed (simp_all add: sqlite_store_def sq_upsert_items_def sq_query_feed_def sq_unalerted_urgent_items_def
    sq_get_source_state_def sq_set_source_state_def sq_conn_def sq_unavailable_def Let_def)

section \<open>The counters of both adapters agree\<close>

lemma count_by_keys: "map_of (count_by xs) t = (if t \<in> set xs then Some (count_list xs t) else None)"
  by (auto simp: count_by_def map_of_map_restrict [of "count_list xs" "from_keys xs", unfolded o_def] restrict_map_def)

lemma from_keys_snoc: "from_keys (xs @ [x]) = (if x \<in> set xs then from_keys xs else from_keys xs @ [x])"
  by (simp add: from_keys_append)

lemma dict_set_new: "k \<notin> fst ` set d \<Longrightarrow> dict_set k v d = d @ [(k, v)]"
  by (induction d) auto

lemma dict_set_map: "distinct ks \<Longrightarrow> k \<in> set ks \<Longrightarrow>
  dict_set k v (map (\<lambda>x. (x, f x)) ks) = map (\<lambda>x. (x, if x = k then v else f x)) ks"
proof (induction ks)
  case (Cons a ks)
  show ?case
  proof (cases "a = k")
    case True
    with Cons.prems have "map (\<lambda>x. (x, if x = k then v else f x)) ks = map (\<lambda>x. (x, f x)) ks" by auto
    with True show ?thesis by simp
  qed (use Cons in auto)
qed simp

lemma bump_count_by: "bump x (count_by xs) = count_by (xs @ [x])"
proof (cases "x \<in> set xs")
  case True
  then have "bump x (count_by xs) = dict_set x (count_list xs x + 1) (count_by xs)"
    by (simp add: bump_def count_by_keys)
  also have "\<dots> = count_by (xs @ [x])"
    unfolding count_by_def using True by (subst dict_set_map) (auto simp: from_keys_snoc)
  finally show ?thesis .
next
  case False
  then have "map_of (count_by xs) x = None" by (simp add: count_by_keys)
  moreover from this have "x \<notin> fst ` set (count_by xs)" by (simp add: map_of_eq_None_iff)
  ultimately show ?thesis
    using False by (simp add: bump_def dict_set_new)
      (auto simp: count_by_def from_keys_append count_list_0_iff)
qed

lemma fold_bump: "fold bump xs (count_by ys) = count_by (ys @ xs)"
  by (induction xs arbitrary: ys) (auto simp: bump_count_by)

lemma max_of_iso:
  "\<forall>x \<in> set xs. dt_range x \<Longrightarrow> max_of (map iso_now xs) = map_option iso_now (max_of xs)"
proof (cases xs)
  case (Cons y ys)
  assume r: "\<forall>x \<in> set xs. dt_range x"
  have "dt_range a \<Longrightarrow> \<forall>x \<in> set zs. dt_range x \<Longrightarrow> fold max (map iso_now zs) (iso_now a) = iso_now (fold max zs a)" for a zs
  proof (induction zs arbitrary: a)
    case (Cons z zs)
    have "max (iso_now z) (iso_now a) = iso_now (max z a)" "dt_range (max z a)"
      using Cons.prems by (auto simp: max_def iso_now_le)
    with Cons show ?case by simp
  qed simp
  with r Cons show ?thesis by (simp add: max_of_def)
qed (simp add: max_of_def)

lemma filter_sq_count: "(\<And>r. r \<in> set rs \<Longrightarrow> P (sq_of_row r) \<longleftrightarrow> Q r) \<Longrightarrow>
    length (filter P (map sq_of_row rs)) = length (filter Q rs)"
  by (induction rs) auto

lemma res_map_loads: "res_map (\<lambda>r. sq_loads (q_tags r)) (map sq_of_row rs) = Inr (map p_tags rs)"
  by (induction rs) (auto simp: sq_of_row_def)

lemma dumps_empty: "json_dumps_strs xs \<notin> {''[]'', []} \<longleftrightarrow> xs \<noteq> []"
proof -
  have "xs = []" if "json_dumps_strs xs = ''[]''"
    using json_loads_dumps [of xs] unfolding that by (simp add: json_loads_strs_def)
  moreover have "json_dumps_strs xs \<noteq> []" by (simp add: json_dumps_strs_def)
  moreover have "json_dumps_strs [] = ''[]''" by (simp add: json_dumps_strs_def)
  ultimately show ?thesis by auto
qed

lemma sq_stats_sim:
  assumes "pg_inv d" "pg_up d"
  shows "sq_stats (sq_of d) = pg_stats d"
proof -
  let ?rs = "pg_rows d"
  have live: "sq_live_count (sq_of d) = length (filter (\<lambda>r. \<not> p_is_sample r) ?rs)"
    unfolding sq_live_count_def sq_rows_of by (rule filter_sq_count) (simp add: sq_of_row_def)
  have counts:
    "length (filter (\<lambda>r. q_urgent r = 1) (map sq_of_row ?rs)) = length (filter p_urgent ?rs)"
    "length (filter (\<lambda>r. q_kev r = 1 \<and> q_is_sample r = 0) (map sq_of_row ?rs)) = length (filter (\<lambda>r. p_kev r \<and> \<not> p_is_sample r) ?rs)"
    "length (filter (\<lambda>r. q_epss_score r \<noteq> None \<and> q_is_sample r = 0) (map sq_of_row ?rs))
      = length (filter (\<lambda>r. p_epss_score r \<noteq> None \<and> \<not> p_is_sample r) ?rs)"
    "length (filter (\<lambda>r. q_is_sample r = 0 \<and> q_osv_affected r \<notin> {''[]'', []}) (map sq_of_row ?rs))
      = length (filter (\<lambda>r. \<not> p_is_sample r \<and> p_osv_affected r \<noteq> []) ?rs)"
    by (rule filter_sq_count; simp only: sq_of_row_def sq_row.simps sq_bit_simps dumps_empty)+
  have sev: "map q_severity (map sq_of_row ?rs) = map p_severity ?rs" by (simp add: sq_of_row_def)
  have last: "max_of (map q_last_seen (map sq_of_row ?rs)) = map_option iso_now (max_of (map p_last_seen ?rs))"
    using max_of_iso [of "map p_last_seen ?rs"] pg_inv_row [OF assms(1)]
    by (simp add: sq_of_row_def comp_def row_times_ok_def)
  have tags: "fold bump (concat (map p_tags ?rs)) [] = count_by (concat (map p_tags ?rs))"
    using fold_bump [of _ "[]"] by (simp add: count_by_def)
  show ?thesis
    unfolding sq_stats_def pg_stats_def Let_def sq_conn_def pg_conn_def sq_of_simps(4) sq_rows_of live counts sev last
    using assms(2) by (simp only: if_True res_bind.simps res_map_loads tags counts sev last) simp
qed

lemma max_of_set:
  assumes "set xs = set ys" shows "max_of xs = max_of (ys :: 'a::linorder list)"
proof -
  have "max_of zs = (if set zs = {} then None else Some (Max (set zs)))" for zs :: "'a list"
    by (cases zs) (simp_all add: max_of_def Max.set_eq_fold del: set_simps)
  then show ?thesis by (simp only: assms)
qed

text \<open>The order of the rows does not matter for the counters.\<close>

lemma pg_stats_same:
  assumes "pg_inv d" "pg_inv e" "pg_archive d = pg_archive e" "pg_up d" "pg_up e"
  obtains s s' where "pg_stats d = Inr s" "pg_stats e = Inr s'"
    "s'\<lparr>by_severity := by_severity s, by_tag := by_tag s\<rparr> = s"
    "map_of (by_severity s') = map_of (by_severity s)" "map_of (by_tag s') = map_of (by_tag s)"
proof -
  have m: "mset (pg_rows d) = mset (pg_rows e)" by (rule pg_rows_same [OF assms(1-3)])
  have cnt: "length (filter P (pg_rows d)) = length (filter P (pg_rows e))" for P
    using m by (metis mset_filter size_mset)
  have mm: "mset (map f (pg_rows d)) = mset (map f (pg_rows e))" for f :: "pg_row \<Rightarrow> 'c"
    using m by (metis mset_map)
  have cc: "mset (concat (map p_tags (pg_rows d))) = mset (concat (map p_tags (pg_rows e)))"
    using mm [of "mset \<circ> p_tags"] by (metis (no_types) map_map mset_concat sum_mset_sum_list)
  have cb: "map_of (count_by xs) = map_of (count_by ys)" if "mset xs = mset ys" for xs ys
    using that by (auto simp: count_by_keys fun_eq_iff set_mset_mset [symmetric] count_mset [symmetric] simp del: set_mset_mset)
  have last: "max_of (map p_last_seen (pg_rows d)) = max_of (map p_last_seen (pg_rows e))"
    by (rule max_of_set) (rule mset_eq_setD [OF mm])
  show ?thesis
  proof (rule that)
    show "pg_stats d = Inr (projr (pg_stats d))" "pg_stats e = Inr (projr (pg_stats e))"
      using assms(4,5) by (simp_all add: pg_stats_def Let_def pg_conn_def)
  qed (use assms(4,5) cnt cnt [of "\<lambda>_. True"] last cb [OF mm [of p_severity]] cb [OF cc] in \<open>simp_all add: pg_stats_def Let_def pg_conn_def\<close>)
qed

section \<open>Properties\<close>

text \<open>A database with one live item and one sample, for the witnesses.\<close>

definition demo_items :: "feed_item list" where
  "demo_items =
     [(new_item ''a'' ''runc escape'' [] [] ''src'' [] (Some (utc 5)))
        \<lparr>tags := {|''linux''|}, severity := ''high'', urgent := True\<rparr>,
      (new_item ''b'' ''sample'' [] [] ''src'' [] None)\<lparr>is_sample := True\<rparr>]"

definition demo_db :: pg_db where
  "demo_db = pg_empty\<lparr>pg_items := fold pg_upsert_row (map (pg_row_of 7) demo_items) []\<rparr>"

lemma demo_ok: "list_all item_ok demo_items"
  by (simp add: demo_items_def item_ok_def new_item_def published_ok_def dt_range_def us_day_def
      plain_tag_def tag_char_def is_digit_def cp_def)

lemma demo_inv: "pg_inv demo_db" "pg_up demo_db" "sq_inv (sq_of demo_db)" "sq_up (sq_of demo_db)"
proof -
  have "dt_range 7" by (simp add: dt_range_def us_day_def)
  from pg_upsert_fold [OF pg_inv_empty demo_ok this] show "pg_inv demo_db"
    by (simp add: demo_db_def pg_empty_def)
  then show "sq_inv (sq_of demo_db)" by (auto simp: sq_inv_def)
  show "pg_up demo_db" "sq_up (sq_of demo_db)" by (simp_all add: demo_db_def pg_empty_def)
qed



text \<open>What the tag clause of SQLite compares: the quoted tag is a part of the stored JSON text, up to
  ASCII case.\<close>

definition ar_text_matching :: "string option \<Rightarrow> string option \<Rightarrow> archive \<Rightarrow> arow set" where
  "ar_text_matching tag sev A = {r \<in> ar_visible A.
     (case given tag of None \<Rightarrow> True | Some t \<Rightarrow> sublist (map ascii_lower (CHR 0x22 # t @ [CHR 0x22]))
        (map ascii_lower (json_dumps_strs (sorted_list_of_fset (tags (a_item r)))))) \<and>
     (case given sev of None \<Rightarrow> True | Some s \<Rightarrow> severity (a_item r) = s)}"

lemma sq_query_page:
  assumes "pg_inv d" "pg_up d"
  shows "\<exists>rs. query_feed sqlite_store now tag sev n (sq_of d) = Inr (emitted now rs) \<and>
    page row_key n (ar_text_matching tag sev (pg_archive d)) rs"
proof -
  define Q where "Q r \<longleftrightarrow> pg_hide_sample d r \<and> sq_clauses tag sev (sq_of_row r)" for r
  have "sq_sample_clause (sq_of d) (sq_of_row r) \<and> sq_clauses tag sev (sq_of_row r) \<longleftrightarrow> Q r" if "r \<in> set (pg_rows d)" for r
    using that by (simp add: sq_sample_clause_of Q_def)
  moreover have "sq_order (sq_of_row x) \<le> sq_order (sq_of_row y) \<longleftrightarrow> pg_order x \<le> pg_order y"
    if "x \<in> set (pg_rows d)" "y \<in> set (pg_rows d)" for x y
    using that pg_inv_row [OF assms(1)] by (simp add: sq_order_le)
  ultimately have "sq_query_feed now tag sev n (sq_of d) =
      Inr (map (pg_row_to_item now) (limit_to n (sort_desc pg_order (filter Q (pg_rows d)))))"
    using assms(2) unfolding sq_query_feed_def
    by (simp only: sq_conn_def sq_of_simps(4) if_True res_bind.simps sq_scan_sim [OF assms(1)])
  moreover have "pg_arow ` {r \<in> set (pg_rows d). Q r} = ar_text_matching tag sev (pg_archive d)"
  proof -
    have "sq_clauses tag sev (sq_of_row r) \<longleftrightarrow>
       (case given tag of None \<Rightarrow> True | Some t \<Rightarrow> sublist (map ascii_lower (CHR 0x22 # t @ [CHR 0x22]))
          (map ascii_lower (json_dumps_strs (sorted_list_of_fset (tags (a_item (pg_arow r))))))) \<and>
       (case given sev of None \<Rightarrow> True | Some s \<Rightarrow> severity (a_item (pg_arow r)) = s)" if "r \<in> set (pg_rows d)" for r
      using pg_inv_tags [OF assms(1) that] pg_inv_row [OF assms(1) that]
      by (auto simp: sq_clauses_def tag_pattern_eq like_pattern_iff contains_iff_sublist sq_of_row_def pg_severity split: option.split)
    then show ?thesis
      unfolding ar_text_matching_def pg_visible [OF assms(1)] Q_def Compr_image_eq
      by (intro arg_cong [where f = "image pg_arow"] Collect_cong) auto
  qed
  ultimately show ?thesis
    using pg_page [where key = row_key and ord = pg_order and db = d and n = n and P = Q, OF assms(1) pg_row_key]
    by (simp add: sqlite_store_def pg_emitted del: map_map) blast
qed

lemma text_matching_plain:
  assumes "sq_inv db" "\<And>t. given tag = Some t \<Longrightarrow> plain_tag t"
  shows "ar_text_matching tag sev (sq_archive db) = ar_matching tag sev (sq_archive db)"
proof -
  obtain d where d: "pg_inv d" "db = sq_of d" using assms(1) by (auto simp: sq_inv_def)
  have "sublist (map ascii_lower (CHR 0x22 # t @ [CHR 0x22])) (map ascii_lower (json_dumps_strs (sorted_list_of_fset (tags (a_item r)))))
      \<longleftrightarrow> t |\<in>| tags (a_item r)" if "r \<in> ar_visible (sq_archive db)" "given tag = Some t" for r t
  proof -
    from that(1) obtain p where p: "p \<in> set (pg_rows d)" "r = pg_arow p"
      unfolding d(2) sq_archive_of [OF d(1)] pg_visible [OF d(1)] by blast
    have "\<forall>x \<in> set (p_tags p). plain_tag x" using pg_inv_row [OF d(1) p(1)] by blast
    from sq_tag_like [OF this assms(2) [OF that(2)]] show ?thesis
      unfolding p(2) pg_tags tag_pattern_eq like_pattern_iff contains_iff_sublist by (simp flip: pg_inv_tags [OF d(1) p(1)])
  qed
  then show ?thesis unfolding ar_text_matching_def ar_matching_def by (auto split: option.split)
qed



text \<open>An upsert stores, for each id among the items, the last item with that id as it will be
  read back, refreshes the time it was last seen, keeps the time it was first seen, and leaves
  every other row, the alerts and the fetch states alone.\<close>

theorem upsert_items_stores:
  assumes "sq_inv db" "sq_up db" "list_all item_ok items" "dt_range now"
  shows "\<exists>db'. upsert_items sqlite_store now items db = Inr (length items, db') \<and> sq_inv db' \<and>
    (\<forall>i. ar_items (sq_archive db') i = (case filter (\<lambda>it. item_id it = i) items of
        [] \<Rightarrow> ar_items (sq_archive db) i
      | its \<Rightarrow> Some \<lparr>a_item = stored_item (last its),
          a_first_seen = (case ar_items (sq_archive db) i of None \<Rightarrow> now | Some r \<Rightarrow> a_first_seen r),
          a_last_seen = now\<rparr>)) \<and>
    ar_alerted (sq_archive db') = ar_alerted (sq_archive db)"
  using sq.upsert [OF assms] sq.ar_items_upserts sq.alerted_ar_upsert by fastforce

lemma upsert_items_stores_witness:
  "\<exists>db'. upsert_items sqlite_store 8 demo_items sq_empty = Inr (length demo_items, db') \<and> sq_inv db'"
proof -
  have "sq_inv sq_empty" "sq_up sq_empty"
    using pg_inv_empty by (auto simp: sq_inv_def sq_empty_def sq_of_def pg_empty_def map_vals_def intro!: exI [of _ pg_empty])
  from upsert_items_stores [OF this demo_ok, where now = 8] show ?thesis by (auto simp: dt_range_def us_day_def)
qed

text \<open>C33. Retention deletes exactly the live rows last seen before the cutoff, keeps every sample,
  and forgets an alert only when it is older than the cutoff and its item is gone.\<close>

theorem prune_items_deletes:
  assumes "sq_inv db" "sq_up db" "dt_range (instant before)"
  shows "\<exists>db' k. prune_items sqlite_store before db = Inr (k, db') \<and> sq_inv db' \<and>
    (\<forall>i. ar_items (sq_archive db') i = (case ar_items (sq_archive db) i of None \<Rightarrow> None
       | Some r \<Rightarrow> if \<not> is_sample (a_item r) \<and> a_last_seen r < instant before then None else Some r)) \<and>
    (\<forall>i. ar_alerted (sq_archive db') i = (case ar_alerted (sq_archive db) i of None \<Rightarrow> None
       | Some t \<Rightarrow> if t < instant before \<and> ar_items (sq_archive db') i = None then None else Some t))"
proof -
  from sq.prune [OF assms] obtain db' k where
    1: "prune_items sqlite_store before db = Inr (k, db')" "sq_inv db'" and
    a: "sq_archive db' = ar_prune (instant before) (sq_archive db)" by blast
  show ?thesis
    by (intro exI [of _ db'] exI [of _ k] conjI 1) (simp_all add: a ar_prune_def Let_def cong: option.case_cong)
qed

lemma prune_items_deletes_witness:
  "\<exists>db' k. prune_items sqlite_store (utc 20) (sq_of demo_db) = Inr (k, db') \<and> sq_inv db'"
  using prune_items_deletes [OF demo_inv(3,4), of "utc 20"] by (auto simp: dt_range_def us_day_def)

text \<open>Recording a fetch keeps what the caller does not supply: a missing validator, payload or
  success time leaves the stored one, while the fetch time and the error are overwritten; other
  sources keep their state.\<close>

theorem source_state_merges:
  assumes "sq_inv db" "sq_up db" "dt_range now" "\<And>t. w_fetched_at w = Some t \<Longrightarrow> dt_range (instant t)"
  shows "\<exists>db'. set_source_state sqlite_store now sid w db = Inr db' \<and> sq_inv db' \<and>
    get_source_state sqlite_store sid' db' = Inr (if sid' = sid
      then Some (state_after now w (ar_states (sq_archive db) sid)) else ar_states (sq_archive db) sid')"
  using sq.get_set_state [OF assms, where sid = sid and sid' = sid'] by blast

lemma source_state_merges_witness:
  "\<exists>db'. set_source_state sqlite_store 8 ''kev'' \<lparr>w_etag = Some ''x'', w_last_modified = None,
      w_fetched_at = None, w_ok = True, w_error = None, w_payload = None\<rparr> (sq_of demo_db) = Inr db' \<and> sq_inv db'"
  using source_state_merges [OF demo_inv(3,4), where now = 8 and sid = "''kev''" and w = "\<lparr>w_etag = Some ''x'',
      w_last_modified = None, w_fetched_at = None, w_ok = True, w_error = None, w_payload = None\<rparr>"]
  by (auto simp: dt_range_def us_day_def)

end
