(* ===== verification/Fetcher.thy ===== *)
theory Fetcher
  imports Enrich SqliteStore
begin

text \<open>
  The fetch path of \<open>app/fetcher.py\<close>: stored fetch states and validators, the cadence, the
  conditional requests, the NVD start slots, error texts, the retry, de-duplication and
  \<open>fetch_all\<close>. The store is any \<open>backend\<close>; what the path needs of it is the locale
  \<open>storage\<close>. The sources run in catalogue order (\<open>asyncio.gather\<close> interleaves them;
  they share the clock, the KEV cache and the NVD slots only; the slots are treated for every
  order of callers, and a source writes no other row of the database than its own fetch state).
  A network on which every request fails is the locale \<open>failing_network\<close>.
\<close>

section \<open>Fetch state\<close>

definition load_state :: "'db backend \<Rightarrow> string \<Rightarrow> ('db, source_state option) io" where
  "load_state B sid = catch (db_read (get_source_state B sid)) (\<lambda>_. ret None)"

definition save_state ::
    "'db backend \<Rightarrow> source \<Rightarrow> string option \<Rightarrow> string option \<Rightarrow> json list option \<Rightarrow> bool \<Rightarrow> string option \<Rightarrow> ('db, unit) io" where
  "save_state B src etag last_modified payload ok error =
     bind get_now (\<lambda>now.
     catch (db_write (set_source_state B now (src_id src)
         \<lparr>w_etag = etag, w_last_modified = last_modified, w_fetched_at = Some (utc now),
          w_ok = ok, w_error = error, w_payload = payload\<rparr>))
       (\<lambda>_. ret ()))"

definition nonempty :: "string option \<Rightarrow> string option" where
  "nonempty v = (case v of Some [] \<Rightarrow> None | _ \<Rightarrow> v)"

definition validator_headers :: "source_state option \<Rightarrow> (string, string) dict" where
  "validator_headers state =
     (case state of None \<Rightarrow> [] | Some s \<Rightarrow>
        (case nonempty (st_etag s) of None \<Rightarrow> [] | Some e \<Rightarrow> [(''If-None-Match'', e)]) @
        (case nonempty (st_last_modified s) of None \<Rightarrow> [] | Some m \<Rightarrow> [(''If-Modified-Since'', m)]))"

definition stored_items :: "source_state option \<Rightarrow> feed_item list option" where
  "stored_items state =
     (case state of None \<Rightarrow> None | Some s \<Rightarrow>
        (case st_last_payload s of
           None \<Rightarrow> None
         | Some [] \<Rightarrow> None
         | Some rows \<Rightarrow> (case res_map item_from_dict rows of Inl e \<Rightarrow> None | Inr items \<Rightarrow> Some items)))"

definition is_due :: "source \<Rightarrow> source_state option \<Rightarrow> int \<Rightarrow> bool" where
  "is_due src state now =
     (if min_interval_seconds src \<le> 0 then True
      else (case state of None \<Rightarrow> True | Some s \<Rightarrow>
        (case nonempty (st_last_fetched_at s) of None \<Rightarrow> True | Some raw \<Rightarrow>
          (case fromisoformat raw of None \<Rightarrow> True
           | Some last_at \<Rightarrow> min_interval_seconds src * us_sec \<le> now - instant (ensure_aware last_at)))))"

abbreviation state_etag :: "source_state option \<Rightarrow> string option" where
  "state_etag state \<equiv> (case state of None \<Rightarrow> None | Some s \<Rightarrow> st_etag s)"

abbreviation state_last_modified :: "source_state option \<Rightarrow> string option" where
  "state_last_modified state \<equiv> (case state of None \<Rightarrow> None | Some s \<Rightarrow> st_last_modified s)"

text \<open>\<open>a or b\<close> on optional texts\<close>

definition opt_or :: "string option \<Rightarrow> string option \<Rightarrow> string option" where
  "opt_or a b = (case nonempty a of None \<Rightarrow> b | Some x \<Rightarrow> Some x)"

section \<open>Conditional requests\<close>

text \<open>The answer 304 of \<open>_fetch_rss\<close> and \<open>_fetch_ghsa\<close>: the stored items when they are usable.\<close>

definition reuse :: "'db backend \<Rightarrow> source \<Rightarrow> source_state option \<Rightarrow> http_response \<Rightarrow> feed_item list \<Rightarrow> ('db, feed_item list) io" where
  "reuse B src state resp cached =
     bind (save_state B src (opt_or (rs_header resp ''etag'') (state_etag state))
         (opt_or (rs_header resp ''last-modified'') (state_last_modified state)) None True None)
       (\<lambda>_. ret (take (max_items src) cached))"

text \<open>The rest of both: validators and payload are saved with the items.\<close>

definition finish :: "'db backend \<Rightarrow> source \<Rightarrow> http_response \<Rightarrow> feed_item list \<Rightarrow> ('db, feed_item list) io" where
  "finish B src resp items =
     bind get_now (\<lambda>now.
     bind (save_state B src (rs_header resp ''etag'') (rs_header resp ''last-modified'')
         (Some (map (\<lambda>it. item_to_dict it (utc now)) items)) True None)
       (\<lambda>_. ret items))"

definition rss_body :: "'db backend \<Rightarrow> env \<Rightarrow> source \<Rightarrow> http_response \<Rightarrow> ('db, feed_item list) io" where
  "rss_body B E src resp =
     bind (lift (raise_for_status resp)) (\<lambda>_.
     bind (lift (rss_items E src (parse_feed E (rs_content resp)))) (finish B src resp))"

definition fetch_rss :: "'db backend \<Rightarrow> env \<Rightarrow> source \<Rightarrow> ('db, feed_item list) io" where
  "fetch_rss B E src =
     bind (load_state B (src_id src)) (\<lambda>state.
     bind (http_get E (src_url src) (validator_headers state) []) (\<lambda>resp.
     if rs_status resp = 304
     then (case stored_items state of
         Some cached \<Rightarrow> reuse B src state resp cached
       | None \<Rightarrow> bind (http_get E (src_url src) [] []) (rss_body B E src))
     else rss_body B E src resp))"

definition ghsa_body :: "'db backend \<Rightarrow> env \<Rightarrow> source \<Rightarrow> http_response \<Rightarrow> ('db, feed_item list) io" where
  "ghsa_body B E src resp =
     bind (lift (raise_for_status resp)) (\<lambda>_.
     bind (lift (rs_json resp)) (\<lambda>data.
     case data of
       JList rows \<Rightarrow> bind (lift (ghsa_items E src rows)) (finish B src resp)
     | _ \<Rightarrow> ret []))"

definition fetch_ghsa :: "'db backend \<Rightarrow> env \<Rightarrow> source \<Rightarrow> ('db, feed_item list) io" where
  "fetch_ghsa B E src =
     bind (load_state B (src_id src)) (\<lambda>state.
     bind (http_get E (src_url src)
         (fold (\<lambda>(k, v). dict_set k v) (validator_headers state) (github_headers (cfg E))) []) (\<lambda>resp.
     if rs_status resp = 304
     then (case stored_items state of
         Some cached \<Rightarrow> reuse B src state resp cached
       | None \<Rightarrow> bind (http_get E (src_url src) (github_headers (cfg E)) []) (ghsa_body B E src))
     else ghsa_body B E src resp))"

section \<open>NVD\<close>

definition nvd_stagger_seconds :: int where "nvd_stagger_seconds = 2"

text \<open>The slot a caller reserves at a time, and the time from which the next one is free.\<close>

definition reserve_slot :: "int \<Rightarrow> int \<Rightarrow> int \<times> int" where
  "reserve_slot now next_free =
     (let start = max now next_free in (start, start + nvd_stagger_seconds * us_sec))"

definition nvd_stagger_slot :: "('db, unit) io" where
  "nvd_stagger_slot w =
     (case reserve_slot (w_now w) (w_nvd_next w) of (start, next_free) \<Rightarrow>
        sleep (start - w_now w) (w\<lparr>w_nvd_next := next_free\<rparr>))"

definition nvd_get :: "env \<Rightarrow> source \<Rightarrow> int \<Rightarrow> int \<Rightarrow> int option \<Rightarrow> ('db, json) io" where
  "nvd_get E src page_size days start_index =
     bind nvd_stagger_slot (\<lambda>_.
     bind get_now (\<lambda>now.
     bind (lift (nvd_window_url now (src_url src) page_size days start_index)) (\<lambda>u.
     bind (http_get E u [] []) (\<lambda>resp.
     bind (lift (raise_for_status resp)) (\<lambda>_. lift (rs_json resp))))))"

definition nvd_total :: "json \<Rightarrow> int result" where
  "nvd_total data = res_bind (py_get data ''totalResults'') (\<lambda>v. py_to_int (py_or v (JInt 0)))"

definition fetch_nvd :: "env \<Rightarrow> source \<Rightarrow> ('db, feed_item list) io" where
  "fetch_nvd E src =
     (let days = max 1 (nvd_window_days (cfg E));
          n = int (max_items src);
          page_size = max 100 (n * 10) in
      bind (nvd_get E src page_size days None) (\<lambda>data.
      bind (lift (nvd_total data)) (\<lambda>total.
      bind (lift (nvd_items E src data)) (\<lambda>items.
      bind (if page_size < total
            then bind (nvd_get E src n days (Some (max 0 (total - n)))) (\<lambda>data. lift (nvd_items E src data))
            else ret items) (\<lambda>items.
      bind (lift (sort_published items)) (\<lambda>items. ret (take (max_items src) items)))))))"

definition fetch_redhat :: "env \<Rightarrow> source \<Rightarrow> ('db, feed_item list) io" where
  "fetch_redhat E src =
     bind (http_get E (src_url src) [] []) (\<lambda>resp.
     bind (lift (raise_for_status resp)) (\<lambda>_.
     bind (lift (rs_json resp)) (\<lambda>data. lift (redhat_items E src data))))"

section \<open>Errors\<close>

text \<open>At most five nodes of the chain of causes.\<close>

fun error_chain :: "nat \<Rightarrow> exc option \<Rightarrow> string" where
  "error_chain 0 e = []"
| "error_chain (Suc n) None = []"
| "error_chain (Suc n) (Some e) =
     (if strip (exc_msg e) \<noteq> [] then strip (exc_msg e)
      else error_chain n (case exc_cause e of None \<Rightarrow> exc_context e | Some c \<Rightarrow> Some c))"

definition error_detail :: "exc \<Rightarrow> string" where
  "error_detail e = error_chain 5 (Some e)"

definition source_host :: "source \<Rightarrow> string result" where
  "source_host src = (case urlsplit (src_url src) of
     None \<Rightarrow> raise_value ''Invalid IPv6 URL''
   | Some u \<Rightarrow> Inr (if u_netloc u \<noteq> [] then u_netloc u else src_url src))"

definition describe_fetch_error :: "source \<Rightarrow> exc \<Rightarrow> string result" where
  "describe_fetch_error src e =
     res_bind (source_host src) (\<lambda>host.
     let reaching = src_id src @ '': '' @ exc_name e @ '' reaching '' @ host in
     Inr (if exc_class e = Transport True then reaching
       else if error_detail e \<noteq> [] then src_id src @ '': '' @ exc_name e @ '': '' @ error_detail e
       else reaching))"

section \<open>One source\<close>

datatype fetched = Skipped | Fetched "feed_item list"

definition fetch_kind :: "'db backend \<Rightarrow> env \<Rightarrow> source \<Rightarrow> source_state option \<Rightarrow> ('db, feed_item list) io" where
  "fetch_kind B E src state =
     (let saved = (\<lambda>m. bind m (\<lambda>items.
        bind (save_state B src (state_etag state) (state_last_modified state) None True None) (\<lambda>_. ret items))) in
      if src_kind src = ''kev'' then saved (fetch_recent_kev E src)
      else if src_kind src = ''rss'' then fetch_rss B E src
      else if src_kind src = ''ghsa'' then fetch_ghsa B E src
      else if src_kind src = ''nvd'' then saved (fetch_nvd E src)
      else if src_kind src = ''redhat-api'' then saved (fetch_redhat E src)
      else saved (ret []))"

text \<open>\<open>except Exception as exc\<close>: the attempt is recorded, and the exception goes on.\<close>

definition record_failure :: "'db backend \<Rightarrow> source \<Rightarrow> source_state option \<Rightarrow> exc \<Rightarrow> ('db, 'a) io" where
  "record_failure B src state e =
     bind (save_state B src (state_etag state) (state_last_modified state) None False
         (Some (take 500 (exc_name e @ '': '' @ exc_msg e))))
       (\<lambda>_. raise e)"

definition fetch_source_once :: "'db backend \<Rightarrow> env \<Rightarrow> source \<Rightarrow> ('db, fetched) io" where
  "fetch_source_once B E src =
     bind (load_state B (src_id src)) (\<lambda>state.
     bind get_now (\<lambda>now.
     if \<not> is_due src state now then ret Skipped
     else bind (catch (fetch_kind B E src state) (record_failure B src state)) (\<lambda>items. ret (Fetched items))))"

definition fetch_attempts :: nat where "fetch_attempts = 2"

definition fetch_retry_delay :: int where "fetch_retry_delay = 750000"

definition is_transport :: "exc \<Rightarrow> bool" where
  "is_transport e \<longleftrightarrow> (case exc_class e of Transport _ \<Rightarrow> True | _ \<Rightarrow> False)"

text \<open>The loop over the attempts; \<open>left\<close> counts those that remain.\<close>

fun try_fetch :: "('db, 'a) io \<Rightarrow> nat \<Rightarrow> nat \<Rightarrow> exc \<Rightarrow> ('db, 'a) io" where
  "try_fetch m n 0 last_exc = raise last_exc"
| "try_fetch m n (Suc left) last_exc =
     catch m (\<lambda>e.
       if is_transport e
       then bind (if left \<noteq> 0 then sleep (fetch_retry_delay * int (Suc n)) else ret ())
              (\<lambda>_. try_fetch m (Suc n) left e)
       else raise e)"

definition no_exc :: exc where
  "no_exc = Exc ''AssertionError'' OtherExc [] None None"

definition fetch_source :: "'db backend \<Rightarrow> env \<Rightarrow> source \<Rightarrow> ('db, fetched) io" where
  "fetch_source B E src = try_fetch (fetch_source_once B E src) 0 fetch_attempts no_exc"

section \<open>De-duplication\<close>

definition severity_rank :: "string \<Rightarrow> nat" where
  "severity_rank s = dict_get [(''critical'', 4), (''high'', 3), (''medium'', 2), (''low'', 1), (''unknown'', 0)] s 0"

definition recency :: "feed_item \<Rightarrow> int \<times> nat" where
  "recency item = (instant (ensure_aware (published_or_min item)), if urgent item then 1 else 0)"

definition merge_item :: "feed_item \<Rightarrow> feed_item \<Rightarrow> feed_item" where
  "merge_item existing item = existing
     \<lparr>tags := tags existing |\<union>| tags item,
      cves := from_keys (cves existing @ cves item),
      severity := (if severity_rank (severity existing) < severity_rank (severity item)
                   then severity item else severity existing),
      urgent := urgent existing \<or> urgent item\<rparr>"

definition see :: "feed_item \<Rightarrow> (string, feed_item) dict \<Rightarrow> (string, feed_item) dict" where
  "see item seen =
     (case map_of seen (item_id item) of
        None \<Rightarrow> dict_set (item_id item) item seen
      | Some existing \<Rightarrow> dict_set (item_id item) (merge_item existing item) seen)"

definition dedupe :: "feed_item list \<Rightarrow> feed_item list" where
  "dedupe items = sort_desc recency (map snd (fold see items []))"

section \<open>All sources\<close>

fun collect :: "(source \<times> fetched result) list \<Rightarrow> (feed_item list \<times> nat \<times> string list) result" where
  "collect [] = Inr ([], 0, [])"
| "collect ((src, r) # rs) =
     (case r of
        Inr Skipped \<Rightarrow> res_bind (collect rs) (\<lambda>(items, skipped, errors). Inr (items, Suc skipped, errors))
      | Inr (Fetched its) \<Rightarrow> res_bind (collect rs) (\<lambda>(items, skipped, errors). Inr (its @ items, skipped, errors))
      | Inl e \<Rightarrow> res_bind (describe_fetch_error src e) (\<lambda>d.
          res_bind (collect rs) (\<lambda>(items, skipped, errors). Inr (items, skipped, d # errors))))"

definition with_samples :: "feed_item list \<Rightarrow> nat \<Rightarrow> feed_item list \<Rightarrow> feed_item list" where
  "with_samples items skipped samples =
     (if items = [] \<and> skipped = 0 then samples
      else if items \<noteq> [] \<and> length items < 4 \<and> skipped = 0 then items @ samples
      else items)"

definition fetch_all :: "'db backend \<Rightarrow> env \<Rightarrow> ('db, feed_item list \<times> string list) io" where
  "fetch_all B E =
     bind (io_map (\<lambda>src. bind (attempt (fetch_source B E src)) (\<lambda>r. ret (src, r))) all_sources) (\<lambda>results.
     bind (lift (collect results)) (\<lambda>(items, skipped, errors).
     bind get_now (\<lambda>now.
     ret (dedupe (with_samples items skipped (sample_items (sha1 E) (utc now))), errors))))"

section \<open>De-duplication keeps everything\<close>

lemma merge_item_id [simp]: "item_id (merge_item a b) = item_id a" "title (merge_item a b) = title a"
  "published (merge_item a b) = published a" "patch_status (merge_item a b) = patch_status a"
  by (simp_all add: merge_item_def)

lemma dict_ok_see: "dict_ok d \<Longrightarrow> dict_ok (see it d)"
  by (auto simp: see_def split: option.split)

lemma dict_ok_fold_see: "dict_ok d \<Longrightarrow> dict_ok (fold see items d)"
  by (induction items arbitrary: d) (auto intro: dict_ok_see)

abbreviation merged :: "feed_item \<Rightarrow> feed_item list \<Rightarrow> feed_item" where
  "merged x xs \<equiv> fold (\<lambda>it acc. merge_item acc it) xs x"

lemma map_of_fold_see:
  "map_of (fold see items d) i =
     (let its = filter (\<lambda>x. item_id x = i) items in
      case map_of d i of
        Some x \<Rightarrow> Some (merged x its)
      | None \<Rightarrow> (case its of [] \<Rightarrow> None | x # xs \<Rightarrow> Some (merged x xs)))"
proof (induction items arbitrary: d)
  case (Cons it items)
  show ?case by (simp add: Cons.IH) (auto simp: see_def Let_def split: option.splits)
qed (simp split: option.split)

lemma merged_facts:
  "item_id (merged x xs) = item_id x" "title (merged x xs) = title x"
  "fset (tags (merged x xs)) = (\<Union>y \<in> set (x # xs). fset (tags y))"
  "set (cves (merged x xs)) = (\<Union>y \<in> set (x # xs). set (cves y))"
  "urgent (merged x xs) \<longleftrightarrow> (\<exists>y \<in> set (x # xs). urgent y)"
  by (induction xs arbitrary: x) (auto simp: merge_item_def)

lemma merged_severity:
  "severity (merged x xs) \<in> severity ` set (x # xs) \<and>
   (\<forall>y \<in> set (x # xs). severity_rank (severity y) \<le> severity_rank (severity (merged x xs)))"
proof (induction xs arbitrary: x)
  case (Cons z xs)
  have "severity (merge_item x z) \<in> {severity x, severity z}"
    "severity_rank (severity x) \<le> severity_rank (severity (merge_item x z))"
    "severity_rank (severity z) \<le> severity_rank (severity (merge_item x z))"
    by (simp_all add: merge_item_def)
  with Cons [of "merge_item x z"] show ?case by auto
qed simp

lemma filter_hd: "filter P xs = y # ys \<Longrightarrow> P y"
  by (metis Cons_eq_filterD)

lemma group_Some:
  "map_of (fold see items []) i = Some it \<longleftrightarrow> (\<exists>x xs. filter (\<lambda>y. item_id y = i) items = x # xs \<and> it = merged x xs)"
  by (cases "filter (\<lambda>y. item_id y = i) items") (auto simp: map_of_fold_see)

lemma group_id: "map_of (fold see items []) i = Some it \<Longrightarrow> item_id it = i"
  by (auto simp: group_Some merged_facts dest!: filter_hd)

lemma dedupe_in:
  "it \<in> set (dedupe items) \<longleftrightarrow> (\<exists>x xs. filter (\<lambda>y. item_id y = item_id it) items = x # xs \<and> it = merged x xs)"
proof -
  have ok: "dict_ok (fold see items [])" by (simp add: dict_ok_fold_see)
  have "it \<in> set (dedupe items) \<longleftrightarrow> (\<exists>i. map_of (fold see items []) i = Some it)"
    using map_of_in [OF ok] by (force simp: dedupe_def)
  also have "\<dots> \<longleftrightarrow> map_of (fold see items []) (item_id it) = Some it" using group_id by blast
  finally show ?thesis by (simp only: group_Some)
qed

lemma dedupe_ids: "distinct (map item_id (dedupe items))" "item_id ` set (dedupe items) = item_id ` set items"
proof -
  let ?d = "fold see items []"
  have ok: "dict_ok ?d" by (simp add: dict_ok_fold_see)
  have "map (item_id \<circ> snd) ?d = map fst ?d"
    using map_of_in [OF ok] by (auto intro!: map_cong) (metis group_id)
  with ok show "distinct (map item_id (dedupe items))"
    by (simp only: dedupe_def dict_ok_def distinct_map_sort_desc map_map)
  have "i \<in> item_id ` set (dedupe items)" if "i \<in> item_id ` set items" for i
  proof -
    from that have "filter (\<lambda>y. item_id y = i) items \<noteq> []" by (auto simp: filter_empty_conv)
    then obtain x xs where x: "filter (\<lambda>y. item_id y = i) items = x # xs" by (cases "filter (\<lambda>y. item_id y = i) items") auto
    from filter_hd [OF this] have i: "item_id (merged x xs) = i" by (simp add: merged_facts)
    with x have "merged x xs \<in> set (dedupe items)" unfolding dedupe_in by blast
    with i show ?thesis by blast
  qed
  moreover have "item_id it \<in> item_id ` set items" if it: "it \<in> set (dedupe items)" for it
  proof -
    from it obtain x xs where "filter (\<lambda>y. item_id y = item_id it) items = x # xs" unfolding dedupe_in by blast
    then have "x \<in> set items \<and> item_id x = item_id it" by (metis (mono_tags, lifting) Cons_eq_filterD in_set_conv_decomp)
    then show ?thesis by (metis imageI)
  qed
  ultimately show "item_id ` set (dedupe items) = item_id ` set items" by blast
qed

section \<open>Start slots\<close>

text \<open>The start times of callers that reserve one after the other (the reservation is under a lock).\<close>

fun slots :: "int list \<Rightarrow> int \<Rightarrow> int list" where
  "slots [] next_free = []"
| "slots (t # ts) next_free = (case reserve_slot t next_free of (start, n) \<Rightarrow> start # slots ts n)"

lemma slots_later: "s \<in> set (slots ts n) \<Longrightarrow> n \<le> s"
  by (induction ts n rule: slots.induct) (fastforce simp: reserve_slot_def Let_def nvd_stagger_seconds_def us_sec_def)+

lemma slots_spaced: "sorted_wrt (\<lambda>a b. a + nvd_stagger_seconds * us_sec \<le> b) (slots ts n)"
  by (induction ts n rule: slots.induct) (auto simp: reserve_slot_def Let_def dest: slots_later)

lemma slots_after_call: "list_all2 (\<le>) ts (slots ts n)"
  by (induction ts n rule: slots.induct) (auto simp: reserve_slot_def Let_def)

section \<open>Best effort\<close>

lemma no_throw_state [io_intros]: "no_throw (load_state B sid)" "no_throw (save_state B src a b c d e)"
  unfolding load_state_def save_state_def by (intro io_intros)+

lemma sends_state [io_intros]: "sends P (load_state B sid)" "sends P (save_state B src a b c d e)"
  unfolding load_state_def save_state_def by (intro io_intros)+

lemma source_hosts: "list_all (\<lambda>src. urlsplit (src_url src) \<noteq> None) all_sources"
  by code_simp

lemma collect_total:
  "list_all (\<lambda>p. urlsplit (src_url (fst p)) \<noteq> None) rs \<Longrightarrow> \<exists>x. collect rs = Inr x"
proof (induction rs rule: collect.induct)
  case (2 src r rs)
  then show ?case
    by (cases r; cases "projr r") (auto simp: describe_fetch_error_def source_host_def Let_def)
qed simp

lemma io_map_pairs:
  assumes "\<And>x. no_throw (m x)"
  shows "\<exists>rs w'. io_map (\<lambda>x. bind (m x) (\<lambda>r. ret (x, r))) xs w = (Inr rs, w') \<and> map fst rs = xs"
proof (induction xs arbitrary: w)
  case (Cons x xs)
  from assms obtain r w1 where r: "m x w = (Inr r, w1)" by (rule no_throwE)
  from Cons obtain rs w' where "io_map (\<lambda>x. bind (m x) (\<lambda>r. ret (x, r))) xs w1 = (Inr rs, w')" "map fst rs = xs" by blast
  moreover have "bind (m x) (\<lambda>r. ret (x, r)) w = (Inr (x, r), w1)" using r by (simp add: bind_run run_ret)
  ultimately show ?case using io_map_run [where f = "\<lambda>x. bind (m x) (\<lambda>r. ret (x, r))" and x = x and xs = xs and w = w]
    by (intro exI [of _ "(x, r) # rs"] exI [of _ w']) simp
qed (simp add: run_ret)

lemma no_throw_fetch_all: "no_throw (fetch_all B E)"
  unfolding no_throw_def
proof
  fix w
  let ?m = "io_map (\<lambda>src. bind (attempt (fetch_source B E src)) (\<lambda>r. ret (src, r))) all_sources"
  obtain results w1 where r: "?m w = (Inr results, w1)" "map fst results = all_sources"
    using io_map_pairs [of "\<lambda>src. attempt (fetch_source B E src)" all_sources w] by auto
  from source_hosts have "list_all (\<lambda>p. urlsplit (src_url (fst p)) \<noteq> None) results"
    unfolding r(2) [symmetric] by (simp add: list.pred_map comp_def)
  from collect_total [OF this] obtain c where "collect results = Inr c" by blast
  then show "\<exists>x w'. fetch_all B E w = (Inr x, w')"
    using r(1) by (cases c) (simp add: fetch_all_def bind_run run_ret)
qed

section \<open>What the computations keep\<close>

lemma timely_state [io_intros]: "timely (load_state B sid)" "timely (save_state B src a b c d e)"
  unfolding load_state_def save_state_def by (intro io_intros)+

lemma timely_nvd_slot [io_intros]: "timely nvd_stagger_slot"
  by (simp add: timely_def nvd_stagger_slot_def reserve_slot_def Let_def sleep_def)

lemma sends_nvd_slot [io_intros]: "sends P nvd_stagger_slot"
  by (auto simp: sends_def later_def nvd_stagger_slot_def reserve_slot_def Let_def sleep_def)

lemma keeps_nvd_slot [io_intros]: "keeps I nvd_stagger_slot"
  by (rule keeps_db) (simp add: nvd_stagger_slot_def reserve_slot_def Let_def sleep_def)

lemma load_state_same: "\<exists>s. load_state B sid w = (Inr s, w)"
  by (auto simp: load_state_def catch_def db_read_def run_ret split: sum.split)

lemma keeps_load [io_intros]: "keeps I (load_state B sid)"
  by (rule keeps_db) (metis load_state_same snd_conv)

lemma keeps_kev_hit [io_intros]: "keeps I kev_hit" "keeps I (kev_put c t)" "timely kev_hit" "timely (kev_put c t)"
  by (simp_all add: keeps_def timely_def kev_hit_def kev_put_def)

lemma validator_keys: "fst ` set (validator_headers state) \<subseteq> {''If-None-Match'', ''If-Modified-Since''}"
  by (auto simp: validator_headers_def split: option.splits)

lemma keys_fold_dict_set: "fst ` set (fold (\<lambda>(k, v). dict_set k v) kvs d) = fst ` set d \<union> fst ` set kvs"
  by (induction kvs arbitrary: d) (simp_all add: case_prod_unfold insert_commute)

lemma github_keys: "fst ` set (github_headers st) \<subseteq> {''Accept'', ''Authorization''}"
  by (auto simp: github_headers_def split: option.splits)

lemma no_user_agent:
  "''User-Agent'' \<notin> fst ` set (validator_headers state)" "''User-Agent'' \<notin> fst ` set (github_headers st)"
  "''User-Agent'' \<notin> fst ` set (fold (\<lambda>(k, v). dict_set k v) (validator_headers state) (github_headers st))"
  using validator_keys [of state] github_keys [of st] by (auto simp: keys_fold_dict_set)

lemma sends_json [io_intros]:
  "(\<And>rows. sends P (f rows)) \<Longrightarrow> sends P m \<Longrightarrow> sends P (case data of JList rows \<Rightarrow> f rows | _ \<Rightarrow> m)"
  "(\<And>rows. timely (f rows)) \<Longrightarrow> timely m \<Longrightarrow> timely (case data of JList rows \<Rightarrow> f rows | _ \<Rightarrow> m)"
  "(\<And>rows. keeps I (f rows)) \<Longrightarrow> keeps I m \<Longrightarrow> keeps I (case data of JList rows \<Rightarrow> f rows | _ \<Rightarrow> m)"
  by (auto split: json.split)

lemmas fetch_defs = fetch_kind_def Let_def fetch_recent_kev_def fetch_kev_def fetch_rss_def fetch_ghsa_def fetch_nvd_def nvd_get_def
  fetch_redhat_def reuse_def finish_def rss_body_def ghsa_body_def

lemma timely_kind [io_intros]: "timely (fetch_kind B E src state)"
  unfolding fetch_defs by (intro io_intros)

lemma sends_kind [io_intros]: "sends polite (fetch_kind B E src state)"
  unfolding fetch_defs by (intro io_intros no_user_agent) auto

lemma timely_once [io_intros]: "timely (fetch_source_once B E src)"
  unfolding fetch_source_once_def record_failure_def by (intro io_intros)

lemma sends_once [io_intros]: "sends polite (fetch_source_once B E src)"
  unfolding fetch_source_once_def record_failure_def by (intro io_intros)

lemma retry_delay: "0 \<le> fetch_retry_delay * int n"
  by (simp add: fetch_retry_delay_def)

lemma timely_try_fetch [io_intros]: "timely m \<Longrightarrow> timely (try_fetch m n left e)"
  by (induction left arbitrary: n e) (auto intro!: io_intros simp del: of_nat_Suc simp: retry_delay)

lemma sends_try_fetch [io_intros]: "sends P m \<Longrightarrow> sends P (try_fetch m n left e)"
  by (induction left arbitrary: n e) (auto intro!: io_intros simp del: of_nat_Suc simp: retry_delay)

lemma keeps_try_fetch [io_intros]: "keeps I m \<Longrightarrow> timely m \<Longrightarrow> keeps I (try_fetch m n left e)"
  by (induction left arbitrary: n e) (auto intro!: io_intros simp del: of_nat_Suc simp: retry_delay)

lemma timely_source [io_intros]: "timely (fetch_source B E src)"
  and sends_source [io_intros]: "sends polite (fetch_source B E src)"
  unfolding fetch_source_def by (intro io_intros)+

lemma sends_fetch_all [io_intros]: "sends polite (fetch_all B E)"
  unfolding fetch_all_def by (intro io_intros) (auto intro!: io_intros split: prod.split)

lemma timely_fetch_all [io_intros]: "timely (fetch_all B E)"
  by (rule sends_timely [OF sends_fetch_all])

section \<open>With a store that keeps its contract\<close>

abbreviation fetch_write ::
    "int \<Rightarrow> string option \<Rightarrow> string option \<Rightarrow> json list option \<Rightarrow> bool \<Rightarrow> string option \<Rightarrow> state_write" where
  "fetch_write now etag lm payload ok err \<equiv> \<lparr>w_etag = etag, w_last_modified = lm, w_fetched_at = Some (utc now),
     w_ok = ok, w_error = err, w_payload = payload\<rparr>"

lemma not_due_after:
  assumes "dt_range now" "t - now < min_interval_seconds src * us_sec" "0 < min_interval_seconds src"
    "st_last_fetched_at s = Some (iso_now now)"
  shows "\<not> is_due src (Some s) t"
proof -
  have "iso_now now \<noteq> []" by (simp add: iso_now_def isoformat_nonempty)
  then have "nonempty (Some (iso_now now)) = Some (iso_now now)" by (simp add: nonempty_def split: list.split)
  with assms show ?thesis
    by (simp add: is_due_def iso_now_def fromisoformat_isoformat)
qed

lemma state_after_fetched: "st_last_fetched_at (state_after now (fetch_write t a b c d e) old) = Some (iso_now t)"
  by (simp add: state_after_def Let_def iso_now_def split: option.split)

lemma is_due_interval: "src \<in> set all_sources \<Longrightarrow> 1800 \<le> min_interval_seconds src"
  using source_intervals by (simp add: list_all_iff)

text \<open>The fetch state of a source says it was fetched now.\<close>

definition fetched_now :: "('db \<Rightarrow> archive) \<Rightarrow> string \<Rightarrow> 'db world \<Rightarrow> bool" where
  "fetched_now arc sid w \<longleftrightarrow>
     (\<exists>s. ar_states (arc (w_db w)) sid = Some s \<and> st_last_fetched_at s = Some (iso_now (w_now w)))"

text \<open>A computation that ends with a value of the kind \<open>Q\<close> has recorded the fetch.\<close>

definition stamps :: "('a \<Rightarrow> bool) \<Rightarrow> ('db \<Rightarrow> bool) \<Rightarrow> ('db \<Rightarrow> archive) \<Rightarrow> string \<Rightarrow> ('db, 'a) io \<Rightarrow> bool" where
  "stamps Q I arc sid m \<longleftrightarrow> (\<forall>w x w'. m w = (Inr x, w') \<and> Q x \<and> I (w_db w) \<and> 0 \<le> w_now w \<and> dt_range (w_now w')
     \<longrightarrow> fetched_now arc sid w')"

lemma stamps_bind:
  assumes "keeps I m" "timely m" "\<And>x. timely (f x)" "\<And>x. stamps Q I arc sid (f x)"
  shows "stamps Q I arc sid (bind m f)"
  unfolding stamps_def
proof (intro allI impI)
  fix w y w'
  assume w: "bind m f w = (Inr y, w') \<and> Q y \<and> I (w_db w) \<and> 0 \<le> w_now w \<and> dt_range (w_now w')"
  then obtain x w1 where m: "m w = (Inr x, w1)" and f: "f x w1 = (Inr y, w')" by (auto simp: bind_Inr_iff)
  have l: "w_now w \<le> w_now w1" "w_now w1 \<le> w_now w'"
    using assms(2,3) m f by (metis timely_def snd_conv)+
  then have "dt_range (w_now w1)" "0 \<le> w_now w1" using w dt_range_before [of "w_now w'" "w_now w1"] by auto
  with keepsD [OF assms(1) m] w have "I (w_db w1)" by blast
  with f w \<open>0 \<le> w_now w1\<close> assms(4) [of x] show "fetched_now arc sid w'" unfolding stamps_def by blast
qed

lemma stamps_cases:
  "stamps Q I arc sid (raise e)"
  "(c \<Longrightarrow> stamps Q I arc sid m) \<Longrightarrow> (\<not> c \<Longrightarrow> stamps Q I arc sid m') \<Longrightarrow> stamps Q I arc sid (if c then m else m')"
  "(x = None \<Longrightarrow> stamps Q I arc sid m) \<Longrightarrow> (\<And>y. x = Some y \<Longrightarrow> stamps Q I arc sid (f y)) \<Longrightarrow>
    stamps Q I arc sid (case x of None \<Rightarrow> m | Some y \<Rightarrow> f y)"
  "(\<And>rows. stamps Q I arc sid (g rows)) \<Longrightarrow> stamps Q I arc sid m \<Longrightarrow>
    stamps Q I arc sid (case data of JList rows \<Rightarrow> g rows | _ \<Rightarrow> m)"
  by (auto simp: stamps_def raise_def split: option.split json.split)

lemma stamps_ret: "\<not> Q x \<Longrightarrow> stamps Q I arc sid (ret x)"
  by (simp add: stamps_def run_ret)

context storage
begin

abbreviation ok where "ok db \<equiv> inv db \<and> up db"

lemma load_ok: "ok (w_db w) \<Longrightarrow> load_state B sid w = (Inr (ar_states (abs (w_db w)) sid), w)"
  by (simp add: load_state_def catch_def db_read_def get_state)

lemma load_down: "\<not> up (w_db w) \<Longrightarrow> load_state B sid w = (Inr None, w)"
  using down(4) [of "w_db w" sid] by (cases "get_source_state B sid (w_db w)") (auto simp: load_state_def catch_def db_read_def run_ret)

lemma save_ok:
  assumes "ok (w_db w)" "dt_range (w_now w)"
  shows "\<exists>db'. save_state B src a b c d e w = (Inr (), w\<lparr>w_db := db'\<rparr>) \<and> ok db' \<and>
    abs db' = ar_set_state (w_now w) (src_id src) (fetch_write (w_now w) a b c d e) (abs (w_db w))"
proof -
  from set_state [of "w_db w" "w_now w" "fetch_write (w_now w) a b c d e" "src_id src"] assms obtain db' where
    "set_source_state B (w_now w) (src_id src) (fetch_write (w_now w) a b c d e) (w_db w) = Inr db'"
    "ok db'" "abs db' = ar_set_state (w_now w) (src_id src) (fetch_write (w_now w) a b c d e) (abs (w_db w))"
    by auto
  then show ?thesis by (auto simp: save_state_def catch_def db_write_def)
qed

lemma save_run:
  assumes "save_state B src a b c d e w = (r, w')" "ok (w_db w)" "dt_range (w_now w)"
  shows "ok (w_db w')" "fetched_now abs (src_id src) w'" "w_now w' = w_now w" "w_sent w' = w_sent w" "r = Inr ()"
  using save_ok [OF assms(2,3), of src a b c d e] assms(1)
  by (auto simp: fetched_now_def ar_set_state_def state_after_fetched)

lemma keeps_save [io_intros]: "keeps ok (save_state B src a b c d e)"
proof -
  have "ok (w_db (snd (save_state B src a b c d e w)))"
    if "ok (w_db w)" "0 \<le> w_now w" "dt_range (w_now (snd (save_state B src a b c d e w)))" for w
  proof -
    have "dt_range (w_now w)"
      using that(2,3) timely_state(2) [of B src a b c d e] dt_range_before unfolding timely_def by blast
    with that(1) save_run(1) show ?thesis by (metis surjective_pairing)
  qed
  then show ?thesis by (simp add: keeps_def)
qed

lemma stamps_save: "stamps Q ok abs (src_id src) (bind (save_state B src a b c d e) (\<lambda>_. ret x))"
  unfolding stamps_def
proof (intro allI impI)
  fix w y w'
  assume w: "bind (save_state B src a b c d e) (\<lambda>_. ret x) w = (Inr y, w') \<and> Q y \<and> ok (w_db w) \<and> 0 \<le> w_now w \<and> dt_range (w_now w')"
  then obtain u where s: "save_state B src a b c d e w = (Inr u, w')" by (auto simp: bind_Inr_iff run_ret)
  then have "w_now w \<le> w_now w'" using timely_state(2) [of B src a b c d e] by (metis timely_def snd_conv)
  with w have "dt_range (w_now w)" using dt_range_before by blast
  with save_run(2) [OF s] w show "fetched_now abs (src_id src) w'" by blast
qed

lemma keeps_kind [io_intros]: "keeps ok (fetch_kind B E src state)"
  unfolding fetch_defs by (intro io_intros)

lemma keeps_once [io_intros]: "keeps ok (fetch_source_once B E src)"
  unfolding fetch_source_once_def record_failure_def by (intro io_intros)

lemma keeps_source [io_intros]: "keeps ok (fetch_source B E src)"
  unfolding fetch_source_def by (intro io_intros)

lemma keeps_fetch_all [io_intros]: "keeps ok (fetch_all B E)"
  unfolding fetch_all_def by (intro io_intros) (auto intro!: io_intros split: prod.split)

end

lemma record_failure_run:
  "\<exists>w2. save_state B src (state_etag st) (state_last_modified st) None False
         (Some (take 500 (exc_name e @ '': '' @ exc_msg e))) w1 = (Inr (), w2) \<and> record_failure B src st e w1 = (Inl e, w2)"
proof -
  have "no_throw (save_state B src (state_etag st) (state_last_modified st) None False
         (Some (take 500 (exc_name e @ '': '' @ exc_msg e))))" by (rule no_throw_state)
  then obtain w2 where "save_state B src (state_etag st) (state_last_modified st) None False
         (Some (take 500 (exc_name e @ '': '' @ exc_msg e))) w1 = (Inr (), w2)"
    unfolding no_throw_def by auto
  then show ?thesis unfolding record_failure_def by (auto simp: bind_run run_ret)
qed

context storage
begin

text \<open>A fetch that ends with items has recorded itself; without items only the GitHub sources may not have.\<close>

lemma stamps_kind: "stamps (\<lambda>items. src_kind src = ''ghsa'' \<longrightarrow> items \<noteq> []) ok abs (src_id src) (fetch_kind B E src state)"
  unfolding fetch_defs
  by (rule stamps_save | rule stamps_bind | rule stamps_cases | rule io_intros | (rule stamps_ret, simp))+

lemma kind_ok:
  assumes "fetch_kind B E src state w = (r, w1)" "ok (w_db w)" "0 \<le> w_now w" "dt_range (w_now w1)"
  shows "ok (w_db w1)"
  using keepsD [OF keeps_kind assms] by simp

lemma once_run:
  assumes "fetch_source_once B E src w = (r, w')" "ok (w_db w)" "r \<noteq> Inr Skipped"
  shows "\<exists>k w1. fetch_kind B E src (ar_states (abs (w_db w)) (src_id src)) w = (k, w1) \<and>
    (case k of Inr items \<Rightarrow> r = Inr (Fetched items) \<and> w' = w1
     | Inl e \<Rightarrow> r = Inl e \<and> (\<exists>u. save_state B src (state_etag (ar_states (abs (w_db w)) (src_id src)))
         (state_last_modified (ar_states (abs (w_db w)) (src_id src))) None False
         (Some (take 500 (exc_name e @ '': '' @ exc_msg e))) w1 = (u, w')))"
proof -
  let ?st = "ar_states (abs (w_db w)) (src_id src)"
  obtain k w1 where k: "fetch_kind B E src ?st w = (k, w1)" by (cases "fetch_kind B E src ?st w")
  have m: "fetch_source_once B E src w = bind (catch (fetch_kind B E src ?st) (record_failure B src ?st)) (\<lambda>items. ret (Fetched items)) w"
    using assms(1,3) load_ok [OF assms(2), of "src_id src"]
    by (simp add: fetch_source_once_def bind_run run_ret split: if_splits)
  show ?thesis
  proof (cases k)
    case (Inr items)
    with k have "fetch_source_once B E src w = (Inr (Fetched items), w1)"
      unfolding m by (simp add: bind_run catch_Inr run_ret)
    with assms(1) k Inr show ?thesis by auto
  next
    case (Inl e)
    from record_failure_run [of B src ?st e w1] obtain w2 where
      s: "save_state B src (state_etag ?st) (state_last_modified ?st) None False
         (Some (take 500 (exc_name e @ '': '' @ exc_msg e))) w1 = (Inr (), w2)"
        "(record_failure B src ?st e w1 :: feed_item list result \<times> _) = (Inl e, w2)" by blast
    from k Inl s(2) have "catch (fetch_kind B E src ?st) (record_failure B src ?st) w = (Inl e, w2)"
      by (simp add: catch_Inl)
    then have "fetch_source_once B E src w = (Inl e, w2)" unfolding m by (rule bind_stop)
    with assms(1) k Inl s(1) show ?thesis by (intro exI [of _ k] exI [of _ w1]) (auto simp del: take_append)
  qed
qed

lemma once_recorded:
  assumes "fetch_source_once B E src w = (r, w')" "ok (w_db w)" "0 \<le> w_now w" "dt_range (w_now w')"
    "r \<noteq> Inr Skipped" "src_kind src = ''ghsa'' \<longrightarrow> r \<noteq> Inr (Fetched [])"
  shows "ok (w_db w') \<and> fetched_now abs (src_id src) w' \<and> w_now w \<le> w_now w'"
proof -
  let ?st = "ar_states (abs (w_db w)) (src_id src)"
  from once_run [OF assms(1,2,5)] obtain k w1 where k: "fetch_kind B E src ?st w = (k, w1)" and
    r: "case k of Inr items \<Rightarrow> r = Inr (Fetched items) \<and> w' = w1
     | Inl e \<Rightarrow> r = Inl e \<and> (\<exists>u. save_state B src (state_etag ?st) (state_last_modified ?st) None False
         (Some (take 500 (exc_name e @ '': '' @ exc_msg e))) w1 = (u, w'))" by blast
  have now: "w_now w \<le> w_now w1" using k timely_kind by (metis timely_def snd_conv)
  show ?thesis
  proof (cases k)
    case (Inr items)
    with r assms(6) have "w' = w1" "src_kind src = ''ghsa'' \<longrightarrow> items \<noteq> []" by auto
    with k Inr stamps_kind kind_ok [OF k] assms(2,3,4) now show ?thesis unfolding stamps_def by blast
  next
    case (Inl e)
    with r obtain u where s: "save_state B src (state_etag ?st) (state_last_modified ?st) None False
        (Some (take 500 (exc_name e @ '': '' @ exc_msg e))) w1 = (u, w')" by auto
    then have l: "w_now w1 \<le> w_now w'" using timely_state(2) by (metis timely_def snd_conv)
    with now assms(3,4) have d: "dt_range (w_now w1)" using dt_range_before [of "w_now w'" "w_now w1"] by auto
    from save_run [OF s kind_ok(1) [OF k assms(2,3) d] d] now l show ?thesis by auto
  qed
qed

text \<open>After a fetch was recorded the source is quiet until its interval has passed.\<close>

lemma quiet:
  assumes "fetched_now abs (src_id src) w1" "ok (w_db w2)"
    "ar_states (abs (w_db w2)) (src_id src) = ar_states (abs (w_db w1)) (src_id src)" "dt_range (w_now w1)"
    "w_now w2 - w_now w1 < min_interval_seconds src * us_sec" "0 < min_interval_seconds src"
  shows "fetch_source_once B E src w2 = (Inr Skipped, w2)"
proof -
  from assms(1) obtain s where s: "ar_states (abs (w_db w1)) (src_id src) = Some s"
    "st_last_fetched_at s = Some (iso_now (w_now w1))" by (auto simp: fetched_now_def)
  from not_due_after [OF assms(4,5,6) s(2)] load_ok [OF assms(2), of "src_id src"] s(1) assms(3)
  show ?thesis by (simp add: fetch_source_once_def bind_run run_ret)
qed

lemma retry_is_skipped:
  assumes "fetch_source_once B E src w = (Inl e, w1)" "is_transport e" "ok (w_db w)" "0 \<le> w_now w"
    "dt_range (w_now w1)" "1800 \<le> min_interval_seconds src"
  shows "fetch_source B E src w = (Inr Skipped, w1\<lparr>w_now := w_now w1 + fetch_retry_delay\<rparr>)"
proof -
  let ?w2 = "w1\<lparr>w_now := w_now w1 + fetch_retry_delay\<rparr>"
  have f: "ok (w_db w1)" "fetched_now abs (src_id src) w1"
    using once_recorded [OF assms(1,3,4,5)] by auto
  have "fetch_source_once B E src ?w2 = (Inr Skipped, ?w2)"
    using f assms(5,6) by (intro quiet [OF f(2)]) (auto simp: fetch_retry_delay_def us_sec_def)
  with assms(1,2) show ?thesis
    by (simp add: fetch_source_def fetch_attempts_def numeral_2_eq_2 catch_def bind_run sleep_def)
qed

end

section \<open>When every request fails\<close>

text \<open>Without a network every request raises a transport error; when the upstream services refuse, every
  request is answered with an error status.\<close>

definition outage :: "env \<Rightarrow> bool" where
  "outage E \<longleftrightarrow> (\<forall>n rq. \<exists>e. net E n rq = Inl e \<and> is_transport e)"

definition refusing :: "env \<Rightarrow> bool" where
  "refusing E \<longleftrightarrow> (\<forall>n rq. \<exists>resp. net E n rq = Inr resp \<and> 400 \<le> rs_status resp)"

definition is_status :: "exc \<Rightarrow> bool" where
  "is_status e \<longleftrightarrow> (case exc_class e of HttpStatus _ \<Rightarrow> True | _ \<Rightarrow> False)"

lemma status_no_transport: "is_status e \<Longrightarrow> \<not> is_transport e"
  by (auto simp: is_status_def is_transport_def split: exc_class.splits)

definition at_rest :: "'db world \<Rightarrow> bool" where
  "at_rest w \<longleftrightarrow> w_kev w = None \<and> w_nvd_next w \<le> w_now w + nvd_stagger_seconds * us_sec"

text \<open>The first request of a computation fails it with an exception of the kind \<open>Q\<close>, within \<open>d\<close>
  microseconds and before it writes.\<close>

definition breaks :: "(exc \<Rightarrow> bool) \<Rightarrow> int \<Rightarrow> ('db, 'a) io \<Rightarrow> bool" where
  "breaks Q d m \<longleftrightarrow> (\<forall>w. at_rest w \<longrightarrow> (\<exists>e w'. m w = (Inl e, w') \<and> Q e \<and> at_rest w' \<and> w_db w' = w_db w \<and>
     w_now w \<le> w_now w' \<and> w_now w' \<le> w_now w + d))"

lemma breaks_bind: "breaks Q d m \<Longrightarrow> breaks Q d (bind m f)"
  unfolding breaks_def by (metis bind_stop)

lemma breaks_mono: "breaks Q c m \<Longrightarrow> c \<le> d \<Longrightarrow> breaks Q d m"
  unfolding breaks_def by (meson add_left_mono order_trans)

lemma breaks_load: "(\<And>s. breaks Q d (f s)) \<Longrightarrow> breaks Q d (bind (load_state B sid) f)"
  unfolding breaks_def by (metis bind_run load_state_same)

lemma breaks_get_now: "(\<And>t. breaks Q d (f t)) \<Longrightarrow> breaks Q d (bind get_now f)"
  unfolding breaks_def by simp

lemma breaks_kev_hit: "breaks Q d (f None) \<Longrightarrow> breaks Q d (bind kev_hit f)"
  unfolding breaks_def by (simp add: bind_run kev_hit_def at_rest_def)

lemma breaks_slot:
  fixes f :: "unit \<Rightarrow> ('db, 'a) io"
  assumes "breaks Q 0 (f ())" shows "breaks Q (nvd_stagger_seconds * us_sec) (bind nvd_stagger_slot f)"
  unfolding breaks_def
proof (intro allI impI)
  fix w :: "'db world" assume r: "at_rest w"
  define start where "start = max (w_now w) (w_nvd_next w)"
  define w1 where "w1 = w\<lparr>w_nvd_next := start + nvd_stagger_seconds * us_sec, w_now := start\<rparr>"
  have "nvd_stagger_slot w = (Inr (), w1)"
    by (simp add: nvd_stagger_slot_def reserve_slot_def Let_def sleep_def start_def w1_def)
  then have b: "bind nvd_stagger_slot f w = f () w1" by (rule bind_run)
  have "at_rest w1" "w_db w1 = w_db w" "w_now w \<le> w_now w1" "w_now w1 \<le> w_now w + nvd_stagger_seconds * us_sec"
    using r by (auto simp: start_def w1_def at_rest_def nvd_stagger_seconds_def us_sec_def)
  with assms show "\<exists>e w'. bind nvd_stagger_slot f w = (Inl e, w') \<and> Q e \<and> at_rest w' \<and> w_db w' = w_db w \<and>
     w_now w \<le> w_now w' \<and> w_now w' \<le> w_now w + nvd_stagger_seconds * us_sec"
    unfolding b breaks_def by fastforce
qed

text \<open>What follows a request and starts with the check of its status.\<close>

definition checks_status :: "(http_response \<Rightarrow> ('db, 'a) io) \<Rightarrow> bool" where
  "checks_status f \<longleftrightarrow> (\<forall>resp w. 400 \<le> rs_status resp \<longrightarrow> (\<exists>e. f resp w = (Inl e, w) \<and> is_status e))"

lemma checks_status_raise: "checks_status (\<lambda>resp. bind (lift (raise_for_status resp)) (g resp))"
  by (simp add: checks_status_def raise_for_status_def bind_def lift_def is_status_def)

lemma checks_status_304:
  "checks_status g \<Longrightarrow> checks_status (\<lambda>resp. if rs_status resp = 304 then h resp else g resp)"
  by (auto simp: checks_status_def)

text \<open>A network on which every request fails whoever checks the status of its answer.\<close>

locale failing_network =
  fixes fails :: "env \<Rightarrow> bool"
    and Q :: "exc \<Rightarrow> bool"
  assumes answers: "fails E \<Longrightarrow>
    (case net E n rq of Inl e \<Rightarrow> Q e | Inr resp \<Rightarrow> 400 \<le> rs_status resp \<and> (\<forall>e. is_status e \<longrightarrow> Q e))"
begin

lemma breaks_ask:
  fixes f :: "http_response \<Rightarrow> ('db, 'a) io"
  assumes "fails E" "checks_status f"
  shows "breaks Q 0 (bind (http_send c E meth u hs ps bd) f)"
  unfolding breaks_def
proof (intro allI impI)
  fix w :: "'db world" assume r: "at_rest w"
  let ?rq = "request c meth u hs ps bd"
  let ?w1 = "w\<lparr>w_sent := w_sent w @ [?rq]\<rparr>"
  have send: "http_send c E meth u hs ps bd w = (net E (length (w_sent w)) ?rq, ?w1)"
    by (simp add: http_send_def Let_def)
  obtain e where "bind (http_send c E meth u hs ps bd) f w = (Inl e, ?w1)" "Q e"
  proof (cases "net E (length (w_sent w)) ?rq")
    case (Inl e)
    with send answers [OF assms(1), of "length (w_sent w)" ?rq] show ?thesis by (intro that) (auto simp: bind_stop)
  next
    case (Inr resp)
    with answers [OF assms(1), of "length (w_sent w)" ?rq] have "400 \<le> rs_status resp" "\<And>e. is_status e \<Longrightarrow> Q e" by auto
    moreover from this(1) assms(2) obtain e where "f resp ?w1 = (Inl e, ?w1)" "is_status e"
      unfolding checks_status_def by blast
    ultimately show ?thesis using send Inr by (intro that) (auto simp: bind_run)
  qed
  with r show "\<exists>e w'. bind (http_send c E meth u hs ps bd) f w = (Inl e, w') \<and> Q e \<and> at_rest w' \<and> w_db w' = w_db w \<and>
     w_now w \<le> w_now w' \<and> w_now w' \<le> w_now w + 0"
    by (simp add: at_rest_def nvd_stagger_seconds_def us_sec_def)
qed

lemma breaks_nvd:
  assumes "fails E" "urlsplit (src_url src) \<noteq> None"
  shows "breaks Q (nvd_stagger_seconds * us_sec) (nvd_get E src p d i)"
proof -
  have "breaks Q 0 (bind (lift (nvd_window_url t (src_url src) p d i)) (\<lambda>u.
     bind (http_get E u [] []) (\<lambda>resp. bind (lift (raise_for_status resp)) (\<lambda>_. lift (rs_json resp)))))" for t
  proof -
    obtain u where "nvd_window_url t (src_url src) p d i = Inr u"
      using assms(2) by (auto simp: nvd_window_url_def)
    then show ?thesis by simp (intro breaks_ask checks_status_raise assms(1))
  qed
  then show ?thesis unfolding nvd_get_def by (intro breaks_slot breaks_get_now)
qed

lemma breaks_kind:
  assumes "fails E" "src \<in> set all_sources"
  shows "breaks Q (nvd_stagger_seconds * us_sec) (fetch_kind B E src state)"
proof -
  have u: "urlsplit (src_url src) \<noteq> None" using source_hosts assms(2) by (simp add: list_all_iff)
  have k: "src_kind src \<in> {''rss'', ''nvd'', ''redhat-api'', ''ghsa'', ''kev''}"
    using source_kinds assms(2) by (simp add: list_all_iff)
  have d: "0 \<le> nvd_stagger_seconds * us_sec" by (simp add: nvd_stagger_seconds_def us_sec_def)
  have body: "checks_status (rss_body B E src)" "checks_status (ghsa_body B E src)"
    unfolding rss_body_def [abs_def] ghsa_body_def [abs_def] by (rule checks_status_raise)+
  have "breaks Q 0 (fetch_rss B E src)" "breaks Q 0 (fetch_ghsa B E src)"
    unfolding fetch_rss_def fetch_ghsa_def by (intro breaks_load breaks_ask checks_status_304 assms(1) body)+
  moreover have "breaks Q 0 (fetch_kev E)"
    unfolding fetch_kev_def
    by (intro breaks_get_now breaks_kev_hit) (simp, intro breaks_ask checks_status_raise assms(1))
  then have "breaks Q 0 (fetch_recent_kev E src)"
    unfolding fetch_recent_kev_def by (rule breaks_bind)
  moreover have "breaks Q (nvd_stagger_seconds * us_sec) (fetch_nvd E src)"
    unfolding fetch_nvd_def Let_def by (intro breaks_bind breaks_nvd assms(1) u)
  moreover have "breaks Q 0 (fetch_redhat E src)"
    unfolding fetch_redhat_def by (intro breaks_ask checks_status_raise assms(1))
  ultimately show ?thesis
    using k d unfolding fetch_kind_def Let_def by (auto intro: breaks_bind breaks_mono)
qed

end

interpretation lost: failing_network outage is_transport
proof unfold_locales
  fix E n rq assume "outage E"
  then obtain e where "net E n rq = Inl e" "is_transport e" unfolding outage_def by blast
  then show "case net E n rq of Inl e \<Rightarrow> is_transport e | Inr resp \<Rightarrow> 400 \<le> rs_status resp \<and> (\<forall>e. is_status e \<longrightarrow> is_transport e)"
    by simp
qed

interpretation denied: failing_network refusing is_status
proof unfold_locales
  fix E n rq assume "refusing E"
  then obtain resp where "net E n rq = Inr resp" "400 \<le> rs_status resp" unfolding refusing_def by blast
  then show "case net E n rq of Inl e \<Rightarrow> is_status e | Inr resp \<Rightarrow> 400 \<le> rs_status resp \<and> (\<forall>e. is_status e \<longrightarrow> is_status e)"
    by simp
qed

lemma save_state_db:
  obtains db' where "save_state B src a b c d e w = (Inr (), w\<lparr>w_db := db'\<rparr>)"
proof (cases "set_source_state B (w_now w) (src_id src) (fetch_write (w_now w) a b c d e) (w_db w)")
  case (Inl x)
  then have "save_state B src a b c d e w = (Inr (), w\<lparr>w_db := w_db w\<rparr>)"
    by (simp add: save_state_def catch_def db_write_def run_ret)
  then show ?thesis by (rule that)
next
  case (Inr db')
  then have "save_state B src a b c d e w = (Inr (), w\<lparr>w_db := db'\<rparr>)"
    by (simp add: save_state_def catch_def db_write_def run_ret)
  then show ?thesis by (rule that)
qed

text \<open>The longest a source takes then: an NVD slot and the delay before the retry.\<close>

definition outage_delay :: int where
  "outage_delay = nvd_stagger_seconds * us_sec + fetch_retry_delay"

context storage
begin

lemma once_breaks:
  assumes "breaks Q d (fetch_kind B E src (ar_states (abs (w_db w)) (src_id src)))" "ok (w_db w)" "at_rest w"
    "is_due src (ar_states (abs (w_db w)) (src_id src)) (w_now w)"
  shows "\<exists>e w1 etag lm err. fetch_source_once B E src w = (Inl e, snd (save_state B src etag lm None False err w1)) \<and> Q e \<and>
    at_rest w1 \<and> w_db w1 = w_db w \<and> w_now w \<le> w_now w1 \<and> w_now w1 \<le> w_now w + d"
proof -
  let ?st = "ar_states (abs (w_db w)) (src_id src)"
  obtain e w1 where k: "fetch_kind B E src ?st w = (Inl e, w1)" "Q e" "at_rest w1" "w_db w1 = w_db w"
    "w_now w \<le> w_now w1" "w_now w1 \<le> w_now w + d"
    using assms(1,3) unfolding breaks_def by blast
  let ?err = "Some (take 500 (exc_name e @ '': '' @ exc_msg e))"
  from record_failure_run [of B src ?st e w1] obtain w2 where
    s: "save_state B src (state_etag ?st) (state_last_modified ?st) None False ?err w1 = (Inr (), w2)"
      "(record_failure B src ?st e w1 :: feed_item list result \<times> _) = (Inl e, w2)" by blast
  have "catch (fetch_kind B E src ?st) (record_failure B src ?st) w = (Inl e, w2)"
    using k(1) s(2) by (simp add: catch_Inl)
  then have b: "bind (catch (fetch_kind B E src ?st) (record_failure B src ?st)) (\<lambda>items. ret (Fetched items)) w = (Inl e, w2)"
    by (rule bind_stop)
  have "fetch_source_once B E src w = (Inl e, w2)"
    using load_ok [OF assms(2), of "src_id src"] assms(4) b by (simp add: fetch_source_once_def bind_run)
  moreover have "w2 = snd (save_state B src (state_etag ?st) (state_last_modified ?st) None False ?err w1)" using s(1) by simp
  ultimately show ?thesis using k by blast
qed

lemma once_outage:
  assumes "outage E" "src \<in> set all_sources" "ok (w_db w)" "at_rest w"
  shows "fetch_source_once B E src w = (Inr Skipped, w) \<or>
    (\<exists>e w'. fetch_source_once B E src w = (Inl e, w') \<and> is_transport e \<and> at_rest w' \<and>
       w_now w \<le> w_now w' \<and> w_now w' \<le> w_now w + nvd_stagger_seconds * us_sec)"
proof (cases "is_due src (ar_states (abs (w_db w)) (src_id src)) (w_now w)")
  case False
  with load_ok [OF assms(3), of "src_id src"] show ?thesis by (simp add: fetch_source_once_def bind_run run_ret)
next
  case True
  from once_breaks [OF lost.breaks_kind [OF assms(1,2)] assms(3,4) True] obtain e w1 etag lm err where
    o: "fetch_source_once B E src w = (Inl e, snd (save_state B src etag lm None False err w1))" "is_transport e" "at_rest w1"
      "w_now w \<le> w_now w1" "w_now w1 \<le> w_now w + nvd_stagger_seconds * us_sec" by blast
  obtain db' where "save_state B src etag lm None False err w1 = (Inr (), w1\<lparr>w_db := db'\<rparr>)" by (rule save_state_db)
  with o show ?thesis by (simp add: at_rest_def)
qed

lemma source_outage:
  assumes "outage E" "src \<in> set all_sources" "ok (w_db w)" "at_rest w" "0 \<le> w_now w"
    "dt_range (w_now w + outage_delay)"
  shows "\<exists>w'. fetch_source B E src w = (Inr Skipped, w') \<and> ok (w_db w') \<and> at_rest w' \<and>
    w_now w \<le> w_now w' \<and> w_now w' \<le> w_now w + outage_delay"
  using once_outage [OF assms(1-4)]
proof
  assume s: "fetch_source_once B E src w = (Inr Skipped, w)"
  then have "fetch_source B E src w = (Inr Skipped, w)"
    by (simp add: fetch_source_def fetch_attempts_def numeral_2_eq_2 catch_Inr)
  with assms show ?thesis by (auto simp: outage_delay_def nvd_stagger_seconds_def us_sec_def fetch_retry_delay_def)
next
  assume "\<exists>e w'. fetch_source_once B E src w = (Inl e, w') \<and> is_transport e \<and> at_rest w' \<and>
       w_now w \<le> w_now w' \<and> w_now w' \<le> w_now w + nvd_stagger_seconds * us_sec"
  then obtain e w1 where o: "fetch_source_once B E src w = (Inl e, w1)" "is_transport e" "at_rest w1"
    "w_now w \<le> w_now w1" "w_now w1 \<le> w_now w + nvd_stagger_seconds * us_sec" by blast
  have d: "dt_range (w_now w1)"
    using assms(5,6) o(4,5) by (auto simp: dt_range_def outage_delay_def fetch_retry_delay_def)
  have "ok (w_db w1)" using once_recorded [OF o(1) assms(3,5) d] by auto
  moreover have "fetch_source B E src w = (Inr Skipped, w1\<lparr>w_now := w_now w1 + fetch_retry_delay\<rparr>)"
    using retry_is_skipped [OF o(1,2) assms(3,5) d is_due_interval [OF assms(2)]] .
  ultimately show ?thesis using o by (auto simp: at_rest_def outage_delay_def fetch_retry_delay_def)
qed

lemma all_outage:
  assumes "outage E" "set srcs \<subseteq> set all_sources" "ok (w_db w)" "at_rest w" "0 \<le> w_now w"
    "dt_range (w_now w + int (length srcs) * outage_delay)"
  shows "\<exists>w'. io_map (\<lambda>src. bind (attempt (fetch_source B E src)) (\<lambda>r. ret (src, r))) srcs w
    = (Inr (map (\<lambda>s. (s, Inr Skipped)) srcs), w') \<and> w_now w' \<le> w_now w + int (length srcs) * outage_delay"
  using assms(2-6)
proof (induction srcs arbitrary: w)
  case (Cons src srcs)
  have d0: "0 \<le> outage_delay" by (simp add: outage_delay_def nvd_stagger_seconds_def us_sec_def fetch_retry_delay_def)
  have split: "int (length (src # srcs)) * outage_delay = outage_delay + int (length srcs) * outage_delay"
    by (simp add: algebra_simps)
  have rest: "0 \<le> int (length srcs) * outage_delay" using d0 by simp
  have "dt_range (w_now w + outage_delay)"
    using Cons.prems(4,5) rest d0 unfolding split by (intro dt_range_before [OF Cons.prems(5)[unfolded split]]) auto
  with source_outage [OF assms(1)] Cons.prems obtain w1 where
    w1: "fetch_source B E src w = (Inr Skipped, w1)" "ok (w_db w1)" "at_rest w1" "w_now w \<le> w_now w1"
      "w_now w1 \<le> w_now w + outage_delay" by (metis list.set_intros(1) subsetD)
  have "dt_range (w_now w1 + int (length srcs) * outage_delay)"
    using Cons.prems(4) w1(4,5) rest unfolding split by (intro dt_range_before [OF Cons.prems(5)[unfolded split]]) auto
  with Cons w1 obtain w2 where w2: "io_map (\<lambda>src. bind (attempt (fetch_source B E src)) (\<lambda>r. ret (src, r))) srcs w1
      = (Inr (map (\<lambda>s. (s, Inr Skipped)) srcs), w2)" "w_now w2 \<le> w_now w1 + int (length srcs) * outage_delay" by fastforce
  have "bind (attempt (fetch_source B E src)) (\<lambda>r. ret (src, r)) w = (Inr (src, Inr Skipped), w1)"
    using w1(1) by (simp add: bind_def attempt_def run_ret)
  from io_map_run [where f = "\<lambda>src. bind (attempt (fetch_source B E src)) (\<lambda>r. ret (src, r))", OF this w2(1)]
  show ?case using w1(5) w2(2) unfolding split by (intro exI [of _ w2]) simp
qed (simp add: run_ret)

lemma collect_skipped: "collect (map (\<lambda>s. (s, Inr Skipped)) srcs) = Inr ([], length srcs, [])"
  by (induction srcs) auto

lemma fetch_all_outage:
  assumes "outage E" "ok (w_db w)" "at_rest w" "0 \<le> w_now w" "dt_range (w_now w + 60 * us_sec)"
  shows "\<exists>w'. fetch_all B E w = (Inr ([], []), w') \<and> w_now w' \<le> w_now w + 60 * us_sec"
proof -
  have n: "length all_sources = 19" by (simp add: source_defs)
  have d: "int (length all_sources) * outage_delay \<le> 60 * us_sec"
    by (simp add: n outage_delay_def nvd_stagger_seconds_def us_sec_def fetch_retry_delay_def)
  have d0: "0 \<le> int (length all_sources) * outage_delay"
    by (simp add: outage_delay_def nvd_stagger_seconds_def us_sec_def fetch_retry_delay_def)
  have "dt_range (w_now w + int (length all_sources) * outage_delay)"
    using assms(4) d d0 by (intro dt_range_before [OF assms(5)]) linarith+
  from all_outage [OF assms(1) subset_refl assms(2,3,4) this] obtain w' where
    "io_map (\<lambda>src. bind (attempt (fetch_source B E src)) (\<lambda>r. ret (src, r))) all_sources w
      = (Inr (map (\<lambda>s. (s, Inr Skipped)) all_sources), w')" "w_now w' \<le> w_now w + 60 * us_sec" using d by fastforce
  then show ?thesis
    by (intro exI [of _ w']) (simp add: fetch_all_def bind_run collect_skipped n with_samples_def dedupe_def run_ret sort_desc_def)
qed

end

context storage
begin

lemma fetch_then_quiet:
  assumes "fetch_source_once B E src w = (r, w1)" "r \<noteq> Inr Skipped" "src_kind src = ''ghsa'' \<longrightarrow> r \<noteq> Inr (Fetched [])"
    "src \<in> set all_sources" "ok (w_db w)" "0 \<le> w_now w" "dt_range (w_now w1)" "ok (w_db w2)"
    "ar_states (abs (w_db w2)) (src_id src) = ar_states (abs (w_db w1)) (src_id src)"
    "w_now w2 - w_now w1 < min_interval_seconds src * us_sec"
  shows "fetch_source B E' src w2 = (Inr Skipped, w2)"
proof -
  from once_recorded [OF assms(1,5,6,7,2,3)] have f: "ok (w_db w1)" "fetched_now abs (src_id src) w1" by auto
  have "0 < min_interval_seconds src" using is_due_interval [OF assms(4)] by simp
  with f assms(7-10) have "fetch_source_once B E' src w2 = (Inr Skipped, w2)" by (intro quiet [OF f(2)]) auto
  then show ?thesis by (simp add: fetch_source_def fetch_attempts_def numeral_2_eq_2 catch_Inr)
qed

text \<open>A GitHub answer that is not a list is neither an error nor recorded: the source stays due.\<close>

lemma ghsa_other_json_not_recorded:
  assumes "raise_for_status resp = Inr ()" "rs_json resp = Inr data" "\<And>rows. data \<noteq> JList rows"
  shows "ghsa_body B E src resp w = (Inr [], w)"
  using assms by (cases data) (auto simp: ghsa_body_def bind_run run_ret)

lemma not_modified:
  assumes "ok (w_db w)" "dt_range (w_now w)" "ar_states (abs (w_db w)) (src_id src) = Some s"
    "src_kind src = ''rss''" "is_due src (Some s) (w_now w)" "stored_items (Some s) = Some cached"
    "net E (length (w_sent w)) (request plain_client ''GET'' (src_url src) (validator_headers (Some s)) [] NoBody) = Inr resp"
    "rs_status resp = 304"
  shows "\<exists>w' s'. fetch_source B E src w = (Inr (Fetched (take (max_items src) cached)), w') \<and>
    w_sent w' = w_sent w @ [request plain_client ''GET'' (src_url src) (validator_headers (Some s)) [] NoBody] \<and>
    get_source_state B (src_id src) (w_db w') = Inr (Some s') \<and>
    st_last_payload s' = st_last_payload s \<and> st_last_fetched_at s' = Some (iso_now (w_now w))"
proof -
  let ?rq = "request plain_client ''GET'' (src_url src) (validator_headers (Some s)) [] NoBody"
  let ?w1 = "w\<lparr>w_sent := w_sent w @ [?rq]\<rparr>"
  let ?e = "opt_or (rs_header resp ''etag'') (st_etag s)" and ?m = "opt_or (rs_header resp ''last-modified'') (st_last_modified s)"
  have load: "load_state B (src_id src) w = (Inr (Some s), w)" using load_ok [OF assms(1), of "src_id src"] assms(3) by simp
  have get: "http_get E (src_url src) (validator_headers (Some s)) [] w = (Inr resp, ?w1)"
    using assms(7) by (simp add: http_send_def Let_def)
  from save_ok [of ?w1 src ?e ?m None True None] assms(1,2) obtain db' where
    save: "save_state B src ?e ?m None True None ?w1 = (Inr (), ?w1\<lparr>w_db := db'\<rparr>)" and db': "ok db'"
    "abs db' = ar_set_state (w_now w) (src_id src) (fetch_write (w_now w) ?e ?m None True None) (abs (w_db w))"
    by auto
  from save have reuse: "reuse B src (Some s) resp cached ?w1 = (Inr (take (max_items src) cached), ?w1\<lparr>w_db := db'\<rparr>)"
    by (simp add: reuse_def bind_run run_ret)
  have "fetch_rss B E src w = (Inr (take (max_items src) cached), ?w1\<lparr>w_db := db'\<rparr>)"
    using load get reuse assms(6,8) by (simp add: fetch_rss_def bind_run)
  then have "fetch_kind B E src (Some s) w = (Inr (take (max_items src) cached), ?w1\<lparr>w_db := db'\<rparr>)"
    using assms(4) by (simp add: fetch_kind_def)
  then have "catch (fetch_kind B E src (Some s)) (record_failure B src (Some s)) w
      = (Inr (take (max_items src) cached), ?w1\<lparr>w_db := db'\<rparr>)"
    by (rule catch_Inr)
  then have "fetch_source_once B E src w = (Inr (Fetched (take (max_items src) cached)), ?w1\<lparr>w_db := db'\<rparr>)"
    using load assms(5) by (simp add: fetch_source_once_def bind_run run_ret)
  then have "fetch_source B E src w = (Inr (Fetched (take (max_items src) cached)), ?w1\<lparr>w_db := db'\<rparr>)"
    by (simp add: fetch_source_def fetch_attempts_def numeral_2_eq_2 catch_Inr)
  moreover have "get_source_state B (src_id src) db' =
      Inr (Some (state_after (w_now w) (fetch_write (w_now w) ?e ?m None True None) (Some s)))"
    using get_state [of db' "src_id src"] db' assms(3) by (simp add: ar_set_state_def)
  moreover have "st_last_payload (state_after (w_now w) (fetch_write (w_now w) ?e ?m None True None) (Some s)) = st_last_payload s"
    by (simp add: state_after_def coalesce_def Let_def)
  ultimately show ?thesis by (simp add: state_after_fetched)
qed

end

section \<open>What a fetch may write\<close>

text \<open>The archives differ at most in the fetch state of the given sources.\<close>

definition beside :: "string set \<Rightarrow> archive \<Rightarrow> archive \<Rightarrow> bool" where
  "beside sids A A' \<longleftrightarrow> ar_items A' = ar_items A \<and> ar_alerted A' = ar_alerted A \<and>
     (\<forall>sid. sid \<notin> sids \<longrightarrow> ar_states A' sid = ar_states A sid)"

lemma keeps_io_map_in:
  "(\<And>x. x \<in> set xs \<Longrightarrow> keeps I (f x)) \<Longrightarrow> (\<And>x. timely (f x)) \<Longrightarrow> keeps I (io_map f xs)"
proof (induction xs)
  case (Cons x xs)
  have "timely (io_map f xs)" using Cons.prems(2) by (rule timely_io_map)
  then have "keeps I (bind (io_map f xs) (\<lambda>ys. ret (y # ys)))" "timely (bind (io_map f xs) (\<lambda>ys. ret (y # ys)))" for y
    using Cons by (auto intro!: io_intros)
  with Cons.prems show ?case unfolding io_map.simps by (intro keeps_bind [where m = "f x"]) simp_all
qed (auto intro: io_intros)

lemma beside_refl: "beside sids A A"
  by (simp add: beside_def)

lemma beside_set_state: "beside sids A A' \<Longrightarrow> sid \<in> sids \<Longrightarrow> beside sids A (ar_set_state now sid st A')"
  by (auto simp: beside_def ar_set_state_def)

context storage
begin

lemma keeps_beside_save:
  assumes "src_id src \<in> sids" shows "keeps (\<lambda>db. ok db \<and> beside sids A (abs db)) (save_state B src a b c d e)"
  unfolding keeps_def
proof (intro allI impI)
  fix w :: "'db world"
  assume w: "(ok (w_db w) \<and> beside sids A (abs (w_db w))) \<and> 0 \<le> w_now w \<and> dt_range (w_now (snd (save_state B src a b c d e w)))"
  then have "dt_range (w_now w)"
    using timely_state(2) [of B src a b c d e] dt_range_before unfolding timely_def by blast
  with save_ok [of w src a b c d e] w beside_set_state [OF _ assms] show
    "ok (w_db (snd (save_state B src a b c d e w))) \<and> beside sids A (abs (w_db (snd (save_state B src a b c d e w))))"
    by auto
qed

lemma keeps_beside_source:
  assumes "src_id src \<in> sids" shows "keeps (\<lambda>db. ok db \<and> beside sids A (abs db)) (fetch_source B E src)"
proof -
  note save = keeps_beside_save [OF assms]
  have kind: "keeps (\<lambda>db. ok db \<and> beside sids A (abs db)) (fetch_kind B E src state)" for state
    unfolding fetch_defs by (intro io_intros save)
  show ?thesis
    unfolding fetch_source_def fetch_source_once_def record_failure_def by (intro io_intros kind save)
qed

lemma fetch_source_beside:
  assumes "fetch_source B E src w = (r, w')" "ok (w_db w)" "0 \<le> w_now w" "dt_range (w_now w')"
  shows "ok (w_db w') \<and> beside {src_id src} (abs (w_db w)) (abs (w_db w'))"
  using keepsD [OF keeps_beside_source assms(1), of "{src_id src}" "abs (w_db w)"] assms(2-4) beside_refl by simp

lemma fetch_all_beside:
  assumes "fetch_all B E w = (r, w')" "ok (w_db w)" "0 \<le> w_now w" "dt_range (w_now w')"
  shows "ok (w_db w') \<and> beside (set source_ids) (abs (w_db w)) (abs (w_db w'))"
proof -
  let ?I = "\<lambda>db. ok db \<and> beside (set source_ids) (abs (w_db w)) (abs db)"
  have one: "keeps ?I (fetch_source B E src)" if "src \<in> set all_sources" for src
    using that by (intro keeps_beside_source) (simp add: source_ids_def)
  have "keeps ?I (io_map (\<lambda>src. bind (attempt (fetch_source B E src)) (\<lambda>r. ret (src, r))) srcs)"
    if "set srcs \<subseteq> set all_sources" for srcs
  proof (rule keeps_io_map_in)
    show "keeps ?I (bind (attempt (fetch_source B E src)) (\<lambda>r. ret (src, r)))" if "src \<in> set srcs" for src
      using that \<open>set srcs \<subseteq> set all_sources\<close> by (intro io_intros one) auto
    show "timely (bind (attempt (fetch_source B E src)) (\<lambda>r. ret (src, r)))" for src by (intro io_intros)
  qed
  from this [OF subset_refl] have "keeps ?I (fetch_all B E)"
    unfolding fetch_all_def by (rule keeps_bind) (auto intro!: io_intros split: prod.split)
  from keepsD [OF this assms(1)] assms(2-4) beside_refl show ?thesis by simp
qed

end

section \<open>Properties\<close>


lemma outage_offline: "outage offline"
  by (simp add: outage_def offline_def is_transport_def)


text \<open>C24. De-duplication loses nothing and repeats nothing: the result has each id of the input exactly
  once, newest first (urgent first at equal times), and an item of the result carries all the
  tags and CVE ids of the items with its id, is urgent when one of them is, and has the most
  severe of their severities.\<close>

theorem dedupe_correct:
  "distinct (map item_id (dedupe items)) \<and> item_id ` set (dedupe items) = item_id ` set items \<and>
   descending recency (dedupe items) \<and>
   (\<forall>it \<in> set (dedupe items). let same = {x \<in> set items. item_id x = item_id it} in
      fset (tags it) = (\<Union>x \<in> same. fset (tags x)) \<and> set (cves it) = (\<Union>x \<in> same. set (cves x)) \<and>
      (urgent it \<longleftrightarrow> (\<exists>x \<in> same. urgent x)) \<and> severity it \<in> severity ` same \<and>
      (\<forall>x \<in> same. severity_rank (severity x) \<le> severity_rank (severity it)))"
proof (intro conjI ballI dedupe_ids)
  show "descending recency (dedupe items)" unfolding dedupe_def by (rule descending_sort_desc)
  fix it assume "it \<in> set (dedupe items)"
  then obtain x xs where x: "filter (\<lambda>y. item_id y = item_id it) items = x # xs" "it = merged x xs"
    unfolding dedupe_in by blast
  then have "{y \<in> set items. item_id y = item_id it} = set (x # xs)" by (metis set_filter)
  with x(2) merged_facts [where x = x and xs = xs] merged_severity [where x = x and xs = xs]
  show "let same = {x \<in> set items. item_id x = item_id it} in
      fset (tags it) = (\<Union>x \<in> same. fset (tags x)) \<and> set (cves it) = (\<Union>x \<in> same. set (cves x)) \<and>
      (urgent it \<longleftrightarrow> (\<exists>x \<in> same. urgent x)) \<and> severity it \<in> severity ` same \<and>
      (\<forall>x \<in> same. severity_rank (severity x) \<le> severity_rank (severity it))"
    unfolding Let_def by metis
qed

lemma dedupe_correct_witness:
  "item_id ` set (dedupe (demo_items @ demo_items)) = {''a'', ''b''} \<and>
   (\<exists>it \<in> set (dedupe (demo_items @ demo_items)). item_id it = ''a'' \<and> urgent it \<and> fset (tags it) = {''linux''})"
proof -
  let ?xs = "demo_items @ demo_items"
  have ids: "item_id ` set ?xs = {''a'', ''b''}" by (auto simp: demo_items_def new_item_def)
  have a: "{x \<in> set ?xs. item_id x = ''a''} = {demo_items ! 0}" "urgent (demo_items ! 0)" "tags (demo_items ! 0) = {|''linux''|}"
    by (auto simp: demo_items_def new_item_def)
  have "urgent it \<and> fset (tags it) = {''linux''}" if "it \<in> set (dedupe ?xs)" "item_id it = ''a''" for it
  proof -
    have "let same = {x \<in> set ?xs. item_id x = item_id it} in fset (tags it) = (\<Union>x \<in> same. fset (tags x)) \<and>
        (urgent it \<longleftrightarrow> (\<exists>x \<in> same. urgent x))"
      using dedupe_correct [of ?xs] that(1) unfolding Let_def by blast
    then show ?thesis unfolding that(2) a(1) Let_def using a(2,3) by simp
  qed
  moreover have i: "item_id ` set (dedupe ?xs) = {''a'', ''b''}" using dedupe_correct [of ?xs] unfolding ids by blast
  then have "''a'' \<in> item_id ` set (dedupe ?xs)" by simp
  then obtain it where "it \<in> set (dedupe ?xs)" "item_id it = ''a''" by (metis imageE)
  ultimately show ?thesis using i by blast
qed

text \<open>Politeness: fetching a source (with its conditional request, its second page and its retry)
  and fetching them all only sends requests that carry the shared user agent, and fetching them
  all never raises, whatever the network and the database do.\<close>

theorem fetch_all_polite:
  "sends polite (fetch_source B E src) \<and> sends polite (fetch_all B E) \<and> no_throw (fetch_all B E)"
  by (intro conjI io_intros no_throw_fetch_all)

text \<open>Start slots of the NVD requests are at least two seconds apart and never before the call,
  for callers in any order. But two seconds are not the limit the comment claims to respect:
  when every source fetches a second page, all of the six requests start within thirty seconds,
  one more than the five the service allows.\<close>

theorem nvd_slots_exceed_limit:
  "sorted_wrt (\<lambda>a b. a + nvd_stagger_seconds * us_sec \<le> b) (slots ts next_free) \<and>
   list_all2 (\<le>) ts (slots ts next_free) \<and>
   length (filter (\<lambda>s. s < 30 * us_sec) (slots (replicate 6 0) 0)) = 6"
proof (intro conjI slots_spaced slots_after_call)
  show "length (filter (\<lambda>s. s < 30 * us_sec) (slots (replicate 6 0) 0)) = 6"
    by (simp add: numeral_eq_Suc reserve_slot_def Let_def nvd_stagger_seconds_def us_sec_def)
qed


lemma stored_items_payload:
  assumes "st_last_payload s = Some (map (\<lambda>it. item_to_dict it now) items)" "items \<noteq> []" "list_all published_ok items"
  shows "stored_items (Some s) = Some (map stored_item items)"
proof -
  have "res_map item_from_dict (map (\<lambda>it. item_to_dict it now) items) = Inr (map stored_item items)"
    using assms(3) by (induction items) (simp_all add: item_from_to_dict)
  with assms(1,2) show ?thesis by (cases items) (auto simp: stored_items_def)
qed

text \<open>C28. The answer 304: a feed that is due and whose stored payload holds the items of an earlier
  fetch is asked once, with the stored validators; when the server answers 304 these items are
  the result (up to the maximum of the source), the payload is kept and the interval restarts.\<close>

theorem not_modified_reuses_items:
  assumes "pg_inv (w_db w)" "pg_up (w_db w)" "dt_range (w_now w)" "src_kind src = ''rss''"
    "get_source_state postgres_store (src_id src) (w_db w) = Inr (Some s)"
    "st_last_payload s = Some (map (\<lambda>it. item_to_dict it now) items)" "items \<noteq> []" "list_all published_ok items"
    "is_due src (Some s) (w_now w)"
    "net E (length (w_sent w)) rq = Inr resp" "rs_status resp = 304"
    "rq = request plain_client ''GET'' (src_url src) (validator_headers (Some s)) [] NoBody"
  shows "\<exists>w' s'. fetch_source postgres_store E src w = (Inr (Fetched (take (max_items src) (map stored_item items))), w') \<and>
    w_sent w' = w_sent w @ [rq] \<and> get_source_state postgres_store (src_id src) (w_db w') = Inr (Some s') \<and>
    st_last_payload s' = st_last_payload s \<and> st_last_fetched_at s' = Some (iso_now (w_now w))"
proof -
  have st: "ar_states (pg_archive (w_db w)) (src_id src) = Some s"
    using pg.get_state [OF assms(1,2), of "src_id src"] assms(5) by simp
  show ?thesis unfolding assms(12)
    using assms(1,2,4,9-11) by (intro pg.not_modified [OF _ assms(3) st]) (simp_all add: assms(12) stored_items_payload [OF assms(6-8)])
qed

definition demo_feed :: source where
  "demo_feed = all_sources ! 0"

definition cached_row :: pg_state where
  "cached_row = \<lparr>g_etag = Some ''v1'', g_last_modified = None, g_last_fetched_at = None, g_last_ok_at = None,
     g_last_error = None, g_last_payload = Some (map (\<lambda>it. item_to_dict it (utc 0)) [demo_items ! 0])\<rparr>"

definition unchanged :: env where
  "unchanged = offline\<lparr>net := (\<lambda>_ _. Inr \<lparr>rs_status = 304, rs_header = (\<lambda>_. None), rs_content = [],
     rs_json = raise_value [], rs_error = []\<rparr>)\<rparr>"


lemma not_modified_reuses_items_witness:
  "\<exists>w'. fetch_source postgres_store unchanged demo_feed
      (new_world (pg_empty\<lparr>pg_states := [(src_id demo_feed, cached_row)]\<rparr>) 0 default_settings)
    = (Inr (Fetched [stored_item (demo_items ! 0)]), w') \<and> length (w_sent w') = 1"
proof -
  let ?w = "new_world (pg_empty\<lparr>pg_states := [(src_id demo_feed, cached_row)]\<rparr>) 0 default_settings"
  let ?s = "\<lparr>st_etag = Some ''v1'', st_last_modified = None, st_last_fetched_at = None, st_last_ok_at = None,
     st_last_error = None, st_last_payload = Some (map (\<lambda>it. item_to_dict it (utc 0)) [demo_items ! 0])\<rparr>"
  have db: "pg_inv (w_db ?w)" "pg_up (w_db ?w)" "dt_range (w_now ?w)"
    by (simp_all add: new_world_def pg_empty_def pg_inv_def dict_ok_def dt_range_def us_day_def)
  have k: "src_kind demo_feed = ''rss''" "0 < max_items demo_feed" by (simp_all add: demo_feed_def source_defs)
  have s: "get_source_state postgres_store (src_id demo_feed) (w_db ?w) = Inr (Some ?s)"
    by (simp add: new_world_def postgres_store_def pg_get_source_state_def pg_conn_def pg_empty_def cached_row_def)
  have p: "list_all published_ok [demo_items ! 0]"
    by (simp add: demo_items_def new_item_def published_ok_def dt_range_def us_day_def)
  have due: "is_due demo_feed (Some ?s) (w_now ?w)" by (simp add: is_due_def nonempty_def)
  let ?rq = "request plain_client ''GET'' (src_url demo_feed) (validator_headers (Some ?s)) [] NoBody"
  obtain resp where r: "net unchanged (length (w_sent ?w)) ?rq = Inr resp" "rs_status resp = 304"
    by (simp add: unchanged_def)
  from not_modified_reuses_items [OF db k(1) s _ _ p due r refl] obtain w' where
    "fetch_source postgres_store unchanged demo_feed ?w
      = (Inr (Fetched (take (max_items demo_feed) (map stored_item [demo_items ! 0]))), w')"
    "w_sent w' = w_sent ?w @ [?rq]" by auto
  with k(2) show ?thesis by (cases "max_items demo_feed") (auto simp: new_world_def)
qed

end
