(* ===== verification/Osv.thy ===== *)
theory Osv
  imports Enrich
begin

text \<open>
  \<open>app/osv.py\<close>: the parser of an OSV record, the cache with its lifetime, the capped fetch of
  the most important CVEs and the enrichment of the items. The requests run in the order of the
  list (the semaphore of the source lets five run at once; they concern different CVEs, so their
  cache entries do not interfere). The lemmas show that the enrichment never raises, keeps within
  the cap, asks for a CVE at most once a day and only adds to the items.
\<close>

section \<open>The record\<close>

definition osv_url :: "string \<Rightarrow> string" where
  "osv_url cid = ''https://api.osv.dev/v1/vulns/'' @ cid"

definition osv_cache_ttl :: int where "osv_cache_ttl = 24 * 60 * 60"

text \<open>\<open>re.match(r"^v?\d+(\.\d+)+", v)\<close>: an optional \<open>v\<close>, digits, and a dot before a digit.\<close>

definition is_version :: "string \<Rightarrow> bool" where
  "is_version v =
     (let d = (case v of c # r \<Rightarrow> if c = CHR ''v'' then r else v | [] \<Rightarrow> []);
          r = dropWhile is_digit d
      in takeWhile is_digit d \<noteq> [] \<and> (case r of c # e # _ \<Rightarrow> c = CHR ''.'' \<and> is_digit e | _ \<Rightarrow> False))"

text \<open>\<open>for x in v.get(k) or []\<close>\<close>

definition rows_of :: "json \<Rightarrow> string \<Rightarrow> json list result" where
  "rows_of v k = res_bind (py_get v k) (\<lambda>x. py_iter (py_or x (JList [])))"

definition osv_package :: "env \<Rightarrow> json \<Rightarrow> string option result" where
  "osv_package E affected =
     res_bind (py_get affected ''package'') (\<lambda>p.
     let pkg = py_or p (JObj []) in
     res_bind (py_get pkg ''name'') (\<lambda>name.
     res_bind (py_get pkg ''ecosystem'') (\<lambda>eco.
     Inr (if truthy name then Some (py_str E (py_or eco (JStr ''unknown'')) @ '':'' @ py_str E name) else None))))"

definition osv_fixed_events :: "json \<Rightarrow> json list result" where
  "osv_fixed_events rng =
     res_bind (rows_of rng ''events'') (\<lambda>events.
     res_bind (res_map (\<lambda>event. py_get event ''fixed'') events) (\<lambda>fs. Inr (filter truthy fs)))"

definition osv_affected_row :: "env \<Rightarrow> json \<Rightarrow> (string option \<times> json list) result" where
  "osv_affected_row E affected =
     res_bind (osv_package E affected) (\<lambda>pkg.
     res_bind (rows_of affected ''ranges'') (\<lambda>ranges.
     res_bind (res_map osv_fixed_events ranges) (\<lambda>fss. Inr (pkg, concat fss))))"

definition re_subject :: "json \<Rightarrow> string result" where
  "re_subject v = (case v of JStr s \<Rightarrow> Inr s | _ \<Rightarrow> raise_type ''expected string or bytes-like object'')"

definition parse_osv :: "env \<Rightarrow> json \<Rightarrow> osv_data result" where
  "parse_osv E data =
     res_bind (rows_of data ''affected'') (\<lambda>affected.
     res_bind (res_map (osv_affected_row E) affected) (\<lambda>rows.
     res_bind (res_map re_subject (concat (map snd rows))) (\<lambda>fixed.
     res_bind (py_get data ''database_specific'') (\<lambda>db_specific.
     res_bind (py_get data ''summary'') (\<lambda>s.
     res_bind (as_str (py_or s (JStr []))) (\<lambda>s.
     res_bind (py_get data ''details'') (\<lambda>details.
     res_bind (py_get data ''aliases'') (\<lambda>aliases.
     let versions = filter is_version fixed;
         sev = (case py_or db_specific (JObj []) of
                  JObj kvs \<Rightarrow> (case map_of kvs ''severity'' of Some (JStr s) \<Rightarrow> Some (lower s) | _ \<Rightarrow> None)
                | _ \<Rightarrow> None)
     in Inr \<lparr>os_summary = s, os_details = details, os_aliases = py_or aliases (JList []),
          os_affected = take 5 (sort (remdups (somes (map fst rows)))),
          os_fixed = take 5 (sort (remdups versions)),
          os_severity = sev, os_patch = versions \<noteq> []\<rparr>))))))))"

section \<open>The cache and the fetch\<close>

definition osv_hit :: "string \<Rightarrow> ('db, osv_data option option) io" where
  "osv_hit cid w =
     (Inr (case map_of (w_osv w) cid of
        Some (d, t) \<Rightarrow> if w_now w - t < osv_cache_ttl * us_sec then Some d else None
      | None \<Rightarrow> None), w)"

definition osv_put :: "string \<Rightarrow> osv_data option \<Rightarrow> int \<Rightarrow> ('db, unit) io" where
  "osv_put cid d t w = (Inr (), w\<lparr>w_osv := dict_set cid (d, t) (w_osv w)\<rparr>)"

definition fetch_one :: "env \<Rightarrow> string \<Rightarrow> ('db, osv_data option) io" where
  "fetch_one E cid =
     bind get_now (\<lambda>now.
     bind (osv_hit cid) (\<lambda>hit.
     case hit of
       Some d \<Rightarrow> ret d
     | None \<Rightarrow>
         bind (http_get E (osv_url cid) [] []) (\<lambda>resp.
         if rs_status resp = 404
         then bind (osv_put cid None now) (\<lambda>_. ret None)
         else
           bind (lift (raise_for_status resp)) (\<lambda>_.
           bind (lift (rs_json resp)) (\<lambda>data.
           bind (lift (parse_osv E data)) (\<lambda>parsed.
           bind (osv_put cid (Some parsed) now) (\<lambda>_. ret (Some parsed))))))))"

text \<open>The CVEs asked for: the caller's order without duplicates, cut at the cap (0: no cap).\<close>

definition osv_wanted :: "int \<Rightarrow> string list \<Rightarrow> string list" where
  "osv_wanted n cs = (let u = from_keys cs in if 0 < n then take (nat n) u else u)"

definition fetch_osv :: "env \<Rightarrow> string list \<Rightarrow> int option \<Rightarrow> ('db, (string, osv_data) dict) io" where
  "fetch_osv E cs max_cves =
     (let cs = osv_wanted (case max_cves of None \<Rightarrow> osv_max_cves_per_run (cfg E) | Some n \<Rightarrow> n) cs in
      if cs = [] then ret []
      else bind (io_map (\<lambda>c. catch (bind (fetch_one E c) (\<lambda>d. ret (c, d))) (\<lambda>_. ret (c, None))) cs)
        (\<lambda>results. ret (dict_of (somes (map (\<lambda>(c, d). map_option (Pair c) d) results)))))"

section \<open>The enrichment\<close>

definition osv_key :: "feed_item \<Rightarrow> nat \<times> nat \<times> int" where
  "osv_key item =
     (if urgent item then 1 else 0,
      dict_get [(''critical'', 4), (''high'', 3), (''medium'', 2), (''low'', 1), (''unknown'', 0)] (severity item) 0,
      (case published item of None \<Rightarrow> instant dt_min | Some p \<Rightarrow> instant (ensure_aware p)))"

definition add_osv :: "(string, osv_data) dict \<Rightarrow> string \<Rightarrow> feed_item \<Rightarrow> feed_item" where
  "add_osv osv cid item =
     (case map_of osv cid of
        None \<Rightarrow> item
      | Some d \<Rightarrow>
          let known = severity item = ''unknown'' \<and>
                (case os_severity d of None \<Rightarrow> False | Some s \<Rightarrow> s \<in> set [''critical'', ''high'', ''medium'', ''low''])
          in item\<lparr>
            summary := (if summary item = [] \<and> os_summary d \<noteq> [] then os_summary d else summary item),
            osv_affected := sort (remdups (osv_affected item @ os_affected d)),
            osv_fixed := sort (remdups (osv_fixed item @ os_fixed d)),
            osv_severity := (if known then os_severity d else osv_severity item),
            severity := (if known then the (os_severity d) else severity item),
            tags := (if os_patch d then finsert ''patch'' (tags item) else tags item)\<rparr>)"

definition osv_item :: "(string, osv_data) dict \<Rightarrow> feed_item \<Rightarrow> feed_item" where
  "osv_item osv item = fold (add_osv osv) (cves item) item"

definition osv_order :: "feed_item list \<Rightarrow> string list" where
  "osv_order items = from_keys (concat (map cves (sort_desc osv_key items)))"

definition enrich_with_osv :: "env \<Rightarrow> feed_item list \<Rightarrow> ('db, feed_item list) io" where
  "enrich_with_osv E items =
     (let cs = osv_order items in
      if cs = [] then ret items
      else bind (fetch_osv E cs None) (\<lambda>osv. ret (map (osv_item osv) items)))"

section \<open>Best effort\<close>

lemma no_throw_fetch_osv [io_intros]: "no_throw (fetch_osv E cs n)"
  unfolding fetch_osv_def Let_def by (intro io_intros)

lemma no_throw_enrich_with_osv: "no_throw (enrich_with_osv E items)"
  unfolding enrich_with_osv_def Let_def by (intro io_intros)

lemma sends_osv_cache [io_intros]: "sends P (osv_hit c)" "sends P (osv_put c d t)"
  by (auto simp: sends_def osv_hit_def osv_put_def intro: later_same)

lemma sends_fetch_one [io_intros]: "sends polite (fetch_one E c)"
  unfolding fetch_one_def by (intro io_intros) auto

lemma sends_fetch_osv [io_intros]: "sends polite (fetch_osv E cs n)"
  unfolding fetch_osv_def Let_def by (intro io_intros)

lemma sends_enrich_with_osv [io_intros]: "sends polite (enrich_with_osv E items)"
  unfolding enrich_with_osv_def Let_def by (intro io_intros)

section \<open>What is asked\<close>

text \<open>A run of a computation adds the requests \<open>rs\<close> to the log.\<close>

lemma fetch_one_cases:
  obtains (hit) d where "fetch_one E c w = (Inr d, w)" "map_of (w_osv w) c \<noteq> None"
  | (new) d rq w' where "fetch_one E c w = (Inr d, w')" "w_sent w' = w_sent w @ [rq]" "rq_url rq = osv_url c"
      "w_osv w' = dict_set c (d, w_now w) (w_osv w)" "w_now w' = w_now w" "w_db w' = w_db w"
  | (failed) e rq w' where "fetch_one E c w = (Inl e, w')" "w_sent w' = w_sent w @ [rq]" "rq_url rq = osv_url c"
      "w_now w' = w_now w" "w_db w' = w_db w"
proof (cases "fst (osv_hit c w)")
  case (Inl e)
  then show ?thesis by (simp add: osv_hit_def)
next
  case (Inr hit)
  show ?thesis
  proof (cases hit)
    case (Some d)
    with Inr show ?thesis
      by (intro that(1) [of d]) (auto simp: fetch_one_def osv_hit_def bind_run run_ret split: option.splits)
  next
    case None
    let ?rq = "request plain_client ''GET'' (osv_url c) [] [] NoBody"
    let ?w = "w\<lparr>w_sent := w_sent w @ [?rq]\<rparr>"
    have h: "osv_hit c w = (Inr None, w)" using Inr None by (auto simp: osv_hit_def)
    have s: "http_get E (osv_url c) [] [] w = (net E (length (w_sent w)) ?rq, ?w)" by (simp add: http_send_def Let_def)
    have run: "fetch_one E c w = bind (http_get E (osv_url c) [] []) (\<lambda>resp.
         if rs_status resp = 404
         then bind (osv_put c None (w_now w)) (\<lambda>_. ret None)
         else
           bind (lift (raise_for_status resp)) (\<lambda>_.
           bind (lift (rs_json resp)) (\<lambda>data.
           bind (lift (parse_osv E data)) (\<lambda>parsed.
           bind (osv_put c (Some parsed) (w_now w)) (\<lambda>_. ret (Some parsed)))))) w"
      using h by (simp add: fetch_one_def bind_run)
    show ?thesis
    proof (cases "net E (length (w_sent w)) ?rq")
      case (Inl e)
      with s have "fetch_one E c w = (Inl e, ?w)" by (simp add: run bind_def)
      then show ?thesis by (intro that(3) [of e ?w ?rq]) simp_all
    next
      case resp: (Inr resp)
      with s have run': "fetch_one E c w =
          (if rs_status resp = 404 then bind (osv_put c None (w_now w)) (\<lambda>_. ret None)
           else bind (lift (raise_for_status resp)) (\<lambda>_. bind (lift (rs_json resp)) (\<lambda>data.
             bind (lift (parse_osv E data)) (\<lambda>parsed. bind (osv_put c (Some parsed) (w_now w)) (\<lambda>_. ret (Some parsed)))))) ?w"
        by (simp add: run bind_run [where m = "http_get E (osv_url c) [] []"])
      show ?thesis
      proof (cases "rs_status resp = 404")
        case True
        then show ?thesis
          using run' by (intro that(2) [of None "?w\<lparr>w_osv := dict_set c (None, w_now w) (w_osv w)\<rparr>" ?rq])
            (simp_all add: bind_def osv_put_def run_ret)
      next
        case False
        show ?thesis
        proof (cases "res_bind (raise_for_status resp) (\<lambda>_. res_bind (rs_json resp) (parse_osv E))")
          case (Inl e)
          with run' False have "fetch_one E c w = (Inl e, ?w)"
            by (cases "raise_for_status resp"; cases "rs_json resp") (auto simp: bind_def osv_put_def run_ret)
          then show ?thesis by (intro that(3) [of e ?w ?rq]) simp_all
        next
          case (Inr parsed)
          with run' False have "fetch_one E c w = (Inr (Some parsed), ?w\<lparr>w_osv := dict_set c (Some parsed, w_now w) (w_osv w)\<rparr>)"
            by (cases "raise_for_status resp"; cases "rs_json resp") (auto simp: bind_def osv_put_def run_ret)
          then show ?thesis
            by (intro that(2) [of "Some parsed" "?w\<lparr>w_osv := dict_set c (Some parsed, w_now w) (w_osv w)\<rparr>" ?rq]) simp_all
        qed
      qed
    qed
  qed
qed

lemma fetch_all_osv_sent:
  "\<exists>results w' rs. io_map (\<lambda>c. catch (bind (fetch_one E c) (\<lambda>d. ret (c, d))) (\<lambda>_. ret (c, None))) cs w = (Inr results, w') \<and>
    w_sent w' = w_sent w @ rs \<and> subseq (map rq_url rs) (map osv_url cs) \<and> w_now w' = w_now w \<and> w_db w' = w_db w"
proof (induction cs arbitrary: w)
  case (Cons c cs)
  let ?f = "\<lambda>c. catch (bind (fetch_one E c) (\<lambda>d. ret (c, d))) (\<lambda>_. ret (c, None))"
  obtain r rs w1 where one: "?f c w = (Inr (c, r), w1)" "w_sent w1 = w_sent w @ rs" "subseq (map rq_url rs) [osv_url c]"
    "w_now w1 = w_now w" "w_db w1 = w_db w"
  proof (cases rule: fetch_one_cases [of E c w])
    case (hit d)
    then show ?thesis by (intro that [of d w "[]"]) (simp_all add: catch_def bind_run run_ret)
  next
    case (new d rq w')
    then show ?thesis by (intro that [of d w' "[rq]"]) (simp_all add: catch_def bind_run run_ret)
  next
    case (failed e rq w')
    then show ?thesis by (intro that [of None w' "[rq]"]) (simp_all add: catch_def bind_stop run_ret)
  qed
  from Cons [of w1] obtain results w' rs' where rest: "io_map ?f cs w1 = (Inr results, w')"
    "w_sent w' = w_sent w1 @ rs'" "subseq (map rq_url rs') (map osv_url cs)" "w_now w' = w_now w1" "w_db w' = w_db w1"
    by blast
  have "subseq (map rq_url (rs @ rs')) (osv_url c # map osv_url cs)"
    using list_emb_append_mono [OF one(3) rest(3)] by simp
  with one rest io_map_run [where f = ?f, OF one(1) rest(1)] show ?case
    by (intro exI [of _ "(c, r) # results"] exI [of _ w'] exI [of _ "rs @ rs'"]) simp
qed (simp add: run_ret)

lemma length_osv_wanted: "length (osv_wanted n cs) = (if 0 < n then min (nat n) (card (set cs)) else card (set cs))"
proof -
  have "length (from_keys cs) = card (set cs)" using distinct_card [of "from_keys cs"] by simp
  then show ?thesis by (simp add: osv_wanted_def Let_def min.commute)
qed

section \<open>What is added\<close>

lemma add_osv_same [simp]:
  "item_id (add_osv osv c it) = item_id it" "title (add_osv osv c it) = title it" "url (add_osv osv c it) = url it"
  "cves (add_osv osv c it) = cves it" "urgent (add_osv osv c it) = urgent it" "kev (add_osv osv c it) = kev it"
  "published (add_osv osv c it) = published it" "patch_status (add_osv osv c it) = patch_status it"
  "is_sample (add_osv osv c it) = is_sample it"
  by (simp_all add: add_osv_def Let_def split: option.split)

text \<open>The records known for the CVEs of an item.\<close>

abbreviation known_osv :: "(string, osv_data) dict \<Rightarrow> string list \<Rightarrow> osv_data set" where
  "known_osv osv cs \<equiv> {d. \<exists>c \<in> set cs. map_of osv c = Some d}"

abbreviation osv_levels :: "string set" where
  "osv_levels \<equiv> {''critical'', ''high'', ''medium'', ''low''}"

lemma fold_add_osv_same [simp]:
  "item_id (fold (add_osv osv) cs it) = item_id it" "title (fold (add_osv osv) cs it) = title it"
  "url (fold (add_osv osv) cs it) = url it" "cves (fold (add_osv osv) cs it) = cves it"
  "urgent (fold (add_osv osv) cs it) = urgent it" "kev (fold (add_osv osv) cs it) = kev it"
  "published (fold (add_osv osv) cs it) = published it" "patch_status (fold (add_osv osv) cs it) = patch_status it"
  "is_sample (fold (add_osv osv) cs it) = is_sample it"
  by (induction cs arbitrary: it) simp_all

lemma known_osv_Cons: "known_osv osv (c # cs) = (case map_of osv c of None \<Rightarrow> {} | Some d \<Rightarrow> {d}) \<union> known_osv osv cs"
  by (auto split: option.split)

lemma add_osv_lists:
  "set (osv_affected (add_osv osv c it)) = set (osv_affected it) \<union> (\<Union>d \<in> known_osv osv [c]. set (os_affected d))"
  "set (osv_fixed (add_osv osv c it)) = set (osv_fixed it) \<union> (\<Union>d \<in> known_osv osv [c]. set (os_fixed d))"
  "fset (tags (add_osv osv c it)) = fset (tags it) \<union> (if \<exists>d \<in> known_osv osv [c]. os_patch d then {''patch''} else {})"
  by (simp_all add: add_osv_def Let_def split: option.split)

lemma known_osv_step: "known_osv osv (c # cs) = known_osv osv [c] \<union> known_osv osv cs"
  by auto

lemma fold_add_osv_lists:
  "set (osv_affected (fold (add_osv osv) cs it)) = set (osv_affected it) \<union> (\<Union>d \<in> known_osv osv cs. set (os_affected d))"
  "set (osv_fixed (fold (add_osv osv) cs it)) = set (osv_fixed it) \<union> (\<Union>d \<in> known_osv osv cs. set (os_fixed d))"
  "fset (tags (fold (add_osv osv) cs it)) = fset (tags it) \<union> (if \<exists>d \<in> known_osv osv cs. os_patch d then {''patch''} else {})"
proof (induction cs arbitrary: it)
  case (Cons c cs)
  { case 1 show ?case unfolding known_osv_step [where osv = osv and c = c and cs = cs] fold_Cons comp_apply Cons(1) add_osv_lists by (simp add: Un_assoc UN_Un) }
  { case 2 show ?case unfolding known_osv_step [where osv = osv and c = c and cs = cs] fold_Cons comp_apply Cons(2) add_osv_lists by (simp add: Un_assoc UN_Un) }
  { case 3 show ?case unfolding known_osv_step [where osv = osv and c = c and cs = cs] fold_Cons comp_apply Cons(3) add_osv_lists by (simp add: Un_assoc bex_Un) blast }
qed simp_all

lemma severity_add_osv:
  "severity (add_osv osv c it) = severity it \<or>
   severity it = ''unknown'' \<and> severity (add_osv osv c it) \<in> osv_levels \<and>
     (\<exists>d. map_of osv c = Some d \<and> os_severity d = Some (severity (add_osv osv c it)))"
  by (auto simp: add_osv_def Let_def split: option.splits)

lemma severity_fold_osv:
  "severity (fold (add_osv osv) cs it) = severity it \<or>
   severity it = ''unknown'' \<and> severity (fold (add_osv osv) cs it) \<in> osv_levels \<and>
     (\<exists>d \<in> known_osv osv cs. os_severity d = Some (severity (fold (add_osv osv) cs it)))"
proof (induction cs arbitrary: it)
  case (Cons c cs)
  show ?case
  proof (cases "severity (add_osv osv c it) = severity it")
    case True
    with Cons [of "add_osv osv c it"] show ?thesis unfolding known_osv_Cons by fastforce
  next
    case False
    with severity_add_osv [of osv c it] obtain d where
      d: "severity it = ''unknown''" "severity (add_osv osv c it) \<in> osv_levels"
        "map_of osv c = Some d" "os_severity d = Some (severity (add_osv osv c it))" by blast
    then have "severity (fold (add_osv osv) cs (add_osv osv c it)) = severity (add_osv osv c it)"
      using Cons [of "add_osv osv c it"] by auto
    with d show ?thesis unfolding known_osv_Cons by simp
  qed
qed simp

lemma item_ok_osv: "item_ok it \<Longrightarrow> item_ok (osv_item osv it)"
proof -
  assume ok: "item_ok it"
  have "plain_tag ''patch''" by (simp add: plain_tag_def tag_char_def is_digit_def cp_def)
  with ok fold_add_osv_lists(3) [of osv "cves it" it] severity_fold_osv [of osv "cves it" it] show ?thesis
    by (auto simp: item_ok_def published_ok_def osv_item_def split: if_splits)
qed

section \<open>What is asked first\<close>

text \<open>How much an item matters: urgent ones before others, then by severity, then by time of publication
  (an item without one counts as the oldest); and a CVE as much as the item that matters most among
  those that name it.\<close>

definition importance :: "feed_item \<Rightarrow> bool \<times> nat \<times> int" where
  "importance it = (urgent it,
     (if severity it = ''critical'' then 4 else if severity it = ''high'' then 3 else if severity it = ''medium'' then 2
      else if severity it = ''low'' then 1 else 0),
     (case published it of None \<Rightarrow> instant dt_min | Some p \<Rightarrow> instant (ensure_aware p)))"

definition cve_importance :: "feed_item list \<Rightarrow> string \<Rightarrow> bool \<times> nat \<times> int" where
  "cve_importance items c = Max (importance ` {it \<in> set items. c \<in> set (cves it)})"

lemma importance_key: "importance a \<le> importance b \<longleftrightarrow> osv_key a \<le> osv_key b"
  by (auto simp: importance_def osv_key_def dict_get_def less_eq_prod_def)

lemma cve_importance_snoc:
  assumes "descending importance (ys @ [y])"
  shows "c \<in> set (concat (map cves ys)) \<Longrightarrow> cve_importance (ys @ [y]) c = cve_importance ys c"
    "c \<in> set (concat (map cves ys)) \<Longrightarrow> importance y \<le> cve_importance ys c"
    "c \<in> set (cves y) \<Longrightarrow> c \<notin> set (concat (map cves ys)) \<Longrightarrow> cve_importance (ys @ [y]) c = importance y"
proof -
  have le: "importance y \<le> importance x" if "x \<in> set ys" for x
    using assms that by (simp add: descending_def sorted_wrt_append)
  let ?S = "{it \<in> set ys. c \<in> set (cves it)}"
  show *: "importance y \<le> cve_importance ys c" if "c \<in> set (concat (map cves ys))"
  proof -
    from that obtain x where x: "x \<in> ?S" by auto
    then have "importance x \<le> cve_importance ys c" unfolding cve_importance_def by (intro Max_ge) auto
    moreover have "importance y \<le> importance x" using x by (intro le) simp
    ultimately show ?thesis by (rule order_trans [rotated])
  qed
  show "cve_importance (ys @ [y]) c = cve_importance ys c" if c: "c \<in> set (concat (map cves ys))"
  proof (cases "c \<in> set (cves y)")
    case True
    then have "{it \<in> set (ys @ [y]). c \<in> set (cves it)} = insert y ?S" by auto
    moreover have "?S \<noteq> {}" using c by auto
    ultimately have "cve_importance (ys @ [y]) c = max (importance y) (cve_importance ys c)"
      by (simp add: cve_importance_def)
    with * [OF c] show ?thesis by (simp add: max_absorb2)
  next
    case False
    then have "{it \<in> set (ys @ [y]). c \<in> set (cves it)} = ?S" by auto
    then show ?thesis by (simp add: cve_importance_def)
  qed
  show "cve_importance (ys @ [y]) c = importance y" if "c \<in> set (cves y)" "c \<notin> set (concat (map cves ys))"
  proof -
    have "{it \<in> set (ys @ [y]). c \<in> set (cves it)} = {y}" using that by auto
    then show ?thesis by (simp add: cve_importance_def)
  qed
qed

lemma cves_descending:
  "descending importance ys \<Longrightarrow> descending (cve_importance ys) (from_keys (concat (map cves ys)))"
proof (induction ys rule: rev_induct)
  case (snoc y ys)
  let ?A = "concat (map cves ys)"
  have "descending importance ys" using snoc.prems by (simp add: descending_def sorted_wrt_append)
  from snoc.IH [OF this] have "descending (cve_importance ys) (from_keys ?A)" .
  then have old: "descending (cve_importance (ys @ [y])) (from_keys ?A)"
    by (subst descending_cong [where g = "cve_importance ys"]) (use cve_importance_snoc(1) [OF snoc.prems] in auto)
  obtain N where N: "from_keys (?A @ cves y) = from_keys ?A @ N" "set N \<subseteq> set (cves y) - set ?A"
    by (auto simp: from_keys_append)
  have new: "cve_importance (ys @ [y]) c = importance y" if "c \<in> set N" for c
    using cve_importance_snoc(3) [OF snoc.prems, of c] N(2) that by blast
  have "cve_importance (ys @ [y]) c' \<le> cve_importance (ys @ [y]) c" if "c \<in> set ?A" "c' \<in> set N" for c c'
    using cve_importance_snoc(1,2) [OF snoc.prems that(1)] new [OF that(2)] by simp
  moreover have "descending (cve_importance (ys @ [y])) N"
    unfolding descending_def by (rule sorted_wrt_mono_rel [where P = "\<lambda>_ _. True"]) (use new in auto)
  ultimately show ?case using old N(1) by (auto simp: descending_def sorted_wrt_append)
qed (simp add: descending_def)

lemma cve_importance_sort: "cve_importance (sort_desc f items) = cve_importance items"
  by (simp add: cve_importance_def fun_eq_iff)

lemma osv_wanted_page:
  "page (cve_importance items) (if 0 < n then n else - 1) (\<Union>it \<in> set items. set (cves it)) (osv_wanted n (osv_order items))"
proof -
  have "descending importance (sort_desc osv_key items)"
    using descending_sort_desc [of osv_key items] by (subst descending_cong [where g = osv_key]) (simp_all add: importance_key)
  from cves_descending [OF this] have d: "descending (cve_importance items) (osv_order items)"
    by (simp add: osv_order_def cve_importance_sort)
  have "distinct (osv_order items)" by (simp add: osv_order_def)
  from page_limit [OF this d] have "page (cve_importance items) (if 0 < n then n else - 1) (set (osv_order items))
      (limit_to (if 0 < n then n else - 1) (osv_order items))" .
  moreover have "set (osv_order items) = (\<Union>it \<in> set items. set (cves it))" by (simp add: osv_order_def)
  moreover have "limit_to (if 0 < n then n else - 1) (osv_order items) = osv_wanted n (osv_order items)"
    by (simp add: osv_wanted_def limit_to_def Let_def osv_order_def)
  ultimately show ?thesis by simp
qed

lemma subseq_distinct: "subseq xs ys \<Longrightarrow> distinct ys \<Longrightarrow> distinct xs"
proof (induction rule: list_emb.induct)
  case (list_emb_Cons2 x y xs ys)
  then show ?case using list_emb_set [OF list_emb_Cons2(2)] by auto
qed auto

section \<open>Properties\<close>

text \<open>C22. The OSV step never raises and keeps within its cap: it wants the CVEs that matter most, as many as
  the cap of the settings allows (all of them when it is not positive): the CVEs of urgent items
  first, then by severity, then by time of publication, a CVE as important as the most important
  item that names it, none twice and none left out that matters more than a wanted one. It asks
  for wanted CVEs only (those without a fresh cache entry), in that order and each at most once.\<close>

theorem osv_within_budget:
  "\<exists>items' w' rs wanted. enrich_with_osv E items w = (Inr items', w') \<and> w_sent w' = w_sent w @ rs \<and>
    page (cve_importance items) (if 0 < osv_max_cves_per_run (cfg E) then osv_max_cves_per_run (cfg E) else - 1)
      (\<Union>it \<in> set items. set (cves it)) wanted \<and>
    subseq (map rq_url rs) (map osv_url wanted) \<and> distinct (map rq_url rs) \<and>
    length rs \<le> (let n = card (\<Union>it \<in> set items. set (cves it)) in
      if 0 < osv_max_cves_per_run (cfg E) then min (nat (osv_max_cves_per_run (cfg E))) n else n)"
proof -
  let ?wanted = "osv_wanted (osv_max_cves_per_run (cfg E)) (osv_order items)"
  have n: "set (osv_order items) = (\<Union>it \<in> set items. set (cves it))" by (simp add: osv_order_def sort_desc_def)
  obtain items' w' rs where run: "enrich_with_osv E items w = (Inr items', w')" "w_sent w' = w_sent w @ rs"
    "subseq (map rq_url rs) (map osv_url ?wanted)"
  proof (cases "?wanted = []")
    case True
    then have "enrich_with_osv E items w = (Inr (map (osv_item []) items), w) \<or> enrich_with_osv E items w = (Inr items, w)"
      by (auto simp: enrich_with_osv_def fetch_osv_def Let_def run_ret)
    then show ?thesis by (auto intro: that [of _ w "[]"])
  next
    case False
    from fetch_all_osv_sent [of E ?wanted w] obtain results w' rs where
      r: "io_map (\<lambda>c. catch (bind (fetch_one E c) (\<lambda>d. ret (c, d))) (\<lambda>_. ret (c, None))) ?wanted w = (Inr results, w')"
        "w_sent w' = w_sent w @ rs" "subseq (map rq_url rs) (map osv_url ?wanted)" by blast
    have "osv_order items \<noteq> []" using False by (auto simp: osv_wanted_def)
    with r False show ?thesis
      by (intro that [of _ w' rs]) (simp_all add: enrich_with_osv_def fetch_osv_def Let_def bind_run run_ret)
  qed
  have "length rs \<le> length ?wanted" using list_emb_length [OF run(3)] by simp
  moreover have "distinct (map rq_url rs)"
  proof (rule subseq_distinct [OF run(3)])
    have "distinct ?wanted" using osv_wanted_page [of items "osv_max_cves_per_run (cfg E)"] by (simp add: page_def)
    then show "distinct (map osv_url ?wanted)" by (simp add: distinct_map inj_on_def osv_url_def)
  qed
  ultimately show ?thesis using run n osv_wanted_page [of items "osv_max_cves_per_run (cfg E)"]
    unfolding Let_def length_osv_wanted by (intro exI [of _ items'] exI [of _ w'] exI [of _ rs] exI [of _ ?wanted] conjI) auto
qed


definition osv_unknown :: env where
  "osv_unknown = offline\<lparr>net := (\<lambda>_ _. Inr \<lparr>rs_status = 404, rs_header = (\<lambda>_. None), rs_content = [],
     rs_json = raise_value [], rs_error = []\<rparr>)\<rparr>"


text \<open>What the OSV record of its CVEs adds to an item: affected packages, fixed versions and the tag
  \<open>patch\<close> are only added, exactly those of the known records; a severity is only set on an
  item whose severity is unknown, from a record that names one of the four levels; identity,
  publication, CVE ids, the KEV flag and urgency stay, so a severity that OSV raises to critical
  does not make an item urgent.\<close>

theorem osv_only_adds:
  "set (osv_affected (osv_item osv it)) = set (osv_affected it) \<union> (\<Union>d \<in> known_osv osv (cves it). set (os_affected d)) \<and>
   set (osv_fixed (osv_item osv it)) = set (osv_fixed it) \<union> (\<Union>d \<in> known_osv osv (cves it). set (os_fixed d)) \<and>
   fset (tags (osv_item osv it)) =
     fset (tags it) \<union> (if \<exists>d \<in> known_osv osv (cves it). os_patch d then {''patch''} else {}) \<and>
   (severity (osv_item osv it) = severity it \<or>
    severity it = ''unknown'' \<and> severity (osv_item osv it) \<in> osv_levels \<and>
      (\<exists>d \<in> known_osv osv (cves it). os_severity d = Some (severity (osv_item osv it)))) \<and>
   item_id (osv_item osv it) = item_id it \<and> published (osv_item osv it) = published it \<and>
   cves (osv_item osv it) = cves it \<and> kev (osv_item osv it) = kev it \<and> urgent (osv_item osv it) = urgent it"
  unfolding osv_item_def using severity_fold_osv [of osv "cves it" it] by (simp add: fold_add_osv_lists)

end
