(* ===== verification/Alerts.thy ===== *)
theory Alerts
  imports Enrich SqliteStore
begin

text \<open>
  \<open>app/alerts.py\<close>: the texts and payloads of an alert, the three channels (Discord, Slack,
  mail) and \<open>send_urgent_alerts\<close>, over the JSON dictionaries the store returns. The lemmas show
  that alerting never raises and marks exactly what it delivered (what follows for a sequence of
  runs is in \<open>Delivery\<close>), and what happens to an item when one of several channels fails.
\<close>

section \<open>Texts\<close>

definition max_alerts_per_run :: int where "max_alerts_per_run = 10"

text \<open>\<open>v[:n]\<close>\<close>

definition py_slice :: "nat \<Rightarrow> json \<Rightarrow> json result" where
  "py_slice n v = (case v of JStr s \<Rightarrow> Inr (JStr (take n s)) | JList xs \<Rightarrow> Inr (JList (take n xs))
     | _ \<Rightarrow> raise_type (CHR 0x27 # type_name v @ [CHR 0x27] @ '' object is not subscriptable''))"

definition newline :: string where "newline = [CHR 0x0A]"

definition backtick :: string where "backtick = [CHR 0x60]"

definition format_item :: "env \<Rightarrow> json \<Rightarrow> string result" where
  "format_item E item =
     res_bind (py_get_def item ''tags'' (JList [])) (\<lambda>v.
     res_bind (py_iter v) (\<lambda>ts.
     res_bind (py_get_def item ''cves'' (JList [])) (\<lambda>v.
     res_bind (py_iter v) (\<lambda>cs.
     res_bind (res_map as_str cs) (\<lambda>cs.
     res_bind (py_get_def item ''severity'' (JStr ''unknown'')) (\<lambda>v.
     res_bind (str_for ''upper'' v) (\<lambda>sev.
     res_bind (py_get item ''title'') (\<lambda>t.
     res_bind (py_get_def item ''summary'' (JStr [])) (\<lambda>v.
     res_bind (py_slice 300 v) (\<lambda>s.
     res_bind (py_get item ''source'') (\<lambda>src.
     res_bind (py_get item ''time_ago'') (\<lambda>ago.
     res_bind (py_get item ''url'') (\<lambda>u.
     Inr (''*['' @ upper sev @ ''] '' @ py_str E t @ ''*'' @ newline
       @ py_str E s @ newline
       @ ''Source: '' @ py_str E src @ '' | '' @ py_str E ago @ newline
       @ ''Tags: '' @ join '' '' (map (\<lambda>t. backtick @ py_str E t @ backtick) ts)
       @ '' | CVEs: '' @ join '' '' cs @ newline
       @ ''<'' @ py_str E u @ ''>''))))))))))))))"

definition severity_colors :: "(string, int) dict" where
  "severity_colors = [(''critical'', 0xE53935), (''high'', 0xFB8C00), (''medium'', 0xFDD835),
     (''low'', 0x1E88E5), (''unknown'', 0x9E9E9E)]"

text \<open>The dash for missing texts is an em dash in the source.\<close>

definition discord_payload :: "env \<Rightarrow> json \<Rightarrow> json result" where
  "discord_payload E item =
     res_bind (py_get item ''severity'') (\<lambda>v.
     res_bind (str_for ''lower'' (py_or v (JStr ''unknown''))) (\<lambda>s.
     let sev = lower s in
     res_bind (py_get item ''cves'') (\<lambda>v.
     res_bind (py_iter (py_or v (JList []))) (\<lambda>cs.
     res_bind (res_map as_str cs) (\<lambda>cs.
     let ids = (if join '', '' cs = [] then [sub_char] else join '', '' cs) in
     res_bind (py_get item ''title'') (\<lambda>t.
     let head = take 256 (''['' @ upper sev @ ''] '' @ py_str E (py_or t (JStr []))) in
     res_bind (py_get item ''summary'') (\<lambda>v.
     res_bind (py_slice 1800 (py_or v (JStr []))) (\<lambda>d.
     res_bind (py_get item ''url'') (\<lambda>u.
     res_bind (py_get item ''source'') (\<lambda>src.
     res_bind (py_get item ''time_ago'') (\<lambda>ago.
     Inr (JObj
       [(''username'', JStr ''Security Feed''),
        (''embeds'', JList [JObj
          [(''title'', JStr head),
           (''description'', py_or d (JStr [sub_char])),
           (''url'', u),
           (''color'', JInt (dict_get severity_colors sev 0x9E9E9E)),
           (''fields'', JList
             [JObj [(''name'', JStr ''Source''),
                    (''value'', JStr (py_str E src @ '' '' @ [CHR 0xB7] @ '' '' @ py_str E ago)),
                    (''inline'', JBool True)],
              JObj [(''name'', JStr ''CVEs''), (''value'', JStr (take 1024 ids)), (''inline'', JBool True)]]),
           (''footer'', JObj [(''text'', JStr ''Security Intelligence Live Feed'')])]])]))))))))))))"

section \<open>Channels\<close>

definition post_json :: "env \<Rightarrow> string \<Rightarrow> json \<Rightarrow> ('db, unit) io" where
  "post_json E u payload =
     bind (http_send plain_client E ''POST'' u [] [] (JsonBody payload)) (\<lambda>resp. lift (raise_for_status resp))"

definition send_slack :: "env \<Rightarrow> string \<Rightarrow> string \<Rightarrow> ('db, unit) io" where
  "send_slack E webhook msg = post_json E webhook (JObj [(''text'', JStr msg)])"

definition send_discord :: "env \<Rightarrow> string \<Rightarrow> json \<Rightarrow> ('db, unit) io" where
  "send_discord E webhook item = bind (lift (discord_payload E item)) (post_json E webhook)"

text \<open>
  \<open>EmailMessage\<close> refuses a header value of more than one line, that is with a line break
  that is not at its end (\<open>str.splitlines\<close>).
\<close>

definition line_break :: "char \<Rightarrow> bool" where
  "line_break c \<longleftrightarrow> cp c \<in> set [10, 11, 12, 13, 28, 29, 30, 133]"

definition one_line :: "string \<Rightarrow> bool" where
  "one_line v =
     (let r = rev v;
          body = (case r of
              c # d # s \<Rightarrow> if c = CHR 0x0A \<and> d = CHR 0x0D then s else if line_break c then d # s else r
            | [c] \<Rightarrow> if line_break c then [] else r
            | [] \<Rightarrow> [])
      in list_all (Not \<circ> line_break) body)"

definition send_email :: "env \<Rightarrow> string \<Rightarrow> string \<Rightarrow> string \<Rightarrow> ('db, unit) io" where
  "send_email E dest subject text_body w =
     (if one_line (alert_from (cfg E)) \<and> one_line dest \<and> one_line subject
      then (smtp E (length (w_mails w)), w\<lparr>w_mails := w_mails w @
        [\<lparr>m_from = alert_from (cfg E), m_to = dest, m_subject = subject, m_body = text_body\<rparr>]\<rparr>)
      else (raise_value ''Header values may not contain linefeed or carriage return characters'', w))"

definition mail_to :: "settings \<Rightarrow> string option" where
  "mail_to st = (if given (smtp_host st) = None then None else given (alert_email_to st))"

section \<open>Alerting\<close>

definition alert_text :: "env \<Rightarrow> json \<Rightarrow> (string \<times> string) result" where
  "alert_text E item =
     res_bind (py_get_def item ''severity'' (JStr ''unknown'')) (\<lambda>v.
     res_bind (str_for ''upper'' v) (\<lambda>sev.
     res_bind (py_get_def item ''title'' (JStr [])) (\<lambda>v.
     res_bind (py_slice 80 v) (\<lambda>t.
     res_bind (format_item E item) (\<lambda>b.
     Inr (''[security-feed] '' @ upper sev @ '' - '' @ py_str E t, b))))))"

definition when_some :: "'a option \<Rightarrow> ('a \<Rightarrow> ('db, unit) io) \<Rightarrow> ('db, unit) io" where
  "when_some v f = (case v of None \<Rightarrow> ret () | Some x \<Rightarrow> f x)"

definition deliver :: "env \<Rightarrow> json \<Rightarrow> string \<Rightarrow> string \<Rightarrow> ('db, unit) io" where
  "deliver E item subject msg =
     bind (when_some (given (discord_webhook_url (cfg E))) (\<lambda>u. send_discord E u item)) (\<lambda>_.
     bind (when_some (given (slack_webhook_url (cfg E))) (\<lambda>u. send_slack E u msg)) (\<lambda>_.
     when_some (mail_to (cfg E)) (\<lambda>dest. send_email E dest subject msg)))"

definition id_of :: "json \<Rightarrow> string result" where
  "id_of item = (case item of
     JObj kvs \<Rightarrow> (case map_of kvs ''id'' of None \<Rightarrow> raise_key ''id'' | Some v \<Rightarrow> as_str v)
   | _ \<Rightarrow> raise_type ''not a dict'')"

definition alert_one :: "env \<Rightarrow> json \<Rightarrow> ('db, string option) io" where
  "alert_one E item =
     bind (lift (alert_text E item)) (\<lambda>(subject, msg).
     catch (bind (deliver E item subject msg) (\<lambda>_. bind (lift (id_of item)) (\<lambda>i. ret (Some i))))
       (\<lambda>_. bind (lift (id_of item)) (\<lambda>_. ret None)))"

definition send_urgent_alerts :: "'db backend \<Rightarrow> env \<Rightarrow> ('db, string list) io" where
  "send_urgent_alerts B E =
     bind get_now (\<lambda>now.
     bind (attempt (db_read (unalerted_urgent_items B now max_alerts_per_run))) (\<lambda>r.
     case r of
       Inl e \<Rightarrow> ret []
     | Inr items \<Rightarrow>
         bind (io_map (alert_one E) items) (\<lambda>rs.
         let alerted = somes rs in
         bind (if alerted = [] then ret ()
               else bind get_now (\<lambda>now. catch (db_write (mark_alerted B now alerted)) (\<lambda>_. ret ())))
           (\<lambda>_. ret alerted))))"

section \<open>What an alert does\<close>

lemma id_of_item [simp]: "id_of (item_to_dict it t) = Inr (item_id it)"
  by (simp add: id_of_def item_to_dict_def Let_def)

lemma alert_text_item: "\<exists>s b. alert_text E (item_to_dict it t) = Inr (s, b)"
  by (simp add: alert_text_def format_item_def item_to_dict_def Let_def py_slice_def jstrs_def)

lemma discord_payload_item: "\<exists>p. discord_payload E (item_to_dict it t) = Inr p"
  by (simp add: discord_payload_def item_to_dict_def Let_def py_slice_def jstrs_def py_or_def)

lemma leaves_case_prod [io_intros]: "(\<And>x y. leaves (f x y)) \<Longrightarrow> leaves (case p of (x, y) \<Rightarrow> f x y)"
  by (simp add: case_prod_unfold)

lemma leaves_when_some [io_intros]: "(\<And>x. v = Some x \<Longrightarrow> leaves (f x)) \<Longrightarrow> leaves (when_some v f)"
  by (simp add: when_some_def split: option.split)

lemma leaves_send_email [io_intros]: "leaves (send_email E dest s b)"
  by (simp add: leaves_def send_email_def)

lemma leaves_alert_one [io_intros]: "leaves (alert_one E item)"
  unfolding alert_one_def deliver_def send_discord_def send_slack_def post_json_def
  by (intro io_intros)

lemma alert_one_item:
  "\<exists>r w'. alert_one E (item_to_dict it t) w = (Inr r, w') \<and> r \<in> {None, Some (item_id it)}"
proof -
  obtain s b where "alert_text E (item_to_dict it t) = Inr (s, b)" using alert_text_item by blast
  moreover obtain r w1 where "deliver E (item_to_dict it t) s b w = (r, w1)" by (cases "deliver E (item_to_dict it t) s b w")
  ultimately show ?thesis by (cases r) (simp_all add: alert_one_def catch_def bind_def run_ret)
qed

lemma alert_items:
  "\<exists>rs w'. io_map (alert_one E) (map (\<lambda>r. item_to_dict (a_item r) t) rows) w = (Inr rs, w') \<and>
    subseq (somes rs) (map (\<lambda>r. item_id (a_item r)) rows)"
proof (induction rows arbitrary: w)
  case (Cons r rows)
  obtain x w1 where x: "alert_one E (item_to_dict (a_item r) t) w = (Inr x, w1)" "x \<in> {None, Some (item_id (a_item r))}"
    using alert_one_item by blast
  from Cons [of w1] obtain rs w' where rs: "io_map (alert_one E) (map (\<lambda>r. item_to_dict (a_item r) t) rows) w1 = (Inr rs, w')"
    "subseq (somes rs) (map (\<lambda>r. item_id (a_item r)) rows)" by blast
  have "subseq (somes (x # rs)) (map (\<lambda>r. item_id (a_item r)) (r # rows))"
    using rs(2) x(2) by (auto simp: somes_def)
  with io_map_run [OF x(1) rs(1)] show ?case by auto
qed (simp add: run_ret somes_def)

lemma subseq_facts: "subseq xs ys \<Longrightarrow> set xs \<subseteq> set ys \<and> (distinct ys \<longrightarrow> distinct xs)"
  by (induction rule: list_emb.induct) auto

context storage
begin

lemma row_ids_distinct:
  assumes "inv db" "distinct rs" "set rs \<subseteq> ar_urgent (abs db)"
  shows "distinct (map (\<lambda>r. item_id (a_item r)) rs)"
proof -
  have "inj_on (\<lambda>r. item_id (a_item r)) (set rs)"
  proof (rule inj_onI)
    fix r s assume rs: "r \<in> set rs" "s \<in> set rs" "item_id (a_item r) = item_id (a_item s)"
    then have "r \<in> ran (ar_items (abs db))" "s \<in> ran (ar_items (abs db))"
      using assms(3) unfolding ar_urgent_def ar_visible_def ar_rows_def by blast+
    then obtain i j where "ar_items (abs db) i = Some r" "ar_items (abs db) j = Some s"
      unfolding ran_def by blast
    with rs(3) keyed [OF assms(1)] show "r = s" by fastforce
  qed
  with assms(2) show ?thesis by (simp add: distinct_map)
qed

text \<open>Alerting ends with the ids it delivered, and these are marked.\<close>

lemma alerts_run:
  assumes "inv (w_db w)" "up (w_db w)" "dt_range (w_now w)"
  shows "\<exists>ids w'. send_urgent_alerts B E w = (Inr ids, w') \<and> inv (w_db w') \<and> up (w_db w') \<and>
    abs (w_db w') = ar_mark (w_now w) ids (abs (w_db w)) \<and> distinct ids \<and> length ids \<le> 10 \<and>
    set ids \<subseteq> (\<lambda>r. item_id (a_item r)) ` ar_urgent (abs (w_db w)) \<and> w_now w' = w_now w"
proof -
  from unalerted [OF assms(1,2), of "w_now w" max_alerts_per_run] obtain rows where
    rows: "unalerted_urgent_items B (w_now w) max_alerts_per_run (w_db w) = Inr (emitted (w_now w) rows)"
    "page (\<lambda>r. fst (row_key r)) max_alerts_per_run (ar_urgent (abs (w_db w))) rows" by blast
  obtain rs w1 where rs: "io_map (alert_one E) (emitted (w_now w) rows) w = (Inr rs, w1)"
    "subseq (somes rs) (map (\<lambda>r. item_id (a_item r)) rows)" using alert_items by blast
  have w1: "w_db w1 = w_db w" "w_now w1 = w_now w"
    using leavesD [OF leaves_io_map rs(1)] leaves_alert_one by blast+
  have d: "distinct (map (\<lambda>r. item_id (a_item r)) rows)"
    using rows(2) by (intro row_ids_distinct [OF assms(1)]) (auto simp: page_def)
  have ids: "distinct (somes rs)" "length (somes rs) \<le> 10"
    "set (somes rs) \<subseteq> (\<lambda>r. item_id (a_item r)) ` ar_urgent (abs (w_db w))"
  proof -
    show "distinct (somes rs)" using subseq_facts [OF rs(2)] d by blast
    show "length (somes rs) \<le> 10"
      using list_emb_length [OF rs(2)] rows(2) by (simp add: page_def max_alerts_per_run_def)
    show "set (somes rs) \<subseteq> (\<lambda>r. item_id (a_item r)) ` ar_urgent (abs (w_db w))"
      using subseq_facts [OF rs(2)] rows(2) by (auto simp: page_def)
  qed
  show ?thesis
  proof (cases "somes rs = []")
    case True
    then have "send_urgent_alerts B E w = (Inr [], w1)"
      using rows(1) rs(1) by (simp add: send_urgent_alerts_def db_read_def attempt_def bind_run run_ret Let_def)
    moreover have "ar_mark (w_now w) [] A = A" for A by (simp add: ar_mark_def fun_eq_iff split: option.split)
    ultimately show ?thesis using w1 assms by auto
  next
    case False
    from mark [of "w_db w1" "w_now w1" "somes rs"] w1 assms obtain db' where
      db': "mark_alerted B (w_now w) (somes rs) (w_db w1) = Inr db'" "inv db'" "up db'"
        "abs db' = ar_mark (w_now w) (somes rs) (abs (w_db w))" by auto
    then have "send_urgent_alerts B E w = (Inr (somes rs), w1\<lparr>w_db := db'\<rparr>)"
      using rows(1) rs(1) w1 False
      by (simp add: send_urgent_alerts_def db_read_def attempt_def bind_run run_ret Let_def catch_def db_write_def)
    with db' ids w1 show ?thesis by auto
  qed
qed

lemma alerts_down: "\<not> up (w_db w) \<Longrightarrow> send_urgent_alerts B E w = (Inr [], w)"
  using down(3) [of "w_db w" "w_now w" max_alerts_per_run]
  by (cases "unalerted_urgent_items B (w_now w) max_alerts_per_run (w_db w)")
    (auto simp: send_urgent_alerts_def db_read_def attempt_def bind_run run_ret)

text \<open>Two channels, the second one failing: nothing is marked, so every run repeats the first.\<close>

lemma failing_channel:
  assumes "inv (w_db w)" "up (w_db w)" "given (discord_webhook_url (cfg E)) = Some u" "given (slack_webhook_url (cfg E)) = Some v"
    "\<And>n rq. rq_url rq = u \<Longrightarrow> \<exists>resp. net E n rq = Inr resp \<and> raise_for_status resp = Inr ()"
    "\<And>n rq. rq_url rq = v \<Longrightarrow> \<exists>e. net E n rq = Inl e"
  shows "\<exists>rows sent. page (\<lambda>r. fst (row_key r)) max_alerts_per_run (ar_urgent (abs (w_db w))) rows \<and>
    map rq_url sent = concat (replicate (length rows) [u, v]) \<and>
    send_urgent_alerts B E w = (Inr [], w\<lparr>w_sent := w_sent w @ sent\<rparr>) \<and>
    send_urgent_alerts B E (w\<lparr>w_sent := w_sent w @ sent\<rparr>) = (Inr [], w\<lparr>w_sent := (w_sent w @ sent) @ sent\<rparr>)"
proof -
  have one: "\<exists>sent. map rq_url sent = [u, v] \<and>
      (\<forall>w :: 'db world. alert_one E (item_to_dict it t) w = (Inr None, w\<lparr>w_sent := w_sent w @ sent\<rparr>))" for it t
  proof -
    obtain s b where sb: "alert_text E (item_to_dict it t) = Inr (s, b)" using alert_text_item by blast
    obtain p where p: "discord_payload E (item_to_dict it t) = Inr p" using discord_payload_item by blast
    let ?d = "request plain_client ''POST'' u [] [] (JsonBody p)"
    let ?s = "request plain_client ''POST'' v [] [] (JsonBody (JObj [(''text'', JStr b)]))"
    have "alert_one E (item_to_dict it t) w = (Inr None, w\<lparr>w_sent := w_sent w @ [?d, ?s]\<rparr>)" for w :: "'db world"
    proof -
      let ?w = "w\<lparr>w_sent := w_sent w @ [?d]\<rparr>"
      obtain resp where "net E (length (w_sent w)) ?d = Inr resp" "raise_for_status resp = Inr ()"
        using assms(5) [of ?d] by auto
      then have d: "send_discord E u (item_to_dict it t) w = (Inr (), ?w)"
        by (simp add: send_discord_def post_json_def http_send_def Let_def bind_def p run_ret)
      obtain e where e: "net E (length (w_sent ?w)) ?s = Inl e" using assms(6) [of ?s] by auto
      then have "send_slack E v b ?w = (Inl e, ?w\<lparr>w_sent := w_sent ?w @ [?s]\<rparr>)"
        by (simp add: send_slack_def post_json_def http_send_def Let_def bind_def run_ret)
      with d have "deliver E (item_to_dict it t) s b w = (Inl e, w\<lparr>w_sent := w_sent w @ [?d, ?s]\<rparr>)"
        by (simp add: deliver_def when_some_def assms(3,4) bind_def)
      then show ?thesis by (simp add: alert_one_def sb catch_def bind_def run_ret)
    qed
    then show ?thesis by (intro exI [of _ "[?d, ?s]"]) simp
  qed
  have all: "\<exists>sent. map rq_url sent = concat (replicate (length rows) [u, v]) \<and>
      (\<forall>w :: 'db world. io_map (alert_one E) (emitted t rows) w = (Inr (replicate (length rows) None), w\<lparr>w_sent := w_sent w @ sent\<rparr>))" for t rows
  proof (induction rows)
    case (Cons r rows)
    then obtain s2 where s2: "map rq_url s2 = concat (replicate (length rows) [u, v])"
      "\<And>w :: 'db world. io_map (alert_one E) (emitted t rows) w = (Inr (replicate (length rows) None), w\<lparr>w_sent := w_sent w @ s2\<rparr>)"
      by (elim exE conjE) (rule that, assumption, erule spec)
    obtain s1 where s1: "map rq_url s1 = [u, v]"
      "\<And>w :: 'db world. alert_one E (item_to_dict (a_item r) (utc t)) w = (Inr None, w\<lparr>w_sent := w_sent w @ s1\<rparr>)" using one [of "a_item r" "utc t"]
      by (elim exE conjE) (rule that, assumption, erule spec)
    show ?case using s1 s2 by (intro exI [of _ "s1 @ s2"]) (simp add: bind_def run_ret)
  qed (simp add: run_ret exI [of _ "[]"])
  from unalerted [OF assms(1,2), of "w_now w" max_alerts_per_run] obtain rows where
    rows: "unalerted_urgent_items B (w_now w) max_alerts_per_run (w_db w) = Inr (emitted (w_now w) rows)"
    "page (\<lambda>r. fst (row_key r)) max_alerts_per_run (ar_urgent (abs (w_db w))) rows" by blast
  from all [of rows "w_now w"] obtain sent where
    sent: "map rq_url sent = concat (replicate (length rows) [u, v])"
    "\<And>w' :: 'db world. io_map (alert_one E) (emitted (w_now w) rows) w' = (Inr (replicate (length rows) None), w'\<lparr>w_sent := w_sent w' @ sent\<rparr>)"
    by (elim exE conjE) (rule that, assumption, erule spec)
  have none: "somes (replicate n None) = []" for n by (induction n) (simp_all add: somes_def)
  have "send_urgent_alerts B E w' = (Inr [], w'\<lparr>w_sent := w_sent w' @ sent\<rparr>)"
    if "w_db w' = w_db w" "w_now w' = w_now w" for w' :: "'db world"
    using that rows(1) sent(2) by (simp add: send_urgent_alerts_def db_read_def attempt_def bind_run run_ret none)
  from this [of w] this [of "w\<lparr>w_sent := w_sent w @ sent\<rparr>"] rows(2) sent(1) show ?thesis
    by (intro exI [of _ rows] exI [of _ sent]) simp
qed

end

section \<open>A line break in a title\<close>

lemma one_line_inner: "b \<noteq> [] \<Longrightarrow> \<not> one_line (a @ CHR 0x0A # b)"
proof -
  assume "b \<noteq> []"
  then obtain c t where "rev b = c # t" by (cases "rev b") auto
  then show ?thesis by (cases t) (simp_all add: one_line_def line_break_def cp_def)
qed

text \<open>
  With mail as the only channel, an item whose title has a line break (in what the subject shows
  of it) is never delivered and so never marked, whatever the server does.
\<close>

lemma line_break_blocks_mail:
  assumes "title it = a @ CHR 0x0A # b" "b \<noteq> []" "length a < 79"
    "given (discord_webhook_url (cfg E)) = None" "given (slack_webhook_url (cfg E)) = None" "mail_to (cfg E) = Some dest"
  shows "alert_one E (item_to_dict it t) w = (Inr None, w)"
proof -
  obtain s m where sm: "alert_text E (item_to_dict it t) = Inr (s, m)" using alert_text_item by blast
  have "map_of (case item_to_dict it t of JObj kvs \<Rightarrow> kvs) ''title'' = Some (JStr (title it))"
    "map_of (case item_to_dict it t of JObj kvs \<Rightarrow> kvs) ''severity'' = Some (JStr (severity it))"
    by (simp_all add: item_to_dict_def Let_def)
  then have "s = ''[security-feed] '' @ upper (severity it) @ '' - '' @ take 80 (title it)"
    using sm by (cases "format_item E (item_to_dict it t)") (auto simp: alert_text_def item_to_dict_def Let_def py_slice_def py_str_def)
  also have "\<dots> = (''[security-feed] '' @ upper (severity it) @ '' - '' @ a) @ CHR 0x0A # take (79 - length a) b"
    using assms(3) by (simp add: assms(1) take_Cons')
  finally have s: "s = (''[security-feed] '' @ upper (severity it) @ '' - '' @ a) @ CHR 0x0A # take (79 - length a) b" .
  have "\<not> one_line s" unfolding s using assms(2,3) by (intro one_line_inner) simp
  then show ?thesis
    by (simp add: alert_one_def sm deliver_def when_some_def assms(4-6) send_email_def catch_def bind_def run_ret raise_value_def)
qed

section \<open>Properties\<close>

text \<open>C39. One failing channel makes the others repeat: with Discord accepting and Slack failing, every
  urgent item is posted to Discord, none is marked, and the next run posts exactly the same
  requests again, and so every run until Slack recovers.\<close>

theorem failing_channel_repeats_alerts:
  assumes "sq_inv (w_db w)" "sq_up (w_db w)" "given (discord_webhook_url (cfg E)) = Some u" "given (slack_webhook_url (cfg E)) = Some v"
    "\<And>n rq. rq_url rq = u \<Longrightarrow> \<exists>resp. net E n rq = Inr resp \<and> raise_for_status resp = Inr ()"
    "\<And>n rq. rq_url rq = v \<Longrightarrow> \<exists>e. net E n rq = Inl e"
  shows "\<exists>rows sent. page (\<lambda>r. fst (row_key r)) max_alerts_per_run (ar_urgent (sq_archive (w_db w))) rows \<and>
    map rq_url sent = concat (replicate (length rows) [u, v]) \<and>
    send_urgent_alerts sqlite_store E w = (Inr [], w\<lparr>w_sent := w_sent w @ sent\<rparr>) \<and>
    send_urgent_alerts sqlite_store E (w\<lparr>w_sent := w_sent w @ sent\<rparr>) = (Inr [], w\<lparr>w_sent := (w_sent w @ sent) @ sent\<rparr>)"
  by (rule sq.failing_channel [OF assms])

definition slack_down :: env where
  "slack_down = offline\<lparr>cfg := default_settings\<lparr>discord_webhook_url := Some ''d'', slack_webhook_url := Some ''s''\<rparr>,
     net := (\<lambda>n rq. if rq_url rq = ''d''
       then Inr \<lparr>rs_status = 204, rs_header = (\<lambda>_. None), rs_content = [], rs_json = raise_value [], rs_error = []\<rparr>
       else Inl (Exc ''ConnectError'' (Transport False) ''refused'' None None))\<rparr>"

lemma demo_urgent: "ar_urgent (sq_archive (sq_of demo_db)) \<noteq> {}"
proof -
  let ?r = "pg_arow (pg_row_of 7 (demo_items ! 0))"
  have "sq_archive (sq_of demo_db) = pg_archive demo_db" using demo_inv(1) by (simp add: sq_archive_of)
  moreover have "ar_items (pg_archive demo_db) ''a'' = Some ?r" "ar_alerted (pg_archive demo_db) ''a'' = None"
    by (simp_all add: pg_archive_def demo_db_def demo_items_def pg_upsert_row_def pg_row_of_def new_item_def pg_empty_def)
  moreover have "urgent (a_item ?r)" "\<not> is_sample (a_item ?r)" "item_id (a_item ?r) = ''a''"
    by (simp_all add: demo_items_def new_item_def pg_arow_def pg_feed_item_def pg_row_of_def)
  ultimately have "?r \<in> ar_urgent (sq_archive (sq_of demo_db))"
    by (auto simp: ar_urgent_def ar_visible_def ar_rows_def intro: ranI)
  then show ?thesis by blast
qed

lemma failing_channel_repeats_alerts_witness:
  "\<exists>sent. sent \<noteq> [] \<and> (let w = new_world (sq_of demo_db) 0 default_settings in
     send_urgent_alerts sqlite_store slack_down w = (Inr [], w\<lparr>w_sent := sent\<rparr>) \<and>
     send_urgent_alerts sqlite_store slack_down (w\<lparr>w_sent := sent\<rparr>) = (Inr [], w\<lparr>w_sent := sent @ sent\<rparr>))"
proof -
  let ?w = "new_world (sq_of demo_db) 0 default_settings"
  have w: "sq_inv (w_db ?w)" "sq_up (w_db ?w)" using demo_inv by (simp_all add: new_world_def)
  have c: "given (discord_webhook_url (cfg slack_down)) = Some ''d''" "given (slack_webhook_url (cfg slack_down)) = Some ''s''"
    by (simp_all add: slack_down_def given_def)
  obtain rows sent where r: "page (\<lambda>r. fst (row_key r)) max_alerts_per_run (ar_urgent (sq_archive (w_db ?w))) rows"
    "map rq_url sent = concat (replicate (length rows) [''d'', ''s''])"
    "send_urgent_alerts sqlite_store slack_down ?w = (Inr [], ?w\<lparr>w_sent := w_sent ?w @ sent\<rparr>)"
    "send_urgent_alerts sqlite_store slack_down (?w\<lparr>w_sent := w_sent ?w @ sent\<rparr>) = (Inr [], ?w\<lparr>w_sent := (w_sent ?w @ sent) @ sent\<rparr>)"
    using failing_channel_repeats_alerts [OF w c] by (auto simp: slack_down_def raise_for_status_def)
  have "finite (ar_urgent (sq_archive (w_db ?w)))"
    using sq.rows_finite [OF w(1)] by (rule finite_subset [rotated]) (auto simp: ar_urgent_def ar_visible_def)
  then have "0 < card (ar_urgent (sq_archive (w_db ?w)))" using demo_urgent by (simp add: new_world_def card_gt_0_iff)
  with r(1) have "rows \<noteq> []" by (auto simp: page_def max_alerts_per_run_def)
  with r show ?thesis by (intro exI [of _ sent]) (auto simp: new_world_def Let_def)
qed

end
