(* ===== verification/Search.thy ===== *)
theory Search
  imports Alerts
begin

text \<open>
  \<open>app/search.py\<close>: the OpenSearch index (creation, bulk indexing, reconciliation with the
  archive) and the search with its SQL fallback. The lemmas show that indexing never raises, that
  a bulk body is one action line and one document line per item, that a hit has the shape of the
  feed, that reconciliation is throttled, and that any failure of OpenSearch falls back to SQL.
\<close>

section \<open>json.dumps\<close>

text \<open>A float is written with its \<open>repr\<close>, as \<open>json.dumps\<close> does.\<close>

fun json_dumps :: "env \<Rightarrow> json \<Rightarrow> string" where
  "json_dumps E JNull = ''null''"
| "json_dumps E (JBool b) = (if b then ''true'' else ''false'')"
| "json_dumps E (JInt i) = int_str i"
| "json_dumps E (JFloat x) = py_repr E (JFloat x)"
| "json_dumps E (JStr s) = json_quote s"
| "json_dumps E (JList xs) = CHR ''['' # join '', '' (map (json_dumps E) xs) @ '']''"
| "json_dumps E (JObj kvs) =
     CHR ''{'' # join '', '' (map (\<lambda>(k, v). json_quote k @ '': '' @ json_dumps E v) kvs) @ ''}''"

section \<open>The index\<close>

definition sync_interval :: int where "sync_interval = 30 * 60"
definition search_timeout :: rat where "search_timeout = 8"

abbreviation search_client :: http_client where
  "search_client \<equiv> client (Some search_timeout) [] None"

text \<open>\<open>OPENSEARCH_URL.rstrip("/")\<close>\<close>

definition base_url :: "string \<Rightarrow> string" where
  "base_url u = rev (dropWhile (\<lambda>c. c = CHR ''/'') (rev u))"

definition index_mappings :: json where
  "index_mappings = JObj
     [(''settings'', JObj [(''number_of_shards'', JInt 1), (''number_of_replicas'', JInt 0)]),
      (''mappings'', JObj [(''properties'', JObj (map (\<lambda>(k, ty). (k, JObj [(''type'', JStr ty)]))
        [(''id'', ''keyword''), (''title'', ''text''), (''summary'', ''text''), (''url'', ''keyword''),
         (''source'', ''keyword''), (''source_url'', ''keyword''), (''published'', ''date''), (''tags'', ''keyword''),
         (''cves'', ''keyword''), (''severity'', ''keyword''), (''urgent'', ''boolean''), (''kev'', ''boolean''),
         (''epss_score'', ''float''), (''is_sample'', ''boolean''), (''patch_status'', ''keyword''),
         (''osv_affected'', ''keyword''), (''osv_fixed'', ''keyword''), (''osv_severity'', ''keyword'')]))])]"

abbreviation index_name :: "env \<Rightarrow> string" where
  "index_name E \<equiv> opensearch_index (cfg E)"

definition ensure_index :: "env \<Rightarrow> ('db, unit) io" where
  "ensure_index E =
     (case given (opensearch_url (cfg E)) of
        None \<Rightarrow> ret ()
      | Some u \<Rightarrow>
          let index = base_url u @ ''/'' @ index_name E in
          catch
            (bind (http_send search_client E ''HEAD'' index [] [] NoBody) (\<lambda>exists.
             if rs_status exists = 200 then ret ()
             else bind (http_send search_client E ''PUT'' index [] [] (JsonBody index_mappings)) (\<lambda>resp.
               lift (raise_for_status resp))))
            (\<lambda>_. ret ()))"

section \<open>Documents\<close>

definition without :: "string \<Rightarrow> json \<Rightarrow> json" where
  "without k v = (case v of JObj kvs \<Rightarrow> JObj (filter (\<lambda>p. fst p \<noteq> k) kvs) | _ \<Rightarrow> v)"

definition doc_from_item :: "feed_item \<Rightarrow> int \<Rightarrow> json" where
  "doc_from_item item now = without ''time_ago'' (item_to_dict item (utc now))"

text \<open>\<open>dict(source)\<close>; a value that is no object (never sent as a \<open>_source\<close>) is refused.\<close>

definition as_dict :: "json \<Rightarrow> (string, json) dict result" where
  "as_dict v = (case v of JObj kvs \<Rightarrow> Inr kvs | _ \<Rightarrow> raise_type ''dictionary expected'')"

definition set_default :: "string \<Rightarrow> json \<Rightarrow> (string, json) dict \<Rightarrow> (string, json) dict" where
  "set_default k d kvs = (case map_of kvs k of None \<Rightarrow> dict_set k d kvs | Some _ \<Rightarrow> kvs)"

text \<open>A time that \<open>astimezone\<close> cannot represent raises, which leaves \<open>time_ago\<close> null.\<close>

definition hit_time_ago :: "int \<Rightarrow> json \<Rightarrow> json" where
  "hit_time_ago now raw =
     (case raw of
        JStr s \<Rightarrow> (case fromisoformat (replace_all ''Z'' ''+00:00'' s) of
            None \<Rightarrow> JNull
          | Some p \<Rightarrow> if dt_range (instant p) then JStr (time_ago (age_seconds (utc now) (ensure_aware p))) else JNull)
      | _ \<Rightarrow> JNull)"

definition hit_to_item :: "int \<Rightarrow> json \<Rightarrow> json result" where
  "hit_to_item now src =
     res_bind (as_dict src) (\<lambda>kvs.
       let item = set_default ''cves'' (JList []) (set_default ''tags'' (JList []) kvs)
       in Inr (JObj (dict_set ''time_ago''
            (hit_time_ago now (case map_of item ''published'' of None \<Rightarrow> JNull | Some v \<Rightarrow> v)) item)))"

section \<open>Bulk indexing\<close>

definition action_line :: "env \<Rightarrow> json \<Rightarrow> string result" where
  "action_line E doc =
     (case doc of
        JObj kvs \<Rightarrow> (case map_of kvs ''id'' of
            None \<Rightarrow> raise_key ''id''
          | Some v \<Rightarrow>
              let q = [CHR 0x22] in
              Inr (''{'' @ q @ ''index'' @ q @ '': {'' @ q @ ''_index'' @ q @ '': '' @ q @ index_name E @ q @ '', ''
                @ q @ ''_id'' @ q @ '': '' @ q @ py_str E v @ q @ ''}}''))
      | _ \<Rightarrow> raise_type ''not a dict'')"

definition bulk_lines :: "env \<Rightarrow> json list \<Rightarrow> string list result" where
  "bulk_lines E docs =
     res_bind (res_map (\<lambda>doc. res_bind (action_line E doc) (\<lambda>a. Inr [a, json_dumps E doc])) docs)
       (\<lambda>ls. Inr (concat ls))"

definition bulk_payload :: "env \<Rightarrow> json list \<Rightarrow> string result" where
  "bulk_payload E docs = res_bind (bulk_lines E docs) (\<lambda>ls. Inr (join newline ls @ newline))"

text \<open>Called only with an OpenSearch URL.\<close>

definition bulk :: "env \<Rightarrow> string \<Rightarrow> json list \<Rightarrow> ('db, nat) io" where
  "bulk E u docs =
     (if docs = [] then ret 0
      else bind (lift (bulk_payload E docs)) (\<lambda>payload.
        bind (http_send search_client E ''POST'' (base_url u @ ''/_bulk'') [(''Content-Type'', ''application/x-ndjson'')] [] (TextBody payload))
          (\<lambda>resp. bind (lift (raise_for_status resp)) (\<lambda>_. ret (length docs)))))"

definition index_items :: "env \<Rightarrow> feed_item list \<Rightarrow> ('db, nat) io" where
  "index_items E items =
     (case given (opensearch_url (cfg E)) of
        None \<Rightarrow> ret 0
      | Some u \<Rightarrow> bind get_now (\<lambda>now.
          catch (bulk E u (map (\<lambda>it. doc_from_item it now) (filter (\<lambda>it. \<not> is_sample it) items))) (\<lambda>_. ret 0)))"

section \<open>Reconciliation\<close>

definition needs_sample_purge :: "json list \<Rightarrow> bool result" where
  "needs_sample_purge items =
     res_bind (res_map (\<lambda>item. py_get item ''is_sample'') items) (\<lambda>vs. Inr (list_ex (Not \<circ> truthy) vs))"

definition delete_sample_docs :: "env \<Rightarrow> string \<Rightarrow> ('db, int) io" where
  "delete_sample_docs E u =
     bind (http_send search_client E ''POST'' (base_url u @ ''/'' @ index_name E @ ''/_delete_by_query'') [] [(''refresh'', ''true'')]
         (JsonBody (JObj [(''query'', JObj [(''term'', JObj [(''is_sample'', JBool True)])])])))
       (\<lambda>resp. bind (lift (raise_for_status resp)) (\<lambda>_.
        bind (lift (rs_json resp)) (\<lambda>data.
        bind (lift (py_get data ''deleted'')) (\<lambda>v. lift (py_to_int (py_or v (JInt 0)))))))"

definition sync_archive :: "'db backend \<Rightarrow> env \<Rightarrow> int \<Rightarrow> ('db, nat) io" where
  "sync_archive B E n =
     (case given (opensearch_url (cfg E)) of
        None \<Rightarrow> ret 0
      | Some u \<Rightarrow> bind get_now (\<lambda>now.
          bind (attempt (db_read (query_feed B now None None n))) (\<lambda>r.
          case r of
            Inl e \<Rightarrow> ret 0
          | Inr items \<Rightarrow>
              bind (attempt (bulk E u (map (without ''time_ago'') items))) (\<lambda>r.
              case r of
                Inl e \<Rightarrow> ret 0
              | Inr indexed \<Rightarrow>
                  bind (lift (needs_sample_purge items)) (\<lambda>purge.
                  bind (if purge then catch (bind (delete_sample_docs E u) (\<lambda>_. ret ())) (\<lambda>_. ret ()) else ret ())
                    (\<lambda>_. ret indexed))))))"

definition synced_at :: "('db, int option) io" where
  "synced_at w = (Inr (w_synced w), w)"

definition set_synced :: "int \<Rightarrow> ('db, unit) io" where
  "set_synced now w = (Inr (), w\<lparr>w_synced := Some now\<rparr>)"

text \<open>The limit is the default of \<open>sync_archive\<close>.\<close>

definition maybe_sync_archive :: "'db backend \<Rightarrow> env \<Rightarrow> bool \<Rightarrow> ('db, nat) io" where
  "maybe_sync_archive B E force =
     (case given (opensearch_url (cfg E)) of
        None \<Rightarrow> ret 0
      | Some u \<Rightarrow> bind get_now (\<lambda>now. bind synced_at (\<lambda>last_sync.
          if \<not> force \<and> (case last_sync of None \<Rightarrow> False | Some t \<Rightarrow> now - t < sync_interval * us_sec)
          then ret 0
          else bind (sync_archive B E 10000) (\<lambda>count.
            bind (if count \<noteq> 0 then set_synced now else ret ()) (\<lambda>_. ret count)))))"

section \<open>Search\<close>

record search_result =
  sr_backend :: string
  sr_count :: nat
  sr_items :: "json list"

definition search_body :: "string \<Rightarrow> string option \<Rightarrow> string option \<Rightarrow> int \<Rightarrow> json" where
  "search_body q tag sev n =
     (let must = (if q \<noteq> []
            then JObj [(''multi_match'', JObj [(''query'', JStr q),
                   (''fields'', jstrs [''title^3'', ''summary^2'', ''source'', ''cves''])])]
            else JObj [(''match_all'', JObj [])]);
          term = (\<lambda>k v. case given v of None \<Rightarrow> [] | Some x \<Rightarrow> [JObj [(''term'', JObj [(k, JStr x)])]])
      in JObj
       [(''size'', JInt n),
        (''sort'', JList [JObj [(''urgent'', JObj [(''order'', JStr ''desc'')])],
           JObj [(''published'', JObj [(''order'', JStr ''desc'')])]]),
        (''query'', JObj [(''bool'', JObj [(''must'', JList [must]),
           (''filter'', JList (term ''tags'' tag @ term ''severity'' sev))])])])"

definition search_opensearch ::
    "env \<Rightarrow> string \<Rightarrow> string \<Rightarrow> string option \<Rightarrow> string option \<Rightarrow> int \<Rightarrow> ('db, search_result) io" where
  "search_opensearch E u q tag sev n =
     bind (http_send search_client E ''POST'' (base_url u @ ''/'' @ index_name E @ ''/_search'') [] [] (JsonBody (search_body q tag sev n)))
       (\<lambda>resp.
     bind (lift (raise_for_status resp)) (\<lambda>_.
     bind (lift (rs_json resp)) (\<lambda>data.
     bind (lift (py_get_def data ''hits'' (JObj []))) (\<lambda>hits.
     bind (lift (py_get_def hits ''hits'' (JList []))) (\<lambda>hits.
     bind (lift (py_iter hits)) (\<lambda>hs.
     bind get_now (\<lambda>now.
     bind (lift (res_map (\<lambda>h. res_bind (py_get_def h ''_source'' (JObj [])) (hit_to_item now)) hs)) (\<lambda>items.
     ret \<lparr>sr_backend = ''opensearch'', sr_count = length items, sr_items = items\<rparr>))))))))"

definition sql_search :: "'db backend \<Rightarrow> string \<Rightarrow> string option \<Rightarrow> string option \<Rightarrow> int \<Rightarrow> ('db, search_result) io" where
  "sql_search B q tag sev n =
     bind get_now (\<lambda>now.
     bind (db_read (search_feed B now q tag sev n)) (\<lambda>items.
     ret \<lparr>sr_backend = ''sql'', sr_count = length items, sr_items = items\<rparr>))"

definition search :: "'db backend \<Rightarrow> env \<Rightarrow> string \<Rightarrow> string option \<Rightarrow> string option \<Rightarrow> int \<Rightarrow> ('db, search_result) io" where
  "search B E q tag sev n =
     (case given (opensearch_url (cfg E)) of
        None \<Rightarrow> sql_search B q tag sev n
      | Some u \<Rightarrow> catch (search_opensearch E u q tag sev n) (\<lambda>_. sql_search B q tag sev n))"

section \<open>Best effort\<close>

lemma no_throw_ensure_index: "no_throw (ensure_index E)"
  unfolding ensure_index_def Let_def by (intro io_intros)

lemma no_throw_index_items: "no_throw (index_items E items)"
  unfolding index_items_def by (intro io_intros)

lemma sends_search_http [io_intros]:
  assumes "''User-Agent'' \<notin> fst ` set hs"
  shows "sends polite (http_send search_client E meth u hs ps bd)"
  by (rule sends_request) (rule polite_request(1) [OF assms]; simp add: search_timeout_def http_timeout_def)

lemma sends_bulk [io_intros]: "sends polite (bulk E u docs)"
  unfolding bulk_def by (intro io_intros) auto

lemma sends_ensure_index [io_intros]: "sends polite (ensure_index E)"
  unfolding ensure_index_def Let_def by (intro io_intros) auto

lemma sends_index_items [io_intros]: "sends polite (index_items E items)"
  unfolding index_items_def by (intro io_intros)

lemma sends_result [io_intros]:
  "(\<And>e. r = Inl e \<Longrightarrow> sends P (f e)) \<Longrightarrow> (\<And>x. r = Inr x \<Longrightarrow> sends P (g x)) \<Longrightarrow> sends P (case r of Inl e \<Rightarrow> f e | Inr x \<Rightarrow> g x)"
  and leaves_result [io_intros]:
  "(\<And>e. r = Inl e \<Longrightarrow> leaves (f' e)) \<Longrightarrow> (\<And>x. r = Inr x \<Longrightarrow> leaves (g' x)) \<Longrightarrow> leaves (case r of Inl e \<Rightarrow> f' e | Inr x \<Rightarrow> g' x)"
  by (auto split: sum.split)

lemma sends_sync [io_intros]: "sends polite (sync_archive B E n)"
  unfolding sync_archive_def delete_sample_docs_def by (intro io_intros) auto

lemma leaves_sync [io_intros]: "leaves (sync_archive B E n)" "leaves (ensure_index E)" "leaves (index_items E items)"
  unfolding sync_archive_def delete_sample_docs_def bulk_def ensure_index_def index_items_def Let_def by (intro io_intros)+

lemma sends_synced [io_intros]: "sends P synced_at" "sends P (set_synced t)"
  by (auto simp: sends_def synced_at_def set_synced_def intro: later_same)

lemma leaves_synced [io_intros]: "leaves synced_at" "leaves (set_synced t)"
  by (simp_all add: leaves_def synced_at_def set_synced_def)

lemma sends_maybe_sync [io_intros]: "sends polite (maybe_sync_archive B E force)"
  unfolding maybe_sync_archive_def by (intro io_intros)

lemma leaves_maybe_sync [io_intros]: "leaves (maybe_sync_archive B E force)"
  unfolding maybe_sync_archive_def by (intro io_intros)

lemma leaves_search_opensearch [io_intros]: "leaves (search_opensearch E u q tag sev n)"
  unfolding search_opensearch_def by (intro io_intros)

lemma leaves_sql_search [io_intros]: "leaves (sql_search B q tag sev n)"
  unfolding sql_search_def by (intro io_intros)

text \<open>A successful reconciliation is not repeated within the interval.\<close>

lemma sync_throttled:
  assumes "maybe_sync_archive B E False w = (Inr c, w1)" "c \<noteq> 0"
    "w_synced w2 = w_synced w1" "w_now w2 - w_now w < sync_interval * us_sec"
  shows "maybe_sync_archive B E False w2 = (Inr 0, w2)"
proof (cases "given (opensearch_url (cfg E))")
  case None
  then show ?thesis by (simp add: maybe_sync_archive_def run_ret)
next
  case (Some u)
  show ?thesis
  proof (cases "case w_synced w of None \<Rightarrow> False | Some t \<Rightarrow> w_now w - t < sync_interval * us_sec")
    case True
    with assms(1,2) Some show ?thesis by (simp add: maybe_sync_archive_def bind_run synced_at_def run_ret)
  next
    case False
    with assms(1,2) Some have "w_synced w1 = Some (w_now w)"
      by (auto simp: maybe_sync_archive_def bind_run synced_at_def set_synced_def bind_Inr_iff run_ret split: if_splits)
    with assms(3,4) Some show ?thesis
      by (simp add: maybe_sync_archive_def bind_run synced_at_def run_ret)
  qed
qed

section \<open>Lines of a bulk body\<close>

abbreviation lf :: char where "lf \<equiv> CHR 0x0A"

lemma lf_hex_digit: "n < 16 \<Longrightarrow> hex_digit n \<noteq> lf"
proof
  assume "n < 16" "hex_digit n = lf"
  then have "cp (hex_digit n) = 10" by (simp add: cp_def)
  with \<open>n < 16\<close> show False by (simp add: hex_digit_def cp_char_of split: if_splits)
qed

lemma lf_json_escape: "lf \<notin> set (json_escape c)"
proof -
  have "cp c div 16 < 16" "cp c mod 16 < 16" using cp_bound [of c] by auto
  from this [THEN lf_hex_digit] show ?thesis unfolding json_escape_def by (simp add: not_sym)
qed

lemma lf_json_quote: "lf \<notin> set (json_quote s)"
  using lf_json_escape by (auto simp: json_quote_def)

lemma lf_join: "(\<And>w. w \<in> set ws \<Longrightarrow> lf \<notin> set w) \<Longrightarrow> lf \<notin> set sep \<Longrightarrow> lf \<notin> set (join sep ws)"
  by (induction sep ws rule: join.induct) auto

lemma nat_digits_digits: "list_all is_digit (nat_digits n)"
proof (induction n rule: nat_digits.induct)
  case (1 n)
  have "n mod 10 \<le> 9" by simp
  with 1 show ?case by (subst nat_digits.simps) (auto simp: list_all_iff is_digit_def cp_char_of)
qed

lemma lf_int_str: "lf \<notin> set (int_str i)"
  using nat_digits_digits [of "nat (- i)"] nat_digits_digits [of "nat i"]
  by (auto simp: int_str_def list_all_iff is_digit_def cp_def)

lemma lf_json_dumps:
  assumes "\<And>x. lf \<notin> set (py_repr E (JFloat x))"
  shows "lf \<notin> set (json_dumps E v)"
  using assms
proof (induction E v rule: json_dumps.induct)
  case (6 E xs)
  have "lf \<notin> set (join '', '' (map (json_dumps E) xs))"
    by (rule lf_join) (use 6 in auto)
  then show ?case by simp
next
  case (7 E kvs)
  have "lf \<notin> set (join '', '' (map (\<lambda>(k, v). json_quote k @ '': '' @ json_dumps E v) kvs))"
    by (rule lf_join) (use 7 in \<open>auto simp: lf_json_quote\<close>)
  then show ?case by simp
qed (auto simp: lf_json_quote lf_int_str)

lemma split_on_word: "c \<notin> set w \<Longrightarrow> split_on_from c p (w @ c # s) = (p @ w) # split_on_from c [] s"
  by (induction w arbitrary: p) auto

lemma split_join_lines:
  assumes "ls \<noteq> []" "\<And>l. l \<in> set ls \<Longrightarrow> lf \<notin> set l"
  shows "split_on lf (join newline ls @ newline) = ls @ [[]]"
  using assms
proof (induction ls)
  case (Cons v vs)
  have line: "split_on lf (v @ lf # s) = v # split_on lf s" for s
    using split_on_word [of lf v "[]"] Cons.prems(2) by simp
  show ?case
  proof (cases vs)
    case Nil
    then show ?thesis using line [of "[]"] by (simp add: newline_def)
  next
    case (Cons u us)
    with Cons.IH Cons.prems line show ?thesis by (simp add: newline_def)
  qed
qed simp

section \<open>Properties\<close>

text \<open>A search never fails because of OpenSearch: whatever it answers, and whatever goes wrong (no
  connection, an error status, a malformed answer), the result is that of OpenSearch when there is
  one and the SQL result otherwise, as if OpenSearch were not configured; the database and the
  clock stay as they were.\<close>

theorem search_falls_back:
  "fst (search B E q tag sev n w) =
     (case (given (opensearch_url (cfg E))) of
        None \<Rightarrow> fst (sql_search B q tag sev n w)
      | Some u \<Rightarrow> (case fst (search_opensearch E u q tag sev n w) of
            Inr r \<Rightarrow> Inr r
          | Inl _ \<Rightarrow> fst (sql_search B q tag sev n w))) \<and>
   w_db (snd (search B E q tag sev n w)) = w_db w"
proof (cases "given (opensearch_url (cfg E))")
  case None
  then show ?thesis using leaves_sql_search [of B q tag sev n] unfolding leaves_def by (simp add: search_def)
next
  case (Some u)
  obtain r w1 where o: "search_opensearch E u q tag sev n w = (r, w1)" by (cases "search_opensearch E u q tag sev n w")
  have w1: "w_db w1 = w_db w" "w_now w1 = w_now w" using leavesD [OF leaves_search_opensearch o] by auto
  then have "fst (sql_search B q tag sev n w1) = fst (sql_search B q tag sev n w)"
    by (cases "search_feed B (w_now w) q tag sev n (w_db w)")
      (simp_all add: sql_search_def db_read_def bind_run bind_stop run_ret)
  moreover have "w_db (snd (sql_search B q tag sev n w1)) = w_db w"
    using leaves_sql_search [of B q tag sev n] w1 unfolding leaves_def by simp
  ultimately show ?thesis using Some o w1 by (cases r) (simp_all add: search_def catch_def)
qed

lemma map_of_without: "map_of (filter (\<lambda>p. fst p \<noteq> k) kvs) = (map_of kvs)(k := None)"
  by (induction kvs) auto

lemma hit_time_ago_stored:
  assumes "published_ok item"
  shows "hit_time_ago now (jopt (JStr \<circ> isoformat) (published_utc item))
    = jopt (JStr \<circ> time_ago) (map_option (age_seconds (utc now)) (published_utc item))"
  using assms
  by (cases "published item")
    (simp_all add: hit_time_ago_def jopt_def published_utc_def published_ok_def ensure_aware_utc replace_absent
      no_Z_isoformat fromisoformat_isoformat)

text \<open>C34. A hit has the shape of the feed: the document of an item, read back from the index at any
  time, has the same keys and values as the item emitted by the store at that time, \<open>time_ago\<close>
  included, which the index does not hold.\<close>

theorem hit_matches_feed:
  assumes "published_ok item"
  shows "\<exists>kvs kvs'. hit_to_item now (doc_from_item item t) = Inr (JObj kvs) \<and> item_to_dict item (utc now) = JObj kvs' \<and>
    map_of kvs = map_of kvs'"
proof -
  obtain kvs' where d: "item_to_dict item (utc now) = JObj kvs'" by (simp add: item_to_dict_def Let_def)
  obtain kvs2 where d2: "item_to_dict item (utc t) = JObj kvs2" by (simp add: item_to_dict_def Let_def)
  let ?docs = "filter (\<lambda>p. fst p \<noteq> ''time_ago'') kvs2"
  let ?ago = "jopt (JStr \<circ> time_ago) (map_option (age_seconds (utc now)) (published_utc item))"
  have keys: "map_of kvs2 ''tags'' \<noteq> None" "map_of kvs2 ''cves'' \<noteq> None"
    "map_of kvs2 ''published'' = Some (jopt (JStr \<circ> isoformat) (published_utc item))"
    "map_of kvs' ''time_ago'' = Some ?ago"
    using d d2 by (auto simp: item_to_dict_def Let_def)
  have same: "(map_of kvs2)(''time_ago'' := x) = (map_of kvs')(''time_ago'' := x)" for x
    using d d2 by (auto simp: item_to_dict_def Let_def fun_eq_iff)
  have "hit_to_item now (doc_from_item item t) = Inr (JObj (dict_set ''time_ago'' ?ago ?docs))"
    using keys by (auto simp: hit_to_item_def doc_from_item_def d2 without_def as_dict_def set_default_def map_of_without
      hit_time_ago_stored [OF assms] Let_def split: option.splits)
  moreover have "map_of (dict_set ''time_ago'' ?ago ?docs) = map_of kvs'"
    using keys(4) same [of "Some ?ago"] by (simp add: map_of_without fun_upd_idem)
  ultimately show ?thesis using d by blast
qed

lemma hit_matches_feed_witness:
  "\<exists>kvs kvs'. hit_to_item 9 (doc_from_item (demo_items ! 0) 7) = Inr (JObj kvs) \<and>
    item_to_dict (demo_items ! 0) (utc 9) = JObj kvs' \<and> map_of kvs = map_of kvs'"
  by (rule hit_matches_feed) (simp add: demo_items_def new_item_def published_ok_def dt_range_def us_day_def)

text \<open>A bulk body is well formed: split at its line breaks it is one action line and one document
  line per item, in order, and an empty last line, whatever the texts of the items contain (their
  ids and the name of the index have no line break).\<close>

theorem bulk_body_lines:
  assumes "\<And>x. lf \<notin> set (py_repr E (JFloat x))" "lf \<notin> set (index_name E)" "items \<noteq> []"
    "\<And>it. it \<in> set items \<Longrightarrow> lf \<notin> set (item_id it)"
  shows "\<exists>payload acts. bulk_payload E (map (\<lambda>it. doc_from_item it now) items) = Inr payload \<and>
    res_map (\<lambda>it. action_line E (doc_from_item it now)) items = Inr acts \<and>
    split_on lf payload = concat (map2 (\<lambda>a it. [a, json_dumps E (doc_from_item it now)]) acts items) @ [[]]"
proof -
  let ?doc = "\<lambda>it. doc_from_item it now"
  obtain act where act: "\<And>it. action_line E (?doc it) = Inr (act it)" "\<And>it. lf \<notin> set (item_id it) \<Longrightarrow> lf \<notin> set (act it)"
  proof -
    let ?q = "[CHR 0x22]"
    let ?act = "\<lambda>it. ''{'' @ ?q @ ''index'' @ ?q @ '': {'' @ ?q @ ''_index'' @ ?q @ '': '' @ ?q @ index_name E @ ?q @ '', ''
                @ ?q @ ''_id'' @ ?q @ '': '' @ ?q @ item_id it @ ?q @ ''}}''"
    have "action_line E (?doc it) = Inr (?act it)" for it
      by (simp add: action_line_def doc_from_item_def without_def item_to_dict_def Let_def py_str_def)
    moreover have "lf \<notin> set (?act it)" if "lf \<notin> set (item_id it)" for it using that assms(2) by simp
    ultimately show ?thesis by (rule that)
  qed
  let ?ls = "concat (map (\<lambda>it. [act it, json_dumps E (?doc it)]) items)"
  have lines: "bulk_lines E (map ?doc items) = Inr ?ls"
  proof -
    have "res_map (\<lambda>doc. res_bind (action_line E doc) (\<lambda>a. Inr [a, json_dumps E doc])) (map ?doc items)
        = Inr (map (\<lambda>it. [act it, json_dumps E (?doc it)]) items)"
      by (induction items) (simp_all add: act(1))
    then show ?thesis by (simp add: bulk_lines_def)
  qed
  have "?ls \<noteq> []" using assms(3) by (cases items) auto
  moreover have "lf \<notin> set l" if "l \<in> set ?ls" for l
    using that act(2) assms(4) lf_json_dumps [OF assms(1)] by auto
  ultimately have "split_on lf (join newline ?ls @ newline) = ?ls @ [[]]" by (rule split_join_lines)
  moreover have "res_map (\<lambda>it. action_line E (?doc it)) items = Inr (map act items)"
    by (induction items) (simp_all add: act(1))
  moreover have "map2 (\<lambda>a it. [a, json_dumps E (?doc it)]) (map act items) items = map (\<lambda>it. [act it, json_dumps E (?doc it)]) items"
    by (induction items) simp_all
  ultimately show ?thesis using lines by (simp add: bulk_payload_def)
qed

definition indexed :: env where
  "indexed = offline\<lparr>cfg := default_settings\<lparr>opensearch_index := ''feed''\<rparr>\<rparr>"

lemma bulk_body_lines_witness:
  "\<exists>payload. bulk_payload indexed (map (\<lambda>it. doc_from_item it 7) demo_items) = Inr payload \<and> length (split_on lf payload) = 5"
proof -
  have "lf \<notin> set (py_repr indexed (JFloat x))" "lf \<notin> set (index_name indexed)" for x
    by (simp_all add: indexed_def offline_def)
  moreover have "demo_items \<noteq> []" "\<And>it. it \<in> set demo_items \<Longrightarrow> lf \<notin> set (item_id it)"
    by (auto simp: demo_items_def new_item_def)
  ultimately obtain payload acts where p: "bulk_payload indexed (map (\<lambda>it. doc_from_item it 7) demo_items) = Inr payload"
    "res_map (\<lambda>it. action_line indexed (doc_from_item it 7)) demo_items = Inr acts"
    "split_on lf payload = concat (map2 (\<lambda>a it. [a, json_dumps indexed (doc_from_item it 7)]) acts demo_items) @ [[]]"
    using bulk_body_lines [of indexed demo_items 7] by blast
  from p(2) have "length acts = 2" by (auto simp: demo_items_def res_simps dest: list_all2_lengthD)
  then obtain a b where "acts = [a, b]" by (auto simp: length_Suc_conv numeral_2_eq_2)
  with p(1,3) show ?thesis by (simp add: demo_items_def)
qed

end
