(* ===== verification/Pipeline.thy ===== *)
theory Pipeline
  imports Fetcher Osv Search
begin

text \<open>
  \<open>app/pipeline.py\<close>: the refresh (fetch, enrich, persist, prune, index, publish, alert) with its
  best-effort steps, the cached feed and its staleness, and the single-flight scheduling of
  refreshes as a state machine. The lemmas show that a refresh never raises and reports the
  outcome of every step, that what it returns is in the archive when the database is up, that at
  most one refresh runs at a time, and how far apart refreshes start.
\<close>

section \<open>Steps\<close>

definition prune_interval :: int where "prune_interval = 24 * 60 * 60"

definition get_cache :: "('db, feed_cache) io" where
  "get_cache w = (Inr (w_cache w), w)"

definition set_cache :: "feed_cache \<Rightarrow> ('db, unit) io" where
  "set_cache c w = (Inr (), w\<lparr>w_cache := c\<rparr>)"

definition set_step :: "string \<Rightarrow> string \<Rightarrow> ('db, unit) io" where
  "set_step k v = bind get_cache (\<lambda>c. set_cache (c\<lparr>c_steps := dict_set k v (c_steps c)\<rparr>))"

text \<open>\<open>try: m; CACHE.steps[k] = "ok"\<close>, \<open>except Exception: CACHE.steps[k] = "error"\<close>\<close>

definition best_effort :: "string \<Rightarrow> ('db, unit) io \<Rightarrow> ('db, unit) io" where
  "best_effort k m = catch (bind m (\<lambda>_. set_step k ''ok'')) (\<lambda>_. set_step k ''error'')"

definition enrich :: "env \<Rightarrow> feed_item list \<Rightarrow> ('db, feed_item list) io" where
  "enrich E items =
     bind (catch (enrich_items E items) (\<lambda>_. ret items)) (\<lambda>items.
     catch (enrich_with_osv E items) (\<lambda>_. ret items))"

definition persist :: "'db backend \<Rightarrow> feed_item list \<Rightarrow> ('db, unit) io" where
  "persist B items = bind get_now (\<lambda>now. bind (db_update (upsert_items B now items)) (\<lambda>_. ret ()))"

definition index_step :: "'db backend \<Rightarrow> env \<Rightarrow> feed_item list \<Rightarrow> ('db, unit) io" where
  "index_step B E items =
     bind (ensure_index E) (\<lambda>_. bind (index_items E items) (\<lambda>_. bind (maybe_sync_archive B E False) (\<lambda>_. ret ())))"

definition pruned_at :: "('db, int option) io" where
  "pruned_at w = (Inr (w_pruned w), w)"

definition set_pruned :: "int \<Rightarrow> ('db, unit) io" where
  "set_pruned now w = (Inr (), w\<lparr>w_pruned := Some now\<rparr>)"

definition prune :: "'db backend \<Rightarrow> env \<Rightarrow> ('db, unit) io" where
  "prune B E =
     (let days = retention_days (cfg E) in
      if days \<le> 0 then ret ()
      else bind get_now (\<lambda>now. bind pruned_at (\<lambda>last_prune.
        if (case last_prune of None \<Rightarrow> False | Some t \<Rightarrow> now - t < prune_interval * us_sec) then ret ()
        else
          let cutoff = now - days * us_day in
          if \<not> dt_range cutoff then raise (Exc ''OverflowError'' OtherExc ''date value out of range'' None None)
          else bind (db_update (prune_items B (utc cutoff))) (\<lambda>_. set_pruned now))))"

definition broker_publish :: "event \<Rightarrow> ('db, unit) io" where
  "broker_publish ev w = (Inr (), w\<lparr>w_broker := publish ev (w_broker w)\<rparr>)"

definition publish_step :: "pydt \<Rightarrow> nat \<Rightarrow> ('db, unit) io" where
  "publish_step generated_at n =
     broker_publish [(''type'', JStr ''feed_updated''), (''generated_at'', JStr (isoformat generated_at)),
       (''count'', JInt (int n))]"

definition publish_cached :: "nat \<Rightarrow> ('db, unit) io" where
  "publish_cached n =
     bind get_cache (\<lambda>c. case c_generated_at c of
         None \<Rightarrow> lift (no_attr JNull ''isoformat'')
       | Some g \<Rightarrow> publish_step g n)"

definition alert_step :: "'db backend \<Rightarrow> env \<Rightarrow> ('db, unit) io" where
  "alert_step B E = bind (send_urgent_alerts B E) (\<lambda>_. ret ())"

definition refresh_feed :: "'db backend \<Rightarrow> env \<Rightarrow> ('db, feed_item list) io" where
  "refresh_feed B E =
     bind (fetch_all B E) (\<lambda>(items, errors).
     bind (enrich E items) (\<lambda>items.
     bind get_now (\<lambda>now.
     bind (set_cache \<lparr>c_fetched_at = Some (utc now), c_generated_at = Some (utc now), c_errors = errors, c_steps = []\<rparr>) (\<lambda>_.
     bind (best_effort ''persist'' (persist B items)) (\<lambda>_.
     bind (best_effort ''prune'' (prune B E)) (\<lambda>_.
     bind (best_effort ''index'' (index_step B E items)) (\<lambda>_.
     bind (best_effort ''publish'' (publish_cached (length items))) (\<lambda>_.
     bind (best_effort ''alert'' (alert_step B E)) (\<lambda>_.
     ret items)))))))))"

section \<open>Staleness\<close>

text \<open>\<open>(now - CACHE.fetched_at).total_seconds() > settings.feed_cache_ttl\<close>\<close>

definition stale :: "settings \<Rightarrow> int \<Rightarrow> feed_cache \<Rightarrow> bool" where
  "stale st now c \<longleftrightarrow> (case c_fetched_at c of None \<Rightarrow> True | Some t \<Rightarrow> feed_cache_ttl st * us_sec < now - instant t)"

section \<open>Single flight\<close>

text \<open>
  The refresh tasks: the global \<open>_REFRESH_TASK\<close>, the tasks that still run, and those that are
  done but whose done callback has not run yet. Tasks are numbered in the order of creation.
\<close>

record flight =
  refresh_task :: "nat option"
  running :: "nat set"
  finished :: "nat set"
  next_task :: nat

definition no_flight :: flight where
  "no_flight = \<lparr>refresh_task = None, running = {}, finished = {}, next_task = 0\<rparr>"

definition refresh_in_flight :: "flight \<Rightarrow> bool" where
  "refresh_in_flight s \<longleftrightarrow> (case refresh_task s of None \<Rightarrow> False | Some t \<Rightarrow> t \<in> running s)"

definition schedule_refresh :: "flight \<Rightarrow> bool \<times> flight" where
  "schedule_refresh s =
     (if refresh_in_flight s then (False, s)
      else (True, s\<lparr>refresh_task := Some (next_task s), running := insert (next_task s) (running s),
              next_task := Suc (next_task s)\<rparr>))"

definition on_refresh_done :: "nat \<Rightarrow> flight \<Rightarrow> flight" where
  "on_refresh_done t s = (if refresh_task s = Some t then s\<lparr>refresh_task := None\<rparr> else s)"

definition get_feed :: "settings \<Rightarrow> int \<Rightarrow> feed_cache \<Rightarrow> flight \<Rightarrow> feed_cache \<times> flight" where
  "get_feed st now c s = (c, if stale st now c then snd (schedule_refresh s) else s)"

text \<open>What can happen: a call of \<open>schedule_refresh\<close>, the end of a task, and its callback.\<close>

inductive flight_step :: "flight \<Rightarrow> flight \<Rightarrow> bool" where
  ask: "schedule_refresh s = (b, s') \<Longrightarrow> flight_step s s'"
| finish: "t \<in> running s \<Longrightarrow> flight_step s (s\<lparr>running := running s - {t}, finished := insert t (finished s)\<rparr>)"
| callback: "t \<in> finished s \<Longrightarrow> flight_step s (on_refresh_done t (s\<lparr>finished := finished s - {t}\<rparr>))"

inductive flights :: "flight \<Rightarrow> bool" where
  idle: "flights no_flight"
| step: "flights s \<Longrightarrow> flight_step s s' \<Longrightarrow> flights s'"

section \<open>One refresh at a time\<close>

definition flight_inv :: "flight \<Rightarrow> bool" where
  "flight_inv s \<longleftrightarrow> (\<forall>t \<in> running s. refresh_task s = Some t) \<and> (\<forall>t \<in> running s \<union> finished s. t < next_task s) \<and>
     running s \<inter> finished s = {}"

lemma flight_inv_schedule:
  assumes "flight_inv s" shows "flight_inv (snd (schedule_refresh s))"
proof (cases "refresh_in_flight s")
  case False
  with assms have "running s = {}" by (force simp: flight_inv_def refresh_in_flight_def)
  with False assms show ?thesis by (auto simp: flight_inv_def schedule_refresh_def less_Suc_eq)
qed (simp add: assms schedule_refresh_def)

lemma flight_inv_step: "flight_step s s' \<Longrightarrow> flight_inv s \<Longrightarrow> flight_inv s'"
proof (induction rule: flight_step.induct)
  case (ask s b s')
  then show ?case using flight_inv_schedule [of s] by simp
next
  case (finish t s)
  then have "x = t" if "x \<in> running s" for x using that by (metis flight_inv_def option.inject)
  with finish have "running s = {t}" by blast
  with finish show ?case by (simp add: flight_inv_def)
next
  case (callback t s)
  then have "t \<notin> running s" by (auto simp: flight_inv_def)
  moreover have "x = t" if "x \<in> running s" "refresh_task s = Some t" for x
    using callback that by (simp add: flight_inv_def)
  ultimately have none: "running s = {}" if "refresh_task s = Some t" using that by blast
  show ?case
  proof (cases "refresh_task s = Some t")
    case True
    with callback none show ?thesis by (simp add: flight_inv_def on_refresh_done_def)
  next
    case False
    then have "on_refresh_done t (s\<lparr>finished := finished s - {t}\<rparr>) = s\<lparr>finished := finished s - {t}\<rparr>"
      by (simp add: on_refresh_done_def)
    with callback(2) show ?thesis unfolding flight_inv_def by (simp, blast)
  qed
qed

lemma flights_inv: "flights s \<Longrightarrow> flight_inv s"
proof (induction rule: flights.induct)
  case idle
  show ?case by (simp add: flight_inv_def no_flight_def)
qed (rule flight_inv_step)

lemma flight_inv_facts:
  assumes inv: "flight_inv s"
  shows "card (running s) \<le> 1 \<and> (fst (schedule_refresh s) \<longleftrightarrow> running s = {}) \<and>
    card (running (snd (schedule_refresh s))) = 1"
proof (cases "refresh_task s")
  case None
  with inv have "running s = {}" by (force simp: flight_inv_def)
  with None show ?thesis by (simp add: schedule_refresh_def refresh_in_flight_def)
next
  case (Some t)
  with inv have "running s = {} \<or> running s = {t}" by (auto simp: flight_inv_def)
  with Some show ?thesis by (auto simp: schedule_refresh_def refresh_in_flight_def)
qed

section \<open>A refresh ends\<close>

lemma no_throw_cache [simp, io_intros]: "no_throw get_cache" "no_throw (set_cache c)" "no_throw (set_step k v)"
  by (simp_all add: no_throw_def get_cache_def set_cache_def set_step_def bind_run)

lemma no_throw_best_effort [io_intros]: "no_throw (best_effort k m)"
  unfolding best_effort_def by (intro io_intros)

lemma no_throw_enrich [io_intros]: "no_throw (enrich E items)"
  unfolding enrich_def by (intro io_intros no_throw_enrich_items no_throw_enrich_with_osv)

lemma no_throw_case_prod [io_intros]: "(\<And>x y. no_throw (f x y)) \<Longrightarrow> no_throw (case p of (x, y) \<Rightarrow> f x y)"
  by (simp add: case_prod_unfold)

lemma no_throw_refresh: "no_throw (refresh_feed B E)"
  unfolding refresh_feed_def by (intro io_intros no_throw_fetch_all)

text \<open>The outcome of a step is recorded; nothing but the steps writes the cache.\<close>

definition same_cache :: "('db, 'a) io \<Rightarrow> bool" where
  "same_cache m \<longleftrightarrow> (\<forall>w. w_cache (snd (m w)) = w_cache w)"

lemma same_cacheD: "same_cache m \<Longrightarrow> m w = (r, w') \<Longrightarrow> w_cache w' = w_cache w"
  unfolding same_cache_def by (metis snd_conv)

lemma same_cache_basic [simp, io_intros]:
  "same_cache (ret x)" "same_cache (raise e)" "same_cache (lift r)" "same_cache get_now" "same_cache (db_read f)"
  "same_cache (db_write g)" "same_cache (db_update h)" "same_cache (http_send c E meth u hs ps bd)" "same_cache get_cache"
  "same_cache (send_email E dest s b)" "same_cache synced_at" "same_cache (set_synced t)" "same_cache pruned_at"
  "same_cache (set_pruned t)" "same_cache (broker_publish ev)"
  by (simp_all add: same_cache_def io_defs db_read_def db_write_def db_update_def http_send_def Let_def get_cache_def
      send_email_def synced_at_def set_synced_def pruned_at_def set_pruned_def broker_publish_def split: sum.split)

lemma same_cache_bind [io_intros]:
  assumes "same_cache m" "\<And>x. same_cache (f x)" shows "same_cache (bind m f)"
  unfolding same_cache_def
proof
  fix w
  obtain r w1 where m: "m w = (r, w1)" by (cases "m w")
  with same_cacheD [OF assms(1) m] assms(2) show "w_cache (snd (bind m f w)) = w_cache w"
    by (cases r) (auto simp: bind_def same_cache_def)
qed

lemma same_cache_catch [io_intros]:
  assumes "same_cache m" "\<And>e. same_cache (h e)" shows "same_cache (catch m h)"
  unfolding same_cache_def
proof
  fix w
  obtain r w1 where m: "m w = (r, w1)" by (cases "m w")
  with same_cacheD [OF assms(1) m] assms(2) show "w_cache (snd (catch m h w)) = w_cache w"
    by (cases r) (auto simp: catch_def same_cache_def)
qed

lemma same_cache_loops [io_intros]:
  "same_cache m \<Longrightarrow> same_cache (attempt m)"
  "(\<And>x. same_cache (f x)) \<Longrightarrow> same_cache (io_map f xs)"
proof -
  show "same_cache m \<Longrightarrow> same_cache (attempt m)" by (simp add: same_cache_def attempt_def case_prod_unfold)
  show "(\<And>x. same_cache (f x)) \<Longrightarrow> same_cache (io_map f xs)" by (induction xs) (auto intro: io_intros)
qed

lemma same_cache_cases [io_intros]:
  "(c \<Longrightarrow> same_cache m) \<Longrightarrow> (\<not> c \<Longrightarrow> same_cache m') \<Longrightarrow> same_cache (if c then m else m')"
  "(x = None \<Longrightarrow> same_cache n) \<Longrightarrow> (\<And>y. x = Some y \<Longrightarrow> same_cache (f y)) \<Longrightarrow> same_cache (case x of None \<Rightarrow> n | Some y \<Rightarrow> f y)"
  "(\<And>e. r = Inl e \<Longrightarrow> same_cache (g e)) \<Longrightarrow> (\<And>z. r = Inr z \<Longrightarrow> same_cache (h z)) \<Longrightarrow>
    same_cache (case r of Inl e \<Rightarrow> g e | Inr z \<Rightarrow> h z)"
  "(\<And>a b. same_cache (k a b)) \<Longrightarrow> same_cache (case p of (a, b) \<Rightarrow> k a b)"
  "(\<And>y. v = Some y \<Longrightarrow> same_cache (f' y)) \<Longrightarrow> same_cache (when_some v f')"
  by (auto simp: when_some_def split: option.split sum.split prod.split)

lemma same_cache_steps [io_intros]:
  "same_cache (persist B items)" "same_cache (prune B E)" "same_cache (index_step B E items)"
  "same_cache (publish_cached n)" "same_cache (alert_step B E)"
proof -
  show "same_cache (persist B items)" unfolding persist_def by (intro io_intros)
  show "same_cache (prune B E)" unfolding prune_def Let_def by (intro io_intros)
  show "same_cache (index_step B E items)"
    unfolding index_step_def ensure_index_def index_items_def maybe_sync_archive_def sync_archive_def bulk_def
      delete_sample_docs_def Let_def by (intro io_intros)
  show "same_cache (publish_cached n)" unfolding publish_cached_def publish_step_def by (intro io_intros)
  show "same_cache (alert_step B E)"
    unfolding alert_step_def send_urgent_alerts_def alert_one_def deliver_def send_discord_def send_slack_def
      post_json_def Let_def by (intro io_intros)
qed

abbreviation outcome_of :: "'a result \<times> 'db world \<Rightarrow> string" where
  "outcome_of p \<equiv> (if res_ok (fst p) then ''ok'' else ''error'')"

text \<open>The world after a step, with its outcome entered in the cached feed.\<close>

definition recorded :: "string \<Rightarrow> 'a result \<times> 'db world \<Rightarrow> 'db world" where
  "recorded k p = (snd p)\<lparr>w_cache := (w_cache (snd p))\<lparr>c_steps := dict_set k (outcome_of p) (c_steps (w_cache (snd p)))\<rparr>\<rparr>"

lemma recorded_simps [simp]:
  "w_db (recorded k p) = w_db (snd p)" "w_now (recorded k p) = w_now (snd p)"
  by (simp_all add: recorded_def)

lemma best_effort_run: "best_effort k m w = (Inr (), recorded k (m w))"
  by (cases "m w"; cases "fst (m w)")
    (auto simp: best_effort_def bind_def catch_def set_step_def get_cache_def set_cache_def recorded_def)

lemma recorded_cache:
  assumes "same_cache m"
  shows "w_cache (recorded k (m w)) = (w_cache w)\<lparr>c_steps := dict_set k (outcome_of (m w)) (c_steps (w_cache w))\<rparr>"
  using assms by (simp add: recorded_def same_cache_def)

text \<open>The worlds between the steps of a refresh.\<close>

lemma refresh_worlds:
  obtains items0 errors w0 items w1 w2 w3 w4 w5 w6 w7 where
    "fetch_all B E w = (Inr (items0, errors), w0)" "enrich E items0 w0 = (Inr items, w1)"
    "w2 = w1\<lparr>w_cache := \<lparr>c_fetched_at = Some (utc (w_now w1)), c_generated_at = Some (utc (w_now w1)), c_errors = errors, c_steps = []\<rparr>\<rparr>"
    "w3 = recorded ''persist'' (persist B items w2)" "w4 = recorded ''prune'' (prune B E w3)"
    "w5 = recorded ''index'' (index_step B E items w4)" "w6 = recorded ''publish'' (publish_cached (length items) w5)"
    "w7 = recorded ''alert'' (alert_step B E w6)" "refresh_feed B E w = (Inr items, w7)"
    "w_cache w7 = (w_cache w2)\<lparr>c_steps := [(''persist'', outcome_of (persist B items w2)), (''prune'', outcome_of (prune B E w3)),
       (''index'', outcome_of (index_step B E items w4)), (''publish'', outcome_of (publish_cached (length items) w5)),
       (''alert'', outcome_of (alert_step B E w6))]\<rparr>"
    "c_generated_at (w_cache w5) = Some (utc (w_now w1))"
proof -
  obtain items0 errors w0 where f: "fetch_all B E w = (Inr (items0, errors), w0)"
    using no_throwE [OF no_throw_fetch_all, of B E w] by (metis surj_pair)
  obtain items w1 where e: "enrich E items0 w0 = (Inr items, w1)" using no_throwE [OF no_throw_enrich] .
  let ?c = "\<lparr>c_fetched_at = Some (utc (w_now w1)), c_generated_at = Some (utc (w_now w1)), c_errors = errors, c_steps = []\<rparr>"
  define w2 where "w2 = w1\<lparr>w_cache := ?c\<rparr>"
  define w3 where "w3 = recorded ''persist'' (persist B items w2)"
  define w4 where "w4 = recorded ''prune'' (prune B E w3)"
  define w5 where "w5 = recorded ''index'' (index_step B E items w4)"
  define w6 where "w6 = recorded ''publish'' (publish_cached (length items) w5)"
  define w7 where "w7 = recorded ''alert'' (alert_step B E w6)"
  have c: "w_cache w7 = (w_cache w6)\<lparr>c_steps := dict_set ''alert'' (outcome_of (alert_step B E w6)) (c_steps (w_cache w6))\<rparr>"
    "w_cache w6 = (w_cache w5)\<lparr>c_steps := dict_set ''publish'' (outcome_of (publish_cached (length items) w5)) (c_steps (w_cache w5))\<rparr>"
    "w_cache w5 = (w_cache w4)\<lparr>c_steps := dict_set ''index'' (outcome_of (index_step B E items w4)) (c_steps (w_cache w4))\<rparr>"
    "w_cache w4 = (w_cache w3)\<lparr>c_steps := dict_set ''prune'' (outcome_of (prune B E w3)) (c_steps (w_cache w3))\<rparr>"
    "w_cache w3 = (w_cache w2)\<lparr>c_steps := dict_set ''persist'' (outcome_of (persist B items w2)) (c_steps (w_cache w2))\<rparr>"
    unfolding w3_def w4_def w5_def w6_def w7_def by (rule recorded_cache, rule same_cache_steps)+
  have s: "set_cache ?c w1 = (Inr (), w2)" by (simp add: set_cache_def w2_def)
  have "refresh_feed B E w = (Inr items, w7)"
    using f e s by (simp add: refresh_feed_def bind_run best_effort_run run_ret w3_def w4_def w5_def w6_def w7_def)
  moreover have "w_cache w2 = ?c" by (simp add: w2_def)
  then have "w_cache w7 = (w_cache w2)\<lparr>c_steps := [(''persist'', outcome_of (persist B items w2)), (''prune'', outcome_of (prune B E w3)),
       (''index'', outcome_of (index_step B E items w4)), (''publish'', outcome_of (publish_cached (length items) w5)),
       (''alert'', outcome_of (alert_step B E w6))]\<rparr>"
    unfolding c by simp
  moreover have "c_generated_at (w_cache w5) = Some (utc (w_now w1))" unfolding c(3-5) by (simp add: w2_def)
  ultimately show ?thesis using that [OF f e w2_def w3_def w4_def w5_def w6_def w7_def] by blast
qed

lemma refresh_steps:
  obtains items0 errors w0 items w1 w2 w3 w4 w5 w6 w7 where
    "fetch_all B E w = (Inr (items0, errors), w0)" "enrich E items0 w0 = (Inr items, w1)"
    "w2 = w1\<lparr>w_cache := \<lparr>c_fetched_at = Some (utc (w_now w1)), c_generated_at = Some (utc (w_now w1)), c_errors = errors, c_steps = []\<rparr>\<rparr>"
    "w_db w3 = w_db (snd (persist B items w2))" "w_now w3 = w_now (snd (persist B items w2))"
    "w_db w4 = w_db (snd (prune B E w3))" "w_now w4 = w_now (snd (prune B E w3))"
    "w_db w5 = w_db (snd (index_step B E items w4))" "w_now w5 = w_now (snd (index_step B E items w4))"
    "w_db w6 = w_db (snd (publish_cached (length items) w5))" "w_now w6 = w_now (snd (publish_cached (length items) w5))"
    "w_db w7 = w_db (snd (alert_step B E w6))" "w_now w7 = w_now (snd (alert_step B E w6))"
    "refresh_feed B E w = (Inr items, w7)"
    "w_cache w7 = (w_cache w2)\<lparr>c_steps := [(''persist'', outcome_of (persist B items w2)), (''prune'', outcome_of (prune B E w3)),
       (''index'', outcome_of (index_step B E items w4)), (''publish'', outcome_of (publish_cached (length items) w5)),
       (''alert'', outcome_of (alert_step B E w6))]\<rparr>"
    "c_generated_at (w_cache w5) = Some (utc (w_now w1))"
proof (rule refresh_worlds [of B E w], goal_cases)
  case (1 items0 errors w0 items w1 w2 w3 w4 w5 w6 w7)
  show ?case by (rule 1(1) [OF 1(2-4) _ _ _ _ _ _ _ _ _ _ 1(10-12)]) (simp_all add: 1(5-9))
qed

section \<open>What a refresh leaves in the archive\<close>

lemma leaves_enrich_parts [io_intros]:
  "leaves kev_hit" "leaves (kev_put c t)" "leaves (osv_hit i)" "leaves (osv_put i d t)" "leaves get_cache"
  "leaves (broker_publish ev)"
  by (simp_all add: leaves_def kev_hit_def kev_put_def osv_hit_def osv_put_def get_cache_def broker_publish_def)

lemma leaves_enrich [io_intros]: "leaves (enrich E items)"
  unfolding enrich_def enrich_items_def enrich_with_osv_def fetch_kev_def fetch_epss_def epss_batch_def fetch_osv_def
    fetch_one_def Let_def
  by (intro io_intros)

lemma leaves_index_step [io_intros]: "leaves (index_step B E items)"
  unfolding index_step_def by (intro io_intros)

lemma leaves_publish_cached [io_intros]: "leaves (publish_cached n)"
  unfolding publish_cached_def publish_step_def by (intro io_intros)

lemma enrich_items_ids: "enrich_items E items w = (Inr items', w') \<Longrightarrow> map item_id items' = map item_id items"
  by (auto simp: enrich_items_def Let_def bind_Inr_iff run_ret enrich_item_def split: if_splits)

lemma enrich_with_osv_ids: "enrich_with_osv E items w = (Inr items', w') \<Longrightarrow> map item_id items' = map item_id items"
  by (auto simp: enrich_with_osv_def Let_def bind_Inr_iff run_ret osv_item_def split: if_splits)

lemma enrich_ids:
  assumes "enrich E items w = (Inr items', w')"
  shows "map item_id items' = map item_id items"
proof -
  from assms obtain items1 w1 where
    1: "catch (enrich_items E items) (\<lambda>_. ret items) w = (Inr items1, w1)"
      "catch (enrich_with_osv E items1) (\<lambda>_. ret items1) w1 = (Inr items', w')"
    by (auto simp: enrich_def bind_Inr_iff)
  have "map item_id items1 = map item_id items" using 1(1) enrich_items_ids by (auto simp: catch_iff run_ret)
  moreover have "map item_id items' = map item_id items1" using 1(2) enrich_with_osv_ids by (auto simp: catch_iff run_ret)
  ultimately show ?thesis by simp
qed

text \<open>What each item keeps through both steps, all items keep.\<close>

lemma enrich_keeps:
  assumes "enrich E items w = (Inr items', w')" "list_all P items"
    "\<And>kevs epss it. P it \<Longrightarrow> P (enrich_item kevs epss it)" "\<And>osv it. P it \<Longrightarrow> P (osv_item osv it)"
  shows "list_all P items'"
proof -
  from assms(1) obtain items1 w1 where
    1: "catch (enrich_items E items) (\<lambda>_. ret items) w = (Inr items1, w1)"
      "catch (enrich_with_osv E items1) (\<lambda>_. ret items1) w1 = (Inr items', w')"
    by (auto simp: enrich_def bind_Inr_iff)
  have "items1 = items \<or> (\<exists>kevs epss. items1 = map (enrich_item kevs epss) items)"
    using 1(1) by (auto simp: catch_iff run_ret enrich_items_def Let_def bind_Inr_iff split: if_splits)
  with assms(2,3) have "list_all P items1" by (auto simp: list_all_iff)
  moreover have "items' = items1 \<or> (\<exists>osv. items' = map (osv_item osv) items1)"
    using 1(2) by (auto simp: catch_iff run_ret enrich_with_osv_def Let_def bind_Inr_iff split: if_splits)
  ultimately show ?thesis using assms(4) by (auto simp: list_all_iff)
qed

text \<open>After the fetch no time passes.\<close>

definition still :: "('db, 'a) io \<Rightarrow> bool" where
  "still m \<longleftrightarrow> (\<forall>w. w_now (snd (m w)) = w_now w)"

lemma stillD: "still m \<Longrightarrow> m w = (r, w') \<Longrightarrow> w_now w' = w_now w"
  unfolding still_def by (metis snd_conv)

lemma still_now: "still m \<Longrightarrow> w_now (snd (m w)) = w_now w"
  by (simp add: still_def)

lemma leaves_still: "leaves m \<Longrightarrow> still m"
  by (simp add: leaves_def still_def)

lemma still_basic [simp, io_intros]:
  "still (ret x)" "still (raise e)" "still get_now" "still (db_read f)" "still (db_write g)" "still (db_update h)"
  "still pruned_at" "still (set_pruned t)"
  by (simp_all add: still_def io_defs db_read_def db_write_def db_update_def pruned_at_def set_pruned_def split: sum.split)

lemma still_bind [io_intros]:
  assumes "still m" "\<And>x. still (f x)" shows "still (bind m f)"
  unfolding still_def
proof
  fix w
  obtain r w1 where m: "m w = (r, w1)" by (cases "m w")
  with stillD [OF assms(1) m] assms(2) show "w_now (snd (bind m f w)) = w_now w"
    by (cases r) (auto simp: bind_def still_def)
qed

lemma still_catch [io_intros]:
  assumes "still m" "\<And>e. still (h e)" shows "still (catch m h)"
  unfolding still_def
proof
  fix w
  obtain r w1 where m: "m w = (r, w1)" by (cases "m w")
  with stillD [OF assms(1) m] assms(2) show "w_now (snd (catch m h w)) = w_now w"
    by (cases r) (auto simp: catch_def still_def)
qed

lemma still_cases [io_intros]:
  "(c \<Longrightarrow> still m) \<Longrightarrow> (\<not> c \<Longrightarrow> still m') \<Longrightarrow> still (if c then m else m')"
  "(\<And>e. r = Inl e \<Longrightarrow> still (g e)) \<Longrightarrow> (\<And>z. r = Inr z \<Longrightarrow> still (h z)) \<Longrightarrow> still (case r of Inl e \<Rightarrow> g e | Inr z \<Rightarrow> h z)"
  "still n \<Longrightarrow> still (attempt n)"
  by (auto simp: still_def attempt_def case_prod_unfold split: sum.split)

lemma still_steps: "still (persist B items)" "still (prune B E)" "still (alert_step B E)"
proof -
  show "still (persist B items)" unfolding persist_def by (intro io_intros)
  show "still (prune B E)" unfolding prune_def Let_def by (intro io_intros)
  have "still (io_map (alert_one E) xs)" for xs by (intro leaves_still io_intros)
  then show "still (alert_step B E)" unfolding alert_step_def send_urgent_alerts_def Let_def by (intro io_intros)
qed

lemma refresh_clock:
  fixes B :: "'db backend"
  assumes run: "refresh_feed B E w = (Inr items, w')" and f: "fetch_all B E w = (Inr (items0, errors), w0)"
  shows "w_now w' = w_now w0 \<and> map item_id items = map item_id items0"
proof (rule refresh_steps [of B E w])
  fix items0' errors' w0' items1 w1 and w2 w3 w4 w5 w6 w7 :: "'db world"
  assume f': "fetch_all B E w = (Inr (items0', errors'), w0')" and e: "enrich E items0' w0' = (Inr items1, w1)" and
    w2: "w2 = w1\<lparr>w_cache := \<lparr>c_fetched_at = Some (utc (w_now w1)), c_generated_at = Some (utc (w_now w1)), c_errors = errors', c_steps = []\<rparr>\<rparr>"
    and now: "w_now w3 = w_now (snd (persist B items1 w2))" "w_now w4 = w_now (snd (prune B E w3))"
    "w_now w5 = w_now (snd (index_step B E items1 w4))" "w_now w6 = w_now (snd (publish_cached (length items1) w5))"
    "w_now w7 = w_now (snd (alert_step B E w6))" and run': "refresh_feed B E w = (Inr items1, w7)"
  have "w_now w1 = w_now w0'" using leavesD [OF leaves_enrich e] by simp
  then have "w_now w3 = w_now w0'" using now(1) w2 by (simp add: still_now still_steps)
  then have "w_now w4 = w_now w0'" using now(2) by (simp add: still_now still_steps)
  then have "w_now w5 = w_now w0'" using now(3) by (simp add: still_now leaves_still leaves_index_step)
  then have "w_now w6 = w_now w0'" using now(4) by (simp add: still_now leaves_still leaves_publish_cached)
  then have "w_now w7 = w_now w0'" using now(5) by (simp add: still_now still_steps)
  with run run' f f' enrich_ids [OF e] show ?thesis by simp
qed

text \<open>The archive holds the items, last seen at a time.\<close>

definition holds :: "archive \<Rightarrow> feed_item list \<Rightarrow> int \<Rightarrow> bool" where
  "holds A items now \<longleftrightarrow> (\<forall>it \<in> set items. \<exists>r. ar_items A (item_id it) = Some r \<and> a_item r = stored_item it \<and> a_last_seen r = now)"

lemma holds_mark: "holds A items now \<Longrightarrow> holds (ar_mark t ids A) items now"
  by (simp add: holds_def ar_mark_def)

lemma holds_prune: "holds A items now \<Longrightarrow> cutoff \<le> now \<Longrightarrow> holds (ar_prune cutoff A) items now"
  by (fastforce simp: holds_def ar_prune_def)

lemma holds_upsert:
  assumes "distinct (map item_id items)" shows "holds (fold (ar_upsert now) items A) items now"
  unfolding holds_def
proof
  fix it assume it: "it \<in> set items"
  have "filter (\<lambda>x. item_id x = item_id it) items = [it]"
    using assms it by (induction items) (auto simp: filter_empty_conv, metis image_eqI)
  then show "\<exists>r. ar_items (fold (ar_upsert now) items A) (item_id it) = Some r \<and> a_item r = stored_item it \<and> a_last_seen r = now"
    by (simp add: sq.ar_items_upserts)
qed

context storage
begin

lemma persist_run:
  assumes "ok (w_db w)" "dt_range (w_now w)" "list_all item_ok items"
  shows "\<exists>w'. persist B items w = (Inr (), w') \<and> ok (w_db w') \<and> w_now w' = w_now w \<and>
    abs (w_db w') = fold (ar_upsert (w_now w)) items (abs (w_db w))"
proof -
  from upsert [of "w_db w" items "w_now w"] assms obtain db' where
    "upsert_items B (w_now w) items (w_db w) = Inr (length items, db')" "inv db'" "up db'"
    "abs db' = fold (ar_upsert (w_now w)) items (abs (w_db w))" by blast
  then show ?thesis by (auto simp: persist_def bind_def db_update_def run_ret)
qed

lemma prune_run:
  assumes "ok (w_db w)"
  shows "\<exists>r w'. prune B E w = (r, w') \<and> ok (w_db w') \<and> w_now w' = w_now w \<and>
    (\<exists>cutoff \<le> w_now w. abs (w_db w') = abs (w_db w) \<or> abs (w_db w') = ar_prune cutoff (abs (w_db w)))"
proof (cases "retention_days (cfg E) \<le> 0 \<or> (case w_pruned w of None \<Rightarrow> False | Some t \<Rightarrow> w_now w - t < prune_interval * us_sec)
    \<or> \<not> dt_range (w_now w - retention_days (cfg E) * us_day)")
  case True
  then have "snd (prune B E w) = w"
    by (auto simp: prune_def pruned_at_def bind_run run_ret Let_def split: if_splits)
  with assms show ?thesis by (metis order_refl prod.collapse)
next
  case False
  let ?cut = "w_now w - retention_days (cfg E) * us_day"
  have c: "?cut \<le> w_now w" using False by (simp add: us_day_def)
  from prune [of "w_db w" "utc ?cut"] assms False obtain db' k where
    p: "prune_items B (utc ?cut) (w_db w) = Inr (k, db')" "inv db'" "up db'" "abs db' = ar_prune ?cut (abs (w_db w))" by auto
  then have "prune B E w = (Inr (), w\<lparr>w_db := db', w_pruned := Some (w_now w)\<rparr>)"
    using False by (simp add: prune_def pruned_at_def set_pruned_def bind_def db_update_def run_ret Let_def)
  with p c show ?thesis
    by (intro exI [of _ "Inr ()"] exI [of _ "w\<lparr>w_db := db', w_pruned := Some (w_now w)\<rparr>"]) (auto intro!: exI [of _ ?cut])
qed

lemma fetch_all_ids: "fetch_all B E w = (Inr (items, errors), w') \<Longrightarrow> distinct (map item_id items)"
  by (auto simp: fetch_all_def bind_Inr_iff run_ret intro: dedupe_ids(1) split: prod.splits)

text \<open>What a refresh leaves in the archive: the items are upserted at its end, then the retention step
  may prune, then alerts may be marked.\<close>

lemma refresh_archive:
  assumes "refresh_feed B E w = (Inr items, w')" "ok (w_db w)" "0 \<le> w_now w" "dt_range (w_now w')" "list_all item_ok items"
  obtains items0 errors w0 w1 cutoff ids A where
    "fetch_all B E w = (Inr (items0, errors), w0)" "enrich E items0 w0 = (Inr items, w1)" "w_now w' = w_now w0" "ok (w_db w')"
    "cutoff \<le> w_now w'" "A = fold (ar_upsert (w_now w')) items (abs (w_db w0))"
    "abs (w_db w') = ar_mark (w_now w') ids A \<or> abs (w_db w') = ar_mark (w_now w') ids (ar_prune cutoff A)"
    "map_of (c_steps (w_cache w')) ''persist'' = Some ''ok''" "map_of (c_steps (w_cache w')) ''alert'' = Some ''ok''"
    "c_errors (w_cache w') = errors"
proof -
  obtain items0 errors w0 items1 w1 w2 w3 w4 w5 w6 w7 where
    f: "fetch_all B E w = (Inr (items0, errors), w0)" and e: "enrich E items0 w0 = (Inr items1, w1)" and
    w2: "w2 = w1\<lparr>w_cache := \<lparr>c_fetched_at = Some (utc (w_now w1)), c_generated_at = Some (utc (w_now w1)), c_errors = errors, c_steps = []\<rparr>\<rparr>" and
    w3: "w_db w3 = w_db (snd (persist B items1 w2))" "w_now w3 = w_now (snd (persist B items1 w2))" and
    w4: "w_db w4 = w_db (snd (prune B E w3))" "w_now w4 = w_now (snd (prune B E w3))" and
    w5: "w_db w5 = w_db (snd (index_step B E items1 w4))" "w_now w5 = w_now (snd (index_step B E items1 w4))" and
    w6: "w_db w6 = w_db (snd (publish_cached (length items1) w5))" "w_now w6 = w_now (snd (publish_cached (length items1) w5))" and
    w7: "w_db w7 = w_db (snd (alert_step B E w6))" "w_now w7 = w_now (snd (alert_step B E w6))" and
    run: "refresh_feed B E w = (Inr items1, w7)" and
    cache: "w_cache w7 = (w_cache w2)\<lparr>c_steps := [(''persist'', outcome_of (persist B items1 w2)), (''prune'', outcome_of (prune B E w3)),
       (''index'', outcome_of (index_step B E items1 w4)), (''publish'', outcome_of (publish_cached (length items1) w5)),
       (''alert'', outcome_of (alert_step B E w6))]\<rparr>"
    by (rule refresh_steps [of B E w])
  from run assms(1) have same: "items1 = items" "w7 = w'" by simp_all
  have t1: "w_db w1 = w_db w0" "w_now w1 = w_now w0" using leavesD [OF leaves_enrich e] by auto
  have t5: "w_db w5 = w_db w4" "w_now w5 = w_now w4" using leaves_index_step w5 by (metis leaves_def)+
  have t6: "w_db w6 = w_db w5" "w_now w6 = w_now w5" using leaves_publish_cached w6 by (metis leaves_def)+
  have t3: "w_now w3 = w_now w2" using w3(2) still_steps(1) [of B items1] by (simp add: still_def)
  have t03: "w_now w3 = w_now w0" using t1 t3 by (simp add: w2)
  have d: "dt_range (w_now w0)" using refresh_clock [OF assms(1) f] assms(4) by metis
  have ok0: "ok (w_db w0)" using keepsD [OF keeps_fetch_all f assms(2,3) d] .
  obtain w3' where p: "persist B items w2 = (Inr (), w3')" "ok (w_db w3')" "w_now w3' = w_now w2"
    "abs (w_db w3') = fold (ar_upsert (w_now w2)) items (abs (w_db w2))"
    using persist_run [of w2 items] ok0 d assms(5) t1 by (auto simp: w2)
  then have 3: "ok (w_db w3)" "abs (w_db w3) = fold (ar_upsert (w_now w0)) items (abs (w_db w0))"
    using w3 same t1 by (auto simp: w2)
  obtain r4 w4' cutoff where q: "prune B E w3 = (r4, w4')" "ok (w_db w4')" "w_now w4' = w_now w3" "cutoff \<le> w_now w3"
    "abs (w_db w4') = abs (w_db w3) \<or> abs (w_db w4') = ar_prune cutoff (abs (w_db w3))"
    using prune_run [OF 3(1)] by blast
  with t5 t6 w4 t03 have 6: "ok (w_db w6)" "abs (w_db w6) = abs (w_db w4')" "w_now w6 = w_now w0" by auto
  from alerts_run [of w6 E] 6 d obtain ids w7' where a: "send_urgent_alerts B E w6 = (Inr ids, w7')" "ok (w_db w7')"
    "abs (w_db w7') = ar_mark (w_now w6) ids (abs (w_db w6))" "w_now w7' = w_now w6" by auto
  then have al: "alert_step B E w6 = (Inr (), w7')" by (simp add: alert_step_def bind_run run_ret)
  then have 7: "ok (w_db w')" "abs (w_db w') = ar_mark (w_now w0) ids (abs (w_db w4'))" "w_now w' = w_now w0"
    using w7 a 6 same by auto
  have "map_of (c_steps (w_cache w')) ''persist'' = Some ''ok''" "map_of (c_steps (w_cache w')) ''alert'' = Some ''ok''"
    using cache unfolding same p(1) al by simp_all
  moreover have "c_errors (w_cache w') = errors" using cache by (simp add: same w2)
  ultimately show ?thesis using f e [unfolded same] 7 q t03 by (intro that [OF _ _ _ _ _ refl]) (auto simp: 3(2))
qed

text \<open>After a refresh every item it returns is in the archive, and the steps report success.\<close>

lemma refresh_holds:
  assumes "refresh_feed B E w = (Inr items, w')" "ok (w_db w)" "0 \<le> w_now w" "dt_range (w_now w')" "list_all item_ok items"
  shows "ok (w_db w') \<and> holds (abs (w_db w')) items (w_now w') \<and> map_of (c_steps (w_cache w')) ''persist'' = Some ''ok'' \<and>
    map_of (c_steps (w_cache w')) ''alert'' = Some ''ok''"
proof -
  from assms obtain items0 errors w0 w1 cutoff ids A where
    r: "fetch_all B E w = (Inr (items0, errors), w0)" "enrich E items0 w0 = (Inr items, w1)" "ok (w_db w')"
    "cutoff \<le> w_now w'" "A = fold (ar_upsert (w_now w')) items (abs (w_db w0))"
    "abs (w_db w') = ar_mark (w_now w') ids A \<or> abs (w_db w') = ar_mark (w_now w') ids (ar_prune cutoff A)"
    "map_of (c_steps (w_cache w')) ''persist'' = Some ''ok''" "map_of (c_steps (w_cache w')) ''alert'' = Some ''ok''"
    by (rule refresh_archive)
  have "distinct (map item_id items)" using fetch_all_ids [OF r(1)] enrich_ids [OF r(2)] by simp
  then have "holds A items (w_now w')" unfolding r(5) by (rule holds_upsert)
  with r(3,4,6-8) show ?thesis using holds_mark holds_prune by auto
qed

end

section \<open>Requests between refreshes\<close>

text \<open>
  The life of the cached feed: the time, the cache, the tasks and the times at which a refresh was
  started, latest first. A refresh is started when the service comes up (\<open>lifespan\<close>) and by requests
  for the feed; one that runs may end at any later time and leaves the cache that \<open>refresh_feed\<close>
  leaves at that time.
\<close>

inductive feed_run :: "'db backend \<Rightarrow> settings \<Rightarrow> int \<Rightarrow> feed_cache \<Rightarrow> flight \<Rightarrow> int list \<Rightarrow> bool" for B st where
  up: "feed_run B st now empty_cache (snd (schedule_refresh no_flight)) [now]"
| request: "feed_run B st now c s starts \<Longrightarrow> now \<le> t \<Longrightarrow> get_feed st t c s = (c', s') \<Longrightarrow>
    feed_run B st t c s' (if running s' = running s then starts else t # starts)"
| ended: "feed_run B st now c s starts \<Longrightarrow> k \<in> running s \<Longrightarrow> refresh_feed B E w = (Inr items, w') \<Longrightarrow> now \<le> w_now w' \<Longrightarrow>
    feed_run B st (w_now w') (w_cache w') (s\<lparr>running := running s - {k}, finished := insert k (finished s)\<rparr>) starts"
| called_back: "feed_run B st now c s starts \<Longrightarrow> k \<in> finished s \<Longrightarrow>
    feed_run B st now c (on_refresh_done k (s\<lparr>finished := finished s - {k}\<rparr>)) starts"

lemma refresh_fetched_at:
  assumes "refresh_feed B E w = (Inr items, w')" shows "c_fetched_at (w_cache w') = Some (utc (w_now w'))"
proof (rule refresh_worlds [of B E w], goal_cases)
  case (1 items0 errors w0 items1 w1 w2 w3 w4 w5 w6 w7)
  have "w7 = w'" using 1(9) assms by simp
  moreover have "w_now w1 = w_now w0" using leavesD [OF leaves_enrich 1(2)] by simp
  moreover have "w_now w' = w_now w0" using refresh_clock [OF assms 1(1)] by simp
  ultimately show ?case using 1(10) unfolding 1(3) by simp
qed

lemma running_callback: "running (on_refresh_done k (s\<lparr>finished := F\<rparr>)) = running s"
  by (simp add: on_refresh_done_def)

lemma running_schedule:
  assumes "flight_inv s" shows "running (snd (schedule_refresh s)) = running s \<longleftrightarrow> running s \<noteq> {}"
proof (cases "refresh_in_flight s")
  case False
  then have "next_task s \<notin> running s" using assms by (auto simp: flight_inv_def)
  moreover have "running s = {}" using False assms by (force simp: flight_inv_def refresh_in_flight_def)
  ultimately show ?thesis using False by (auto simp: schedule_refresh_def)
qed (auto simp: schedule_refresh_def refresh_in_flight_def split: option.splits)

text \<open>The latest start is over and cached, or still running.\<close>

lemma feed_run_inv:
  "feed_run B st now c s starts \<Longrightarrow> flights s \<and> sorted_wrt (\<lambda>new old. old + feed_cache_ttl st * us_sec < new) starts \<and>
     (\<exists>t0 ts. starts = t0 # ts \<and> t0 \<le> now \<and> (running s \<noteq> {} \<or> (\<exists>f. c_fetched_at c = Some (utc f) \<and> t0 \<le> f)))"
proof (induction rule: feed_run.induct)
  case (up now)
  have "flights (snd (schedule_refresh no_flight))"
    by (rule flights.step [OF flights.idle flight_step.ask]) (rule prod.collapse [symmetric])
  then show ?case by (simp add: schedule_refresh_def refresh_in_flight_def no_flight_def)
next
  case (request now c s starts t c' s')
  then obtain t0 ts where 0: "starts = t0 # ts" "t0 \<le> now" "running s \<noteq> {} \<or> (\<exists>f. c_fetched_at c = Some (utc f) \<and> t0 \<le> f)"
    and f: "flights s" and so: "sorted_wrt (\<lambda>new old. old + feed_cache_ttl st * us_sec < new) starts" by blast
  have inv: "flight_inv s" using flights_inv [OF f] .
  have "flights (snd (schedule_refresh s))" by (rule flights.step [OF f flight_step.ask]) (rule prod.collapse [symmetric])
  then have f': "flights s'" using f request(3) by (auto simp: get_feed_def split: if_splits)
  show ?case
  proof (cases "running s' = running s")
    case True
    with 0 so f' request(2) show ?thesis by auto
  next
    case False
    then have st: "stale st t c" "s' = snd (schedule_refresh s)" using request(3) by (auto simp: get_feed_def split: if_splits)
    with False have "running s = {}" using running_schedule [OF inv] by simp
    with 0(3) obtain f where "c_fetched_at c = Some (utc f)" "t0 \<le> f" by blast
    with st(1) have "t0 + feed_cache_ttl st * us_sec < t" by (simp add: stale_def)
    moreover have "old + feed_cache_ttl st * us_sec \<le> t0 + feed_cache_ttl st * us_sec" if "old \<in> set starts" "old \<le> t0" for old
      using that by simp
    moreover have "running s' \<noteq> {}" using False \<open>running s = {}\<close> by simp
    moreover have "old + feed_cache_ttl st * us_sec < t" if "old \<in> set ts" for old
    proof -
      have "old + feed_cache_ttl st * us_sec < t0" using so that unfolding 0(1) by simp
      with 0(2) request(2) show ?thesis by linarith
    qed
    ultimately show ?thesis using False f' so unfolding 0(1) by simp
  qed
next
  case (ended now c s starts k E w items w')
  then have "flight_step s (s\<lparr>running := running s - {k}, finished := insert k (finished s)\<rparr>)" by (intro flight_step.finish)
  then have "flights (s\<lparr>running := running s - {k}, finished := insert k (finished s)\<rparr>)" using ended.IH by (blast intro: flights.step)
  moreover obtain t0 ts where "starts = t0 # ts" "t0 \<le> now" using ended.IH by blast
  ultimately show ?case using ended.IH ended(4) refresh_fetched_at [OF ended(3)] by auto
next
  case (called_back now c s starts k)
  then have "flights (on_refresh_done k (s\<lparr>finished := finished s - {k}\<rparr>))"
    by (blast intro: flights.step flight_step.callback)
  with called_back.IH show ?case by (simp add: running_callback)
qed

section \<open>Properties\<close>


text \<open>With the database up, a refresh whose items the store accepts ends with every item it returns in
  the archive, last seen at the time of the refresh and not removed by the retention step, the
  database still consistent, and both the persist and the alert step reported as \<open>ok\<close>.\<close>

theorem refresh_fills_archive:
  assumes "refresh_feed sqlite_store E w = (Inr items, w')" "sq_inv (w_db w)" "sq_up (w_db w)" "0 \<le> w_now w" "dt_range (w_now w')"
    "list_all item_ok items"
  shows "sq_inv (w_db w') \<and> sq_up (w_db w') \<and> holds (sq_archive (w_db w')) items (w_now w') \<and>
    map_of (c_steps (w_cache w')) ''persist'' = Some ''ok'' \<and> map_of (c_steps (w_cache w')) ''alert'' = Some ''ok''"
  using sq.refresh_holds [OF assms(1) _ assms(4-6)] assms(2,3) by blast

lemma refresh_fills_archive_witness:
  "\<exists>w'. refresh_feed sqlite_store offline (new_world (sq_of demo_db) 0 default_settings) = (Inr [], w') \<and> sq_inv (w_db w') \<and>
    map_of (c_steps (w_cache w')) ''persist'' = Some ''ok'' \<and> map_of (c_steps (w_cache w')) ''alert'' = Some ''ok''"
proof -
  let ?w = "new_world (sq_of demo_db) 0 default_settings"
  have w: "sq_inv (w_db ?w)" "sq_up (w_db ?w)" "0 \<le> w_now ?w" "at_rest ?w" "dt_range (w_now ?w + 60 * us_sec)"
    using demo_inv by (simp_all add: new_world_def at_rest_def nvd_stagger_seconds_def us_sec_def us_day_def dt_range_def)
  have o: "outage offline" by (simp add: outage_def offline_def is_transport_def)
  from sq.fetch_all_outage [OF o _ w(4,3,5)] w(1,2) obtain w0 where
    f: "fetch_all sqlite_store offline ?w = (Inr ([], []), w0)" "w_now w0 \<le> w_now ?w + 60 * us_sec" by blast
  obtain items w' where r: "refresh_feed sqlite_store offline ?w = (Inr items, w')" using no_throwE [OF no_throw_refresh] .
  have "w_now ?w \<le> w_now w'" using timely_fetch_all f refresh_clock [OF r f(1)] by (metis timely_def snd_conv)
  then have d: "dt_range (w_now w')"
    using w(3,5) f(2) refresh_clock [OF r f(1)] by (intro dt_range_before [OF w(5)]) auto
  moreover have "items = []" using refresh_clock [OF r f(1)] by simp
  ultimately show ?thesis using refresh_fills_archive [OF r w(1-3) d] r by simp
qed

text \<open>C8. At most one refresh runs at a time: in every run of the scheduler, however requests, the ends of
  refreshes and their callbacks interleave, at most one task runs, and a request starts a new one
  exactly when none is running.\<close>

theorem one_refresh_at_a_time:
  assumes "flights s"
  shows "card (running s) \<le> 1 \<and> (fst (schedule_refresh s) \<longleftrightarrow> running s = {}) \<and>
    card (running (snd (schedule_refresh s))) = 1"
  using flights_inv [OF assms] by (rule flight_inv_facts)

text \<open>A second refresh starts before the callback of the first one has run.\<close>

lemma one_refresh_at_a_time_witness:
  "\<exists>s. flights s \<and> finished s = {0} \<and> running s \<noteq> {} \<and> card (running s) \<le> 1 \<and> \<not> fst (schedule_refresh s)"
proof -
  let ?s1 = "\<lparr>refresh_task = Some 0, running = {0}, finished = {}, next_task = 1\<rparr>"
  let ?s2 = "\<lparr>refresh_task = Some 0, running = {}, finished = {0}, next_task = 1\<rparr>"
  let ?s3 = "\<lparr>refresh_task = Some 1, running = {1}, finished = {0}, next_task = 2\<rparr>"
  have "flight_step no_flight ?s1"
    by (rule flight_step.ask [where b = True]) (simp add: schedule_refresh_def refresh_in_flight_def no_flight_def)
  then have "flights ?s1" by (rule flights.step [OF flights.idle])
  moreover have "flight_step ?s1 ?s2" using flight_step.finish [of 0 ?s1] by simp
  ultimately have "flights ?s2" by (rule flights.step)
  moreover have "flight_step ?s2 ?s3"
    by (rule flight_step.ask [where b = True]) (simp add: schedule_refresh_def refresh_in_flight_def)
  ultimately have f: "flights ?s3" by (rule flights.step)
  from one_refresh_at_a_time [OF this] f show ?thesis by (intro exI [of _ ?s3]) simp
qed

text \<open>C31. A request for the feed is answered at once with the cache as it is. When the cache was never
  filled, or was filled by a refresh longer ago than the configured time, one refresh is running
  afterwards; otherwise the request starts nothing. So, in the whole life of the service, however
  requests, the ends of refreshes and their callbacks interleave, two refreshes are never started
  within the configured time.\<close>

theorem stale_feed_refreshes:
  assumes "feed_run B st now c s starts" "now \<le> t"
  shows "fst (get_feed st t c s) = c \<and>
    (if c_fetched_at c = None \<or> (\<exists>f. c_fetched_at c = Some f \<and> feed_cache_ttl st * us_sec < t - instant f)
     then card (running (snd (get_feed st t c s))) = 1 else snd (get_feed st t c s) = s) \<and>
    sorted_wrt (\<lambda>new old. old + feed_cache_ttl st * us_sec < new) starts"
proof -
  from feed_run_inv [OF assms(1)] have f: "flights s" "sorted_wrt (\<lambda>new old. old + feed_cache_ttl st * us_sec < new) starts" by simp_all
  from flight_inv_facts [OF flights_inv [OF f(1)]] f(2) show ?thesis
    by (auto simp: get_feed_def stale_def split: option.splits)
qed

text \<open>A refresh that ends and, after the configured time, the next one.\<close>

lemma stale_feed_refreshes_witness:
  "\<exists>now c s starts. feed_run sqlite_store default_settings now c s starts \<and> length starts = 2 \<and>
    sorted_wrt (\<lambda>new old. old + feed_cache_ttl default_settings * us_sec < new) starts"
proof -
  let ?w = "new_world (sq_of demo_db) 0 default_settings"
  obtain items w' where r: "refresh_feed sqlite_store offline ?w = (Inr items, w')" using no_throwE [OF no_throw_refresh] .
  let ?s0 = "snd (schedule_refresh no_flight)"
  let ?s1 = "?s0\<lparr>running := running ?s0 - {0}, finished := insert 0 (finished ?s0)\<rparr>"
  let ?t = "w_now w' + max 0 (feed_cache_ttl default_settings * us_sec) + 1"
  have k: "0 \<in> running ?s0" by (simp add: schedule_refresh_def refresh_in_flight_def no_flight_def)
  have "feed_run sqlite_store default_settings (w_now w') (w_cache w') ?s1 [w_now w']"
    by (rule feed_run.ended [OF feed_run.up k r order_refl])
  moreover have "w_now w' \<le> ?t" by simp
  ultimately have "feed_run sqlite_store default_settings ?t (w_cache w') (snd (get_feed default_settings ?t (w_cache w') ?s1))
      (if running (snd (get_feed default_settings ?t (w_cache w') ?s1)) = running ?s1 then [w_now w'] else [?t, w_now w'])"
    by (rule feed_run.request) (rule prod.collapse [symmetric])
  moreover have "running (snd (get_feed default_settings ?t (w_cache w') ?s1)) \<noteq> running ?s1"
    by (simp add: get_feed_def stale_def refresh_fetched_at [OF r] schedule_refresh_def refresh_in_flight_def no_flight_def)
  ultimately have f: "feed_run sqlite_store default_settings ?t (w_cache w') (snd (get_feed default_settings ?t (w_cache w') ?s1)) [?t, w_now w']"
    by simp
  from stale_feed_refreshes [OF f order_refl] f show ?thesis by force
qed

end
