(* ===== verification/RateLimit.thy ===== *)
theory RateLimit
  imports Prelude
begin

text \<open>
  \<open>app/ratelimit.py\<close>. Times are rationals (the monotonic clock of the code is a float in
  seconds); the hits of a key are its deque, oldest first. The lock makes \<open>check\<close> atomic, so
  concurrent callers are a sequence of checks. The abstract limiter keeps the whole log of
  admitted requests and admits one while fewer than \<open>max_requests\<close> of its key lie in the last
  \<open>window_seconds\<close>; the code's deques, the popping of aged hits and the pruning of stale keys
  refine it.
\<close>

section \<open>The limiter\<close>

definition prune_threshold :: nat where
  "prune_threshold = 4096"

record limiter =
  max_requests :: int
  window_seconds :: rat
  hits :: "(string, rat list) dict"

definition new_limiter :: "int \<Rightarrow> rat \<Rightarrow> limiter" where
  "new_limiter n w = \<lparr>max_requests = n, window_seconds = w, hits = []\<rparr>"

definition enabled :: "limiter \<Rightarrow> bool" where
  "enabled rl \<longleftrightarrow> 0 < max_requests rl"

definition prune_hits :: "rat \<Rightarrow> (string, rat list) dict \<Rightarrow> (string, rat list) dict" where
  "prune_hits cutoff h = filter (\<lambda>(_, q). \<not> (q = [] \<or> last q \<le> cutoff)) h"

definition check :: "limiter \<Rightarrow> string \<Rightarrow> rat \<Rightarrow> bool \<times> limiter" where
  "check rl key now =
     (if \<not> enabled rl then (True, rl)
      else
        let cutoff = now - window_seconds rl;
            h = (if prune_threshold < length (hits rl) then prune_hits cutoff (hits rl) else hits rl);
            q = dropWhile (\<lambda>t. t \<le> cutoff) (case map_of h key of None \<Rightarrow> [] | Some q \<Rightarrow> q)
        in if max_requests rl \<le> int (length q)
           then (False, rl\<lparr>hits := dict_set key q h\<rparr>)
           else (True, rl\<lparr>hits := dict_set key (q @ [now]) h\<rparr>))"

fun run_checks :: "limiter \<Rightarrow> (string \<times> rat) list \<Rightarrow> bool list \<times> limiter" where
  "run_checks rl [] = ([], rl)"
| "run_checks rl ((key, now) # reqs) =
     (case check rl key now of (b, rl') \<Rightarrow>
        (case run_checks rl' reqs of (bs, rl2) \<Rightarrow> (b # bs, rl2)))"

section \<open>The abstract limiter\<close>

definition times_of :: "string \<Rightarrow> (string \<times> rat) list \<Rightarrow> rat list" where
  "times_of key lg = map snd (filter (\<lambda>p. fst p = key) lg)"

definition spec_admits :: "int \<Rightarrow> rat \<Rightarrow> (string \<times> rat) list \<Rightarrow> string \<Rightarrow> rat \<Rightarrow> bool" where
  "spec_admits n w lg key now \<longleftrightarrow>
     n \<le> 0 \<or> int (length (filter (\<lambda>t. now - w < t) (times_of key lg))) < n"

fun spec_run :: "int \<Rightarrow> rat \<Rightarrow> (string \<times> rat) list \<Rightarrow> (string \<times> rat) list \<Rightarrow> bool list" where
  "spec_run n w lg [] = []"
| "spec_run n w lg ((key, now) # reqs) =
     (let b = spec_admits n w lg key now
      in b # spec_run n w (if b then lg @ [(key, now)] else lg) reqs)"

text \<open>The requests that were admitted, given the decisions.\<close>

definition admitted :: "(string \<times> rat) list \<Rightarrow> bool list \<Rightarrow> (string \<times> rat) list" where
  "admitted reqs bs = map fst (filter snd (zip reqs bs))"

definition in_order :: "(string \<times> rat) list \<Rightarrow> bool" where
  "in_order reqs \<longleftrightarrow> sorted (map snd reqs)"

section \<open>The code refines the abstract limiter\<close>

definition queue_of :: "limiter \<Rightarrow> string \<Rightarrow> rat list" where
  "queue_of rl key = (case map_of (hits rl) key of None \<Rightarrow> [] | Some q \<Rightarrow> q)"

text \<open>
  The log of a key ends in its deque, what is missing in front has left the window, and no
  entry lies after the last check.
\<close>

definition tracks :: "limiter \<Rightarrow> (string \<times> rat) list \<Rightarrow> rat \<Rightarrow> bool" where
  "tracks rl lg now \<longleftrightarrow> dict_ok (hits rl) \<and>
     (\<forall>key. sorted (times_of key lg) \<and> (\<forall>t \<in> set (times_of key lg). t \<le> now) \<and>
        (\<exists>old. times_of key lg = old @ queue_of rl key \<and> (\<forall>t \<in> set old. t \<le> now - window_seconds rl)))"

lemma times_of_snoc [simp]:
  "times_of key (lg @ [(k, t)]) = times_of key lg @ (if k = key then [t] else [])"
  by (simp add: times_of_def)

lemma tracks_new: "tracks (new_limiter n w) [] now"
  by (simp add: tracks_def new_limiter_def times_of_def queue_of_def)

lemma dropWhile_le_filter:
  "sorted q \<Longrightarrow> dropWhile (\<lambda>t. t \<le> c) q = filter (\<lambda>t. (c::rat) < t) q"
proof (induction q)
  case (Cons a q)
  then have "c < a \<Longrightarrow> filter (\<lambda>t. c < t) q = q" by (auto simp: filter_id_conv)
  with Cons show ?case by auto
qed simp

text \<open>Pruning drops only deques whose hits have all left the window.\<close>

lemma queue_of_prune:
  assumes "dict_ok (hits rl)"
  shows "queue_of (rl\<lparr>hits := prune_hits c (hits rl)\<rparr>) key =
    (if queue_of rl key = [] \<or> last (queue_of rl key) \<le> c then [] else queue_of rl key)"
  by (simp add: queue_of_def prune_hits_def map_of_dict_filter [OF assms] split: option.split)

lemma tracks_prune:
  assumes "tracks rl lg t0" "t0 \<le> now"
  shows "tracks (rl\<lparr>hits := prune_hits (now - window_seconds rl) (hits rl)\<rparr>) lg now"
proof -
  let ?c = "now - window_seconds rl"
  let ?rl' = "rl\<lparr>hits := prune_hits ?c (hits rl)\<rparr>"
  have ok: "dict_ok (hits rl)" using assms(1) by (simp add: tracks_def)
  have "\<exists>old. times_of key lg = old @ queue_of ?rl' key \<and> (\<forall>t \<in> set old. t \<le> ?c)" for key
  proof -
    from assms(1) obtain old where old: "times_of key lg = old @ queue_of rl key"
      "\<forall>t \<in> set old. t \<le> t0 - window_seconds rl" and srt: "sorted (times_of key lg)"
      unfolding tracks_def by blast
    have old_c: "\<forall>t \<in> set old. t \<le> ?c" using old(2) assms(2) by fastforce
    show ?thesis
    proof (cases "queue_of rl key = [] \<or> last (queue_of rl key) \<le> ?c")
      case True
      have "sorted (queue_of rl key)" using srt old(1) by (simp add: sorted_append)
      then have "t \<le> last (queue_of rl key)" if "t \<in> set (queue_of rl key)" for t
        using that by (metis in_set_conv_nth last_conv_nth length_pos_if_in_set diff_less
            less_Suc_eq_le Suc_pred' sorted_nth_mono zero_less_one list.size(3) less_numeral_extra(3))
      with True old_c have "\<forall>t \<in> set (times_of key lg). t \<le> ?c"
        unfolding old(1) by (force intro: order_trans)
      with True show ?thesis by (simp add: queue_of_prune [OF ok])
    next
      case False
      with old(1) old_c show ?thesis by (auto simp: queue_of_prune [OF ok])
    qed
  qed
  moreover have "\<forall>t \<in> set (times_of key lg). t \<le> now" for key
    using assms by (force simp: tracks_def intro: order_trans)
  ultimately show ?thesis
    using assms(1) by (simp add: tracks_def prune_hits_def dict_ok_filter)
qed

lemma tracks_later: "tracks rl lg t0 \<Longrightarrow> t0 \<le> now \<Longrightarrow> tracks rl lg now"
  unfolding tracks_def by (meson diff_right_mono order_trans)

text \<open>One check: the decision is the abstract one and the deques keep tracking the log.\<close>

lemma tracks_touch:
  fixes key
  assumes "tracks rl lg now"
  defines "q \<equiv> filter (\<lambda>t. now - window_seconds rl < t) (queue_of rl key)"
  shows "tracks (rl\<lparr>hits := dict_set key q (hits rl)\<rparr>) lg now"
    and "tracks (rl\<lparr>hits := dict_set key (q @ [now]) (hits rl)\<rparr>) (lg @ [(key, now)]) now"
proof -
  let ?c = "now - window_seconds rl"
  have *: "\<exists>old. times_of k lg = old @ (if k = key then q else queue_of rl k) \<and> (\<forall>t \<in> set old. t \<le> ?c)" for k
  proof -
    from assms(1) obtain old where old: "times_of k lg = old @ queue_of rl k"
      "\<forall>t \<in> set old. t \<le> ?c" and srt: "sorted (times_of k lg)"
      unfolding tracks_def by blast
    from srt old(1) have "sorted (queue_of rl k)" by (simp add: sorted_append)
    then have "filter (\<lambda>t. ?c < t) (queue_of rl k) = dropWhile (\<lambda>t. t \<le> ?c) (queue_of rl k)"
      by (simp add: dropWhile_le_filter)
    then have "queue_of rl k = takeWhile (\<lambda>t. t \<le> ?c) (queue_of rl k) @ filter (\<lambda>t. ?c < t) (queue_of rl k)"
      by simp
    with old have "times_of k lg = (old @ takeWhile (\<lambda>t. t \<le> ?c) (queue_of rl k)) @ filter (\<lambda>t. ?c < t) (queue_of rl k)"
      by simp
    moreover have "\<forall>t \<in> set (old @ takeWhile (\<lambda>t. t \<le> ?c) (queue_of rl k)). t \<le> ?c"
      using old(2) by (auto dest: set_takeWhileD)
    ultimately have "\<exists>old'. times_of k lg = old' @ filter (\<lambda>t. ?c < t) (queue_of rl k) \<and> (\<forall>t \<in> set old'. t \<le> ?c)"
      by blast
    with old show ?thesis unfolding q_def by (cases "k = key") auto
  qed
  have ok: "dict_ok (hits rl)" and srt: "\<And>k. sorted (times_of k lg)"
    and le: "\<And>k. \<forall>t \<in> set (times_of k lg). t \<le> now"
    using assms(1) by (auto simp: tracks_def)
  have q1: "queue_of (rl\<lparr>hits := dict_set key r (hits rl)\<rparr>) k = (if k = key then r else queue_of rl k)" for r k
    by (simp add: queue_of_def)
  show "tracks (rl\<lparr>hits := dict_set key q (hits rl)\<rparr>) lg now"
    using ok srt le * by (simp add: tracks_def q1)
  show "tracks (rl\<lparr>hits := dict_set key (q @ [now]) (hits rl)\<rparr>) (lg @ [(key, now)]) now"
    unfolding tracks_def
  proof (intro conjI allI)
    fix k
    show "sorted (times_of k (lg @ [(key, now)]))" using srt le by (simp add: sorted_append)
    show "\<forall>t\<in>set (times_of k (lg @ [(key, now)])). t \<le> now" using le [of k] by auto
    show "\<exists>old. times_of k (lg @ [(key, now)]) = old @
        queue_of (rl\<lparr>hits := dict_set key (q @ [now]) (hits rl)\<rparr>) k \<and>
        (\<forall>t\<in>set old. t \<le> now - window_seconds (rl\<lparr>hits := dict_set key (q @ [now]) (hits rl)\<rparr>))"
      using * [of k] by (auto simp: q1)
  qed (use ok in simp)
qed

lemma tracks_admits:
  assumes "tracks rl lg now" "0 < max_requests rl"
  shows "spec_admits (max_requests rl) (window_seconds rl) lg key now \<longleftrightarrow>
    int (length (filter (\<lambda>t. now - window_seconds rl < t) (queue_of rl key))) < max_requests rl"
proof -
  from assms(1) obtain old where "times_of key lg = old @ queue_of rl key"
    "\<forall>t \<in> set old. t \<le> now - window_seconds rl" unfolding tracks_def by blast
  moreover from this(2) have "filter (\<lambda>t. now - window_seconds rl < t) old = []"
    by (auto simp: filter_empty_conv)
  ultimately show ?thesis using assms(2) by (simp add: spec_admits_def)
qed

lemma check_step:
  assumes "tracks rl lg t0" "t0 \<le> now" "0 < max_requests rl" "check rl key now = (b, rl')"
  shows "b = spec_admits (max_requests rl) (window_seconds rl) lg key now"
    and "tracks rl' (if b then lg @ [(key, now)] else lg) now"
    and "max_requests rl' = max_requests rl" and "window_seconds rl' = window_seconds rl"
proof -
  define pr where "pr = (if prune_threshold < length (hits rl)
    then rl\<lparr>hits := prune_hits (now - window_seconds rl) (hits rl)\<rparr> else rl)"
  have pr: "tracks pr lg now" "max_requests pr = max_requests rl" "window_seconds pr = window_seconds rl"
    using tracks_prune [OF assms(1,2)] tracks_later [OF assms(1,2)] by (simp_all add: pr_def)
  let ?q = "filter (\<lambda>t. now - window_seconds pr < t) (queue_of pr key)"
  obtain old where "times_of key lg = old @ queue_of pr key" and "sorted (times_of key lg)"
    using pr(1) unfolding tracks_def by blast
  then have "sorted (queue_of pr key)" by (simp add: sorted_append)
  then have dw: "dropWhile (\<lambda>t. t \<le> now - window_seconds rl) (queue_of pr key) = ?q"
    by (simp add: dropWhile_le_filter pr(3))
  have "(b, rl') = (if max_requests rl \<le> int (length ?q)
      then (False, pr\<lparr>hits := dict_set key ?q (hits pr)\<rparr>)
      else (True, pr\<lparr>hits := dict_set key (?q @ [now]) (hits pr)\<rparr>))"
    unfolding assms(4) [symmetric] check_def Let_def dw [symmetric]
    using assms(3) by (simp add: enabled_def pr_def queue_of_def)
  moreover note tracks_touch [OF pr(1), of key] tracks_admits [OF pr(1), of key]
  ultimately show "b = spec_admits (max_requests rl) (window_seconds rl) lg key now"
    and "tracks rl' (if b then lg @ [(key, now)] else lg) now"
    and "max_requests rl' = max_requests rl" and "window_seconds rl' = window_seconds rl"
    using assms(3) by (auto simp: pr(2,3) split: if_splits)
qed

lemma run_checks_tracks:
  assumes "tracks rl lg t0" "sorted (t0 # map snd reqs)" "0 < max_requests rl"
  shows "fst (run_checks rl reqs) = spec_run (max_requests rl) (window_seconds rl) lg reqs"
  using assms
proof (induction reqs arbitrary: rl lg t0)
  case (Cons r reqs)
  obtain key now where r: "r = (key, now)" by (cases r)
  obtain b rl' where c: "check rl key now = (b, rl')" by (cases "check rl key now")
  from Cons.prems r have le: "t0 \<le> now" and srt: "sorted (now # map snd reqs)" by auto
  note st = check_step [OF Cons.prems(1) le Cons.prems(3) c]
  from Cons.IH [OF st(2) srt] st(3,4) Cons.prems(3)
  have "fst (run_checks rl' reqs) =
      spec_run (max_requests rl) (window_seconds rl) (if b then lg @ [(key, now)] else lg) reqs"
    by simp
  with st(1) show ?case by (cases "run_checks rl' reqs") (simp add: r c Let_def)
qed simp

lemma run_checks_disabled: "max_requests rl \<le> 0 \<Longrightarrow> run_checks rl reqs = (replicate (length reqs) True, rl)"
  by (induction reqs) (auto simp: check_def enabled_def)

lemma spec_run_disabled: "n \<le> 0 \<Longrightarrow> spec_run n w lg reqs = replicate (length reqs) True"
  by (induction reqs arbitrary: lg) (auto simp: spec_admits_def)

lemma run_checks_new:
  assumes "in_order reqs"
  shows "fst (run_checks (new_limiter n w) reqs) = spec_run n w [] reqs"
proof (cases "0 < n \<and> reqs \<noteq> []")
  case True
  then have "sorted (snd (hd reqs) # map snd reqs)"
    using assms by (cases reqs) (auto simp: in_order_def)
  from run_checks_tracks [OF tracks_new this] True show ?thesis by (simp add: new_limiter_def)
next
  case False
  then show ?thesis
    by (auto simp: run_checks_disabled spec_run_disabled new_limiter_def)
qed

section \<open>No window of the configured length admits more than the limit\<close>

definition window_bound :: "int \<Rightarrow> rat \<Rightarrow> (string \<times> rat) list \<Rightarrow> bool" where
  "window_bound n w lg \<longleftrightarrow>
     (\<forall>key a. int (length (filter (\<lambda>t. a < t \<and> t \<le> a + w) (times_of key lg))) \<le> n)"

lemma length_filter_mono': "(\<And>x. P x \<Longrightarrow> Q x) \<Longrightarrow> length (filter P xs) \<le> length (filter Q xs)"
  by (induction xs) auto

lemma window_bound_step:
  assumes "window_bound n w lg" "0 < n" "spec_admits n w lg key now"
  shows "window_bound n w (lg @ [(key, now)])"
  unfolding window_bound_def
proof (intro allI)
  fix k a
  let ?P = "\<lambda>t. a < t \<and> t \<le> a + w"
  show "int (length (filter ?P (times_of k (lg @ [(key, now)])))) \<le> n"
  proof (cases "k = key \<and> ?P now")
    case True
    have "length (filter ?P (times_of key lg)) \<le> length (filter (\<lambda>t. now - w < t) (times_of key lg))"
      by (rule length_filter_mono') (use True in auto)
    with assms(2,3) True show ?thesis by (simp add: spec_admits_def)
  next
    case False
    with assms(1) show ?thesis by (auto simp: window_bound_def)
  qed
qed

lemma spec_run_window_bound:
  assumes "window_bound n w lg" "0 < n"
  shows "window_bound n w (lg @ admitted reqs (spec_run n w lg reqs))"
  using assms(1)
proof (induction reqs arbitrary: lg)
  case (Cons r reqs)
  obtain key now where r: "r = (key, now)" by (cases r)
  show ?case
  proof (cases "spec_admits n w lg key now")
    case True
    from Cons.IH [OF window_bound_step [OF Cons.prems assms(2) True]] True show ?thesis
      by (simp add: r admitted_def)
  next
    case False
    with Cons.IH [OF Cons.prems] show ?thesis by (simp add: r admitted_def)
  qed
qed (simp add: admitted_def)

lemma window_bound_Nil: "0 < n \<Longrightarrow> window_bound n w []"
  by (simp add: window_bound_def times_of_def)

section \<open>Memory\<close>

text \<open>After a check the map holds only the keys of hits inside the window, and at most one more
  key than the threshold otherwise.\<close>

definition fresh_keys :: "rat \<Rightarrow> limiter \<Rightarrow> string set" where
  "fresh_keys cutoff rl = {k. \<exists>q. map_of (hits rl) k = Some q \<and> q \<noteq> [] \<and> cutoff < last q}"

lemma keys_prune_hits:
  assumes "dict_ok h"
  shows "fst ` set (prune_hits c h) = {k. \<exists>q. map_of h k = Some q \<and> q \<noteq> [] \<and> c < last q}"
proof -
  have "map_of h k = Some q \<longleftrightarrow> (k, q) \<in> set h" for k q
    using assms by (simp add: dict_ok_def)
  then show ?thesis by (auto simp: prune_hits_def image_iff split: prod.splits; force)
qed

lemma check_keys:
  assumes "dict_ok (hits rl)" "enabled rl"
  shows "fst ` set (hits (snd (check rl key now))) =
    insert key (if prune_threshold < length (hits rl) then fresh_keys (now - window_seconds rl) rl
                else fst ` set (hits rl))"
  using assms keys_prune_hits [OF assms(1), of "now - window_seconds rl"]
  by (auto simp: check_def Let_def fresh_keys_def)

lemma dict_ok_check: "dict_ok (hits rl) \<Longrightarrow> dict_ok (hits (snd (check rl key now)))"
  by (auto simp: check_def Let_def prune_hits_def intro!: dict_ok_set dict_ok_filter)

lemma finite_fresh_keys: "finite (fresh_keys c rl)"
proof (rule finite_subset)
  show "fresh_keys c rl \<subseteq> fst ` set (hits rl)"
    by (force simp: fresh_keys_def dest: map_of_SomeD)
qed simp

lemma check_memory:
  assumes "dict_ok (hits rl)" "enabled rl"
  shows "length (hits (snd (check rl key now))) \<le>
    Suc (max prune_threshold (card (fresh_keys (now - window_seconds rl) rl)))"
  using check_keys [OF assms, of key now] length_dict [OF dict_ok_check [OF assms(1), of key now]]
    length_dict [OF assms(1)] finite_fresh_keys [of "now - window_seconds rl" rl]
  by (auto simp: card_insert_if max_def split: if_splits)

section \<open>The contract of a limiter\<close>

text \<open>What a caller relies on: the requests of one key that are admitted in a window are within the limit.\<close>

locale window_limiter =
  fixes decide :: "(string \<times> rat) list \<Rightarrow> bool list"
    and limit :: int
    and window :: rat
  assumes bounded: "0 < limit \<Longrightarrow> in_order reqs \<Longrightarrow>
    int (length (filter (\<lambda>t. a < t \<and> t \<le> a + window) (times_of key (admitted reqs (decide reqs))))) \<le> limit"
begin

text \<open>Requests that all carry one key are within the limit together.\<close>

lemma one_client:
  assumes "0 < limit" "map fst reqs = replicate (length reqs) key" "sorted (map snd reqs)"
  shows "int (length (filter (\<lambda>t. a < t \<and> t \<le> a + window) (map snd (admitted reqs (decide reqs))))) \<le> limit"
proof -
  have "set (admitted reqs bs) \<subseteq> set reqs" for bs
    by (auto simp: admitted_def dest: set_zip_leftD)
  moreover have "fst p = key" if "p \<in> set reqs" for p
    using assms(2) that by (metis image_eqI in_set_replicate set_map)
  ultimately have "filter (\<lambda>p. fst p = key) (admitted reqs bs) = admitted reqs bs" for bs
    by (intro filter_True) blast
  with bounded [OF assms(1), of reqs a key] assms(3) show ?thesis by (simp add: times_of_def in_order_def)
qed

end

interpretation rl: window_limiter "\<lambda>reqs. fst (run_checks (new_limiter n w) reqs)" n w for n w
proof
  fix reqs :: "(string \<times> rat) list" and a :: rat and key :: string
  assume n: "0 < n" and "in_order reqs"
  with spec_run_window_bound [OF window_bound_Nil [OF n] n, of w reqs]
  show "int (length (filter (\<lambda>t. a < t \<and> t \<le> a + w)
      (times_of key (admitted reqs (fst (run_checks (new_limiter n w) reqs)))))) \<le> n"
    by (simp add: run_checks_new window_bound_def)
qed

section \<open>Properties\<close>

text \<open>C9. For requests arriving in time order, the limiter with its deques, its popping of aged
  hits and its pruning of stale keys takes exactly the decisions of the abstract limiter that
  keeps the log of every admitted request, for every limit (off included) and window.\<close>

theorem run_checks_refines_spec:
  assumes "in_order reqs"
  shows "fst (run_checks (new_limiter n w) reqs) = spec_run n w [] reqs"
  using assms by (rule run_checks_new)

lemma run_checks_refines_spec_witness:
  "fst (run_checks (new_limiter 1 60) [(''a'', 0), (''a'', 30), (''b'', 30), (''a'', 60)]) =
     [True, False, True, True]"
  by (subst run_checks_refines_spec)
    (simp_all add: in_order_def spec_admits_def times_of_def)

text \<open>C36. No client is admitted more than \<open>max_requests\<close> times in any half-open interval of
  the window's length, wherever the interval starts: the limiter is a sliding window, so a burst
  across the edge of two windows is not admitted.\<close>

theorem run_checks_sliding_window:
  assumes "in_order reqs" "0 < n"
  shows "int (length (filter (\<lambda>t. a < t \<and> t \<le> a + w)
    (times_of key (admitted reqs (fst (run_checks (new_limiter n w) reqs)))))) \<le> n"
  by (rule rl.bounded [OF assms(2,1)])

lemma run_checks_sliding_window_witness:
  "int (length (filter (\<lambda>t. 59 < t \<and> t \<le> 59 + (60::rat))
    (times_of ''a'' (admitted [(''a'', 59), (''a'', 61)]
       (fst (run_checks (new_limiter 1 60) [(''a'', 59), (''a'', 61)])))))) \<le> 1"
  by (rule run_checks_sliding_window) (simp_all add: in_order_def)

text \<open>A check leaves at most one key more than the larger of 4096 and the number of
  keys that still had a hit inside the window, so rotating the client key cannot grow the map
  without bound.\<close>

theorem check_bounds_memory:
  assumes "dict_ok (hits rl)" "enabled rl"
  shows "length (hits (snd (check rl key now))) \<le>
    Suc (max prune_threshold (card (fresh_keys (now - window_seconds rl) rl)))"
  using assms by (rule check_memory)

lemma check_bounds_memory_witness:
  "length (hits (snd (check (new_limiter 5 60) ''a'' 0))) \<le>
    Suc (max prune_threshold (card (fresh_keys (0 - window_seconds (new_limiter 5 60)) (new_limiter 5 60))))"
  by (rule check_bounds_memory) (simp_all add: new_limiter_def enabled_def)

end
