(* ===== verification/Api.thy ===== *)
theory Api
  imports Pipeline RateLimit
begin

text \<open>
  \<open>app/main.py\<close>: the start of the service with its retries, the identity of a client for the
  rate limit, the handler of a database outage and every route. A route is a function of the
  state of the process (the world of the refreshes, the refresh task, the limiter and the cached
  statistics) to a response or to the exception that leaves it. FastAPI's routing, validation of
  parameters and encoding of responses are outside; a handler is modelled for parameters its
  signature declares valid. The lemmas show when the service starts, that forged proxy headers
  do not escape the rate limit, what an outage of the database answers, and that the cached
  statistics are no older than their lifetime.
\<close>

section \<open>The process\<close>

record 'db app =
  a_world :: "'db world"
  a_flight :: flight
  a_limiter :: limiter
  a_stats :: "(int \<times> json) option"

definition new_app :: "env \<Rightarrow> 'db world \<Rightarrow> 'db app" where
  "new_app E w = \<lparr>a_world = w, a_flight = no_flight, a_limiter = new_limiter (rate_limit_per_minute (cfg E)) 60, a_stats = None\<rparr>"

definition run_io :: "('db, 'a) io \<Rightarrow> 'db app \<Rightarrow> 'a result \<times> 'db app" where
  "run_io m a = (case m (a_world a) of (r, w) \<Rightarrow> (r, a\<lparr>a_world := w\<rparr>))"

abbreviation app_now :: "'db app \<Rightarrow> int" where
  "app_now a \<equiv> w_now (a_world a)"

section \<open>Start\<close>

text \<open>\<open>init_attempts m n d\<close> are the last \<open>n + 1\<close> attempts, the next pause being \<open>d\<close> seconds.\<close>

fun init_attempts :: "('db, unit) io \<Rightarrow> nat \<Rightarrow> int \<Rightarrow> ('db, unit) io" where
  "init_attempts init_db 0 delay = init_db"
| "init_attempts init_db (Suc n) delay =
     catch init_db (\<lambda>e.
       if exc_class e = SchemaNotMigrated then raise e
       else bind (sleep (delay * us_sec)) (\<lambda>_. init_attempts init_db n (2 * delay)))"

definition init_store :: "('db, unit) io \<Rightarrow> ('db, unit) io" where
  "init_store init_db = init_attempts init_db 4 1"

definition startup :: "'db backend \<Rightarrow> env \<Rightarrow> ('db, unit) io \<Rightarrow> ('db, unit) io" where
  "startup B E init_db =
     bind (attempt (init_store init_db)) (\<lambda>r.
     case r of
       Inl e \<Rightarrow>
         if exc_class e = SchemaNotMigrated \<or> given (database_url (cfg E)) = None then raise e else ret ()
     | Inr _ \<Rightarrow>
         bind get_now (\<lambda>now.
         bind (db_update (seed_if_empty B (sha1 E) now)) (\<lambda>_.
         catch (bind (ensure_index E) (\<lambda>_. bind (sync_archive B E 10000) (\<lambda>_. ret ()))) (\<lambda>_. ret ()))))"

definition lifespan :: "'db backend \<Rightarrow> env \<Rightarrow> ('db, unit) io \<Rightarrow> 'db app \<Rightarrow> unit result \<times> 'db app" where
  "lifespan B E init_db a =
     (case run_io (startup B E init_db) a of
        (Inl e, a') \<Rightarrow> (Inl e, a')
      | (Inr _, a') \<Rightarrow> (Inr (), a'\<lparr>a_flight := snd (schedule_refresh (a_flight a'))\<rparr>))"

section \<open>Responses\<close>

record response =
  r_status :: nat
  r_headers :: "(string, string) dict"
  r_body :: json

definition ok_response :: "json \<Rightarrow> response" where
  "ok_response v = \<lparr>r_status = 200, r_headers = [], r_body = v\<rparr>"

text \<open>What FastAPI answers for an \<open>HTTPException\<close>\<close>

definition http_exception :: "nat \<Rightarrow> string \<Rightarrow> string \<Rightarrow> response" where
  "http_exception status detail retry_after =
     \<lparr>r_status = status, r_headers = [(''Retry-After'', retry_after)], r_body = JObj [(''detail'', JStr detail)]\<rparr>"

definition database_unavailable :: response where
  "database_unavailable = \<lparr>r_status = 503, r_headers = [(''Retry-After'', ''5'')],
     r_body = JObj [(''detail'', JStr ''database unavailable'')]\<rparr>"

text \<open>An exception without a handler is a 500 of the framework.\<close>

definition respond :: "response result \<times> 'db app \<Rightarrow> response \<times> 'db app" where
  "respond ra =
     (case ra of
        (Inr r, a) \<Rightarrow> (r, a)
      | (Inl e, a) \<Rightarrow> (if exc_class e = StoreUnavailable then database_unavailable
           else \<lparr>r_status = 500, r_headers = [], r_body = JStr ''Internal Server Error''\<rparr>, a))"

section \<open>Rate limiting\<close>

text \<open>The header \<open>x-forwarded-for\<close> and the host of the socket.\<close>

record http_call =
  hc_forwarded :: "string option"
  hc_peer :: "string option"

definition peer :: "http_call \<Rightarrow> string" where
  "peer q = (case hc_peer q of None \<Rightarrow> ''unknown'' | Some h \<Rightarrow> h)"

definition client_key :: "settings \<Rightarrow> http_call \<Rightarrow> string" where
  "client_key st q =
     (if rate_limit_trust_proxy st
      then (case given (hc_forwarded q) of
          None \<Rightarrow> peer q
        | Some forwarded \<Rightarrow>
            let hops = filter (\<lambda>h. h \<noteq> []) (map strip (split_on (CHR '','') forwarded))
            in if hops \<noteq> [] then last hops else peer q)
      else peer q)"

definition rate_limited :: "settings \<Rightarrow> http_call \<Rightarrow> 'db app \<Rightarrow> bool \<times> 'db app" where
  "rate_limited st q a =
     (case check (a_limiter a) (client_key st q) (of_int (app_now a) / of_int us_sec) of
        (fine, rl) \<Rightarrow> (\<not> fine, a\<lparr>a_limiter := rl\<rparr>))"

text \<open>\<open>int(window_seconds)\<close>\<close>

definition too_many_requests :: "limiter \<Rightarrow> response" where
  "too_many_requests rl =
     http_exception 429 ''Too many requests'' (int_str (let w = window_seconds rl in if 0 \<le> w then floor w else - floor (- w)))"

definition with_rate_limit ::
    "env \<Rightarrow> http_call \<Rightarrow> ('db app \<Rightarrow> response result \<times> 'db app) \<Rightarrow> 'db app \<Rightarrow> response result \<times> 'db app" where
  "with_rate_limit E q route a =
     (case rate_limited (cfg E) q a of
        (True, a') \<Rightarrow> (Inr (too_many_requests (a_limiter a')), a')
      | (False, a') \<Rightarrow> route a')"

section \<open>Routes\<close>

definition opt_str :: "string option \<Rightarrow> json" where
  "opt_str s = (case s of None \<Rightarrow> JNull | Some t \<Rightarrow> JStr t)"

definition health :: "'db app \<Rightarrow> response result \<times> 'db app" where
  "health a =
     (let c = w_cache (a_world a) in
      (Inr (ok_response (JObj
        [(''status'', JStr ''ok''),
         (''cache_fetched_at'', opt_str (map_option isoformat (c_fetched_at c))),
         (''cache_age_seconds'', case c_fetched_at c of None \<Rightarrow> JNull
            | Some t \<Rightarrow> JInt (max 0 (trunc_seconds (app_now a - instant t)))),
         (''pipeline'', JObj (map (\<lambda>(k, v). (k, JStr v)) (c_steps c)))])), a))"

text \<open>\<open>ready\<close> gives up on a ping that takes more than two seconds (\<open>elapsed\<close> is the time it takes).\<close>

definition ready :: "'db backend \<Rightarrow> int \<Rightarrow> 'db app \<Rightarrow> response result \<times> 'db app" where
  "ready B elapsed a =
     (case ping B (w_db (a_world a)) of
        Inr _ \<Rightarrow> if elapsed \<le> 2 * us_sec
          then (Inr (ok_response (JObj [(''status'', JStr ''ready''), (''db'', JStr ''ok'')])), a)
          else (Inr \<lparr>r_status = 503, r_headers = [(''Retry-After'', ''5'')],
            r_body = JObj [(''status'', JStr ''not_ready''), (''db'', JStr ''unavailable'')]\<rparr>, a)
      | Inl _ \<Rightarrow> (Inr \<lparr>r_status = 503, r_headers = [(''Retry-After'', ''5'')],
            r_body = JObj [(''status'', JStr ''not_ready''), (''db'', JStr ''unavailable'')]\<rparr>, a))"

definition respond_with :: "('db, 'a) io \<Rightarrow> ('a \<Rightarrow> 'db app \<Rightarrow> json) \<Rightarrow> 'db app \<Rightarrow> response result \<times> 'db app" where
  "respond_with m f a =
     (case run_io m a of
        (Inl e, a') \<Rightarrow> (Inl e, a')
      | (Inr x, a') \<Rightarrow> (Inr (ok_response (f x a')), a'))"

definition query_io :: "'db backend \<Rightarrow> string option \<Rightarrow> string option \<Rightarrow> int \<Rightarrow> ('db, json list) io" where
  "query_io B tag sev n = bind get_now (\<lambda>now. db_read (query_feed B now tag sev n))"

definition api_feed :: "'db backend \<Rightarrow> env \<Rightarrow> string option \<Rightarrow> string option \<Rightarrow> int \<Rightarrow> 'db app \<Rightarrow> response result \<times> 'db app" where
  "api_feed B E tag sev n a =
     (let fl = snd (get_feed (cfg E) (app_now a) (w_cache (a_world a)) (a_flight a)) in
      respond_with (query_io B tag sev n) (\<lambda>items a'.
        let c = w_cache (a_world a') in
        JObj [(''generated_at'', opt_str (map_option isoformat (c_generated_at c))),
          (''fetched_at'', opt_str (map_option isoformat (c_fetched_at c))),
          (''source_errors'', jstrs (c_errors c)),
          (''count'', JInt (int (length items))),
          (''items'', JList items)])
        (a\<lparr>a_flight := fl\<rparr>))"

definition api_items :: "'db backend \<Rightarrow> string option \<Rightarrow> string option \<Rightarrow> int \<Rightarrow> 'db app \<Rightarrow> response result \<times> 'db app" where
  "api_items B tag sev n =
     respond_with (query_io B tag sev n) (\<lambda>items _. JObj [(''count'', JInt (int (length items))), (''items'', JList items)])"

definition stats_cache_ttl :: int where "stats_cache_ttl = 30"

definition counts :: "(string, nat) dict \<Rightarrow> json" where
  "counts d = JObj (map (\<lambda>(k, n). (k, JInt (int n))) d)"

definition stats_json :: "store_stats \<Rightarrow> json" where
  "stats_json s = JObj
     [(''total'', JInt (int (n_total s))), (''live'', JInt (int (n_live s))), (''sample'', JInt (int (n_sample s))),
      (''urgent'', JInt (int (n_urgent s))), (''by_severity'', counts (by_severity s)), (''by_tag'', counts (by_tag s)),
      (''enriched'', JObj [(''kev'', JInt (int (n_kev s))), (''epss'', JInt (int (n_epss s))), (''osv'', JInt (int (n_osv s)))]),
      (''latest_seen'', opt_str (latest_seen s))]"

definition api_stats :: "'db backend \<Rightarrow> 'db app \<Rightarrow> response result \<times> 'db app" where
  "api_stats B a =
     (case (case a_stats a of None \<Rightarrow> None | Some (t, v) \<Rightarrow> if app_now a - t < stats_cache_ttl * us_sec then Some v else None) of
        Some v \<Rightarrow> (Inr (ok_response v), a)
      | None \<Rightarrow>
          (case run_io (db_read (stats B)) a of
             (Inl e, a') \<Rightarrow> (Inl e, a')
           | (Inr s, a') \<Rightarrow> (Inr (ok_response (stats_json s)), a'\<lparr>a_stats := Some (app_now a', stats_json s)\<rparr>)))"

definition api_search ::
    "'db backend \<Rightarrow> env \<Rightarrow> http_call \<Rightarrow> string \<Rightarrow> string option \<Rightarrow> string option \<Rightarrow> int \<Rightarrow> 'db app \<Rightarrow> response result \<times> 'db app" where
  "api_search B E call q tag sev n =
     with_rate_limit E call (respond_with (search B E q tag sev n) (\<lambda>r _.
       JObj [(''backend'', JStr (sr_backend r)), (''count'', JInt (int (sr_count r))), (''items'', JList (sr_items r))]))"

definition sources_json :: json where
  "sources_json = JObj [(''sources'', JList (map (\<lambda>s. JObj
     [(''id'', JStr (src_id s)), (''name'', JStr (src_name s)), (''kind'', JStr (src_kind s)), (''url'', JStr (src_url s)),
      (''tags'', jstrs (sorted_list_of_fset (src_tags s)))]) all_sources))]"

definition api_sources :: "'db app \<Rightarrow> response result \<times> 'db app" where
  "api_sources a = (Inr (ok_response sources_json), a)"

definition api_index :: "'db app \<Rightarrow> response result \<times> 'db app" where
  "api_index a = (Inr (ok_response (JObj
     [(''name'', JStr ''Security Intelligence Live Feed API''), (''version'', JStr ''1.4.0''),
      (''endpoints'', jstrs [''/health'', ''/ready'', ''/api/feed'', ''/api/items'', ''/api/stats'', ''/api/search'',
         ''/api/events'', ''/api/sources''])])), a)"

section \<open>The event stream\<close>

text \<open>\<open>api_events\<close>: a refusal, or the number of the queue the stream reads.\<close>

definition api_events :: "env \<Rightarrow> http_call \<Rightarrow> 'db app \<Rightarrow> (response + nat) \<times> 'db app" where
  "api_events E call a =
     (case rate_limited (cfg E) call a of
        (True, a') \<Rightarrow> (Inl (too_many_requests (a_limiter a')), a')
      | (False, a') \<Rightarrow>
          (case subscribe (w_broker (a_world a')) of
             (None, b) \<Rightarrow> (Inl (http_exception 503 ''Too many event subscribers'' ''30''), a'\<lparr>a_world := (a_world a')\<lparr>w_broker := b\<rparr>\<rparr>)
           | (Some i, b) \<Rightarrow> (Inr i, a'\<lparr>a_world := (a_world a')\<lparr>w_broker := b\<rparr>\<rparr>)))"

definition sse_data :: "env \<Rightarrow> json \<Rightarrow> string" where
  "sse_data E v = ''data: '' @ json_dumps E v @ newline @ newline"

definition sse_first :: "env \<Rightarrow> string" where
  "sse_first E = sse_data E (JObj [(''type'', JStr ''connected'')])"

text \<open>One turn of the loop: the next event, or a heartbeat when none came in time.\<close>

definition sse_next :: "env \<Rightarrow> nat \<Rightarrow> broker \<Rightarrow> string \<times> broker" where
  "sse_next E i b =
     (case consume i b of
        ([], b') \<Rightarrow> ('': heartbeat'' @ newline @ newline, b')
      | (ev # _, b') \<Rightarrow> (sse_data E (JObj ev), b'))"

text \<open>\<open>finally: broker.unsubscribe(queue)\<close>\<close>

definition sse_close :: "nat \<Rightarrow> broker \<Rightarrow> broker" where
  "sse_close i b = unsubscribe i b"

section \<open>When the service starts\<close>

text \<open>The times of the five attempts, and an outcome that ends them early.\<close>

definition attempt_times :: "int \<Rightarrow> int list" where
  "attempt_times t = map (\<lambda>s. s * us_sec + t) [0, 1, 3, 7, 15]"

definition settled :: "unit result \<Rightarrow> bool" where
  "settled r \<longleftrightarrow> (case r of Inr _ \<Rightarrow> True | Inl e \<Rightarrow> exc_class e = SchemaNotMigrated)"

definition settle_time :: "(int \<Rightarrow> unit result) \<Rightarrow> int \<Rightarrow> int" where
  "settle_time r t = (case find (settled \<circ> r) (attempt_times t) of Some u \<Rightarrow> u | None \<Rightarrow> 15 * us_sec + t)"

text \<open>An initialisation whose outcome depends on the time and the database: it leaves the process alone, and
  changes the database when it succeeds only.\<close>

locale initialiser =
  fixes init_db :: "('db, unit) io"
    and outcome :: "int \<Rightarrow> 'db \<Rightarrow> unit result"
    and after :: "'db \<Rightarrow> 'db"
  assumes runs: "init_db w =
    (case outcome (w_now w) (w_db w) of Inl e \<Rightarrow> (Inl e, w) | Inr _ \<Rightarrow> (Inr (), w\<lparr>w_db := after (w_db w)\<rparr>))"
begin

lemma catch_settled:
  "catch init_db (\<lambda>e. if exc_class e = SchemaNotMigrated then raise e else m) w =
    (if settled (outcome (w_now w) (w_db w)) then init_db w else m w)"
  by (cases "outcome (w_now w) (w_db w)") (auto simp: catch_def runs settled_def raise_def)

lemma init_attempts_step:
  "init_attempts init_db (Suc n) d w =
    (if settled (outcome (w_now w) (w_db w)) then init_db w
     else init_attempts init_db n (2 * d) (w\<lparr>w_now := d * us_sec + w_now w\<rparr>))"
  by (simp add: catch_settled bind_def sleep_def ac_simps)

lemma init_store_settles:
  "init_store init_db w = init_db (w\<lparr>w_now := settle_time (\<lambda>t. outcome t (w_db w)) (w_now w)\<rparr>)"
  by (simp add: init_store_def eval_nat_numeral init_attempts_step del: init_attempts.simps(2))
    (simp add: settle_time_def attempt_times_def us_sec_def)

lemma startup_failed:
  assumes "outcome (settle_time (\<lambda>t. outcome t (w_db w)) (w_now w)) (w_db w) = Inl e"
  shows "startup B E init_db w =
    ((if exc_class e = SchemaNotMigrated \<or> given (database_url (cfg E)) = None then Inl e else Inr ()),
     w\<lparr>w_now := settle_time (\<lambda>t. outcome t (w_db w)) (w_now w)\<rparr>)"
  using assms by (simp add: startup_def attempt_def bind_def init_store_settles runs run_ret)

lemma startup_ready:
  assumes "outcome (settle_time (\<lambda>t. outcome t (w_db w)) (w_now w)) (w_db w) = Inr ()"
  shows "res_ok (fst (startup B E init_db w)) \<longleftrightarrow>
    res_ok (seed_if_empty B (sha1 E) (settle_time (\<lambda>t. outcome t (w_db w)) (w_now w)) (after (w_db w)))"
proof -
  let ?w = "w\<lparr>w_now := settle_time (\<lambda>t. outcome t (w_db w)) (w_now w), w_db := after (w_db w)\<rparr>"
  let ?tail = "catch (bind (ensure_index E) (\<lambda>_. bind (sync_archive B E 10000) (\<lambda>_. ret ()))) (\<lambda>_. ret ())"
  have run: "startup B E init_db w = bind (db_update (seed_if_empty B (sha1 E) (w_now ?w))) (\<lambda>_. ?tail) ?w"
    using assms by (simp add: startup_def attempt_def bind_run [where m = "attempt _"] bind_def [where m = "attempt _"] init_store_settles runs)
  have "no_throw ?tail" by (intro io_intros)
  then have "res_ok (fst (?tail v))" for v by (rule no_throwE [where w = v]) simp
  then show ?thesis unfolding run
    by (cases "seed_if_empty B (sha1 E) (w_now ?w) (w_db ?w)") (auto simp: bind_def db_update_def split: prod.split)
qed

lemma lifespan_decides:
  fixes a
  defines "t \<equiv> settle_time (\<lambda>t. outcome t (w_db (a_world a))) (app_now a)"
  shows "(case outcome t (w_db (a_world a)) of
      Inl e \<Rightarrow>
        if exc_class e = SchemaNotMigrated \<or> given (database_url (cfg E)) = None
        then fst (lifespan B E init_db a) = Inl e
        else lifespan B E init_db a = (Inr (), a\<lparr>a_world := (a_world a)\<lparr>w_now := t\<rparr>,
          a_flight := snd (schedule_refresh (a_flight a))\<rparr>)
    | Inr _ \<Rightarrow> fst (lifespan B E init_db a) = Inr () \<longleftrightarrow>
        res_ok (seed_if_empty B (sha1 E) t (after (w_db (a_world a)))))"
proof (cases "outcome t (w_db (a_world a))")
  case (Inl e)
  from startup_failed [OF this [unfolded t_def]] Inl show ?thesis by (simp add: lifespan_def run_io_def t_def)
next
  case (Inr u)
  then have "outcome t (w_db (a_world a)) = Inr ()" by simp
  from startup_ready [OF this [unfolded t_def], of B E] Inr show ?thesis
    by (cases "fst (startup B E init_db (a_world a))") (auto simp: lifespan_def run_io_def t_def split: prod.split)
qed

end

lemma settle_time_bound: "t \<le> settle_time r t \<and> settle_time r t \<le> t + 15 * us_sec"
  by (auto simp: settle_time_def attempt_times_def us_sec_def)

lemma lifespan_started:
  assumes "lifespan B E init_db a = (Inr (), a')"
  shows "a_flight a' = snd (schedule_refresh (a_flight a))"
  using assms by (auto simp: lifespan_def run_io_def split: prod.splits sum.splits)

section \<open>Client identity\<close>

text \<open>What a proxy sends that appends the address it sees to the header of the client.\<close>

definition proxied :: "string \<Rightarrow> string \<Rightarrow> string" where
  "proxied h addr = (if h = [] then addr else h @ '', '' @ addr)"

lemma split_on_snoc: "c \<notin> set w \<Longrightarrow> split_on_from c p (x @ c # w) = split_on_from c p x @ [w]"
  by (induction x arbitrary: p) (auto simp: split_on_none)

text \<open>The last hop is the address the proxy saw, whatever the client sent.\<close>

lemma client_key_proxied:
  assumes "rate_limit_trust_proxy st" "addr \<noteq> []" "CHR '','' \<notin> set addr" "strip addr = addr"
  shows "client_key st \<lparr>hc_forwarded = Some (proxied h addr), hc_peer = p\<rparr> = addr"
proof -
  have space: "strip (CHR '' '' # addr) = addr"
    using assms(4) by (simp add: strip_def lstrip_def is_space_def cp_def)
  have ne: "given (Some (proxied h addr)) = Some (proxied h addr)"
    using assms(2) by (cases "proxied h addr") (auto simp: given_def proxied_def split: if_splits)
  show ?thesis
  proof (cases "h = []")
    case True
    with assms ne show ?thesis by (simp add: client_key_def proxied_def split_on_none)
  next
    case False
    have "split_on (CHR '','') (proxied h addr) = split_on (CHR '','') h @ [CHR '' '' # addr]"
      using False assms(3) split_on_snoc [of "CHR '',''" "CHR '' '' # addr" "[]" h] by (simp add: proxied_def)
    with assms(1,2) ne space show ?thesis by (simp add: client_key_def)
  qed
qed

section \<open>Outages\<close>

lemma respond_store_unavailable:
  "exc_class e = StoreUnavailable \<Longrightarrow> respond (Inl e, a) = (database_unavailable, a)"
  by (simp add: respond_def)

text \<open>A read of the database that is down.\<close>

lemma respond_with_down:
  assumes "m (a_world a) = (Inl e, a_world a)" "exc_class e = StoreUnavailable"
  shows "respond (respond_with m f a) = (database_unavailable, a)"
  using assms by (simp add: respond_with_def run_io_def respond_def)

lemma pg_down_reads:
  assumes "\<not> pg_up db"
  shows "query_feed postgres_store now tag sev n db = pg_unavailable" "search_feed postgres_store now q tag sev n db = pg_unavailable"
    "stats postgres_store db = pg_unavailable" "ping postgres_store db = pg_unavailable"
  using assms by (auto simp: postgres_store_def pg_query_feed_def pg_search_feed_def pg_stats_def pg_ping_def pg_conn_def Let_def)

section \<open>Cached statistics\<close>

text \<open>What \<open>/api/stats\<close> answers was read at most 30 seconds ago, and a fresh answer reads nothing.\<close>

lemma stats_fresh:
  assumes "api_stats B a = (Inr r, a')"
  shows "\<exists>t v. a_stats a' = Some (t, v) \<and> r = ok_response v \<and> app_now a' - t < stats_cache_ttl * us_sec \<and>
    (a_stats a = Some (t, v) \<and> a' = a \<or> (\<exists>s. stats B (w_db (a_world a)) = Inr s \<and> v = stats_json s \<and> t = app_now a))"
  using assms by (auto simp: api_stats_def run_io_def db_read_def stats_cache_ttl_def us_sec_def
    split: option.splits prod.splits if_splits sum.splits)

section \<open>Event frames\<close>

text \<open>A frame is one line and the blank line that ends it.\<close>

lemma sse_frame_lines:
  assumes "\<And>x. lf \<notin> set (py_repr E (JFloat x))"
  shows "\<exists>line. lf \<notin> set line \<and> fst (sse_next E i b) = line @ [lf, lf]"
proof -
  have "lf \<notin> set (''data: '' @ json_dumps E v)" for v using lf_json_dumps [of E v] assms by simp
  moreover obtain evs b' where c: "consume i b = (evs, b')" by force
  moreover have "lf \<notin> set '': heartbeat''" by simp
  ultimately show ?thesis
  proof (cases evs)
    case (Cons ev rest)
    have "fst (sse_next E i b) = (''data: '' @ json_dumps E (JObj ev)) @ [lf, lf]"
      by (simp add: sse_next_def c Cons sse_data_def newline_def)
    with \<open>\<And>v. lf \<notin> set (''data: '' @ json_dumps E v)\<close> show ?thesis by blast
  qed (auto simp: sse_next_def newline_def intro!: exI [of _ "'': heartbeat''"])
qed

section \<open>Properties\<close>


definition with_url :: env where
  "with_url = offline\<lparr>cfg := default_settings\<lparr>database_url := Some ''postgresql://db'', opensearch_url := None\<rparr>\<rparr>"

definition refused :: exc where
  "refused = Exc ''StoreUnavailable'' StoreUnavailable ''database unavailable'' None None"


text \<open>C35. A client behind a proxy cannot escape the rate limit with a forged header: whatever it puts in
  \<open>X-Forwarded-For\<close> and over whichever connection its requests come, they are counted as one
  client, the address the proxy saw, so that no window of the limiter admits more than the limit.\<close>

theorem forged_headers_share_limit:
  assumes "rate_limit_trust_proxy st" "addr \<noteq> []" "CHR '','' \<notin> set addr" "strip addr = addr"
    "sorted (map (\<lambda>(h, p, t). t) calls)" "0 < n"
  defines "reqs \<equiv> map (\<lambda>(h, p, t). (client_key st \<lparr>hc_forwarded = Some (proxied h addr), hc_peer = p\<rparr>, t)) calls"
  shows "map fst reqs = replicate (length calls) addr \<and>
    int (length (filter (\<lambda>t. x < t \<and> t \<le> x + win)
      (times_of addr (admitted reqs (fst (run_checks (new_limiter n win) reqs)))))) \<le> n"
proof -
  have key: "client_key st \<lparr>hc_forwarded = Some (proxied h addr), hc_peer = p\<rparr> = addr" for h p
    using assms(1-4) by (rule client_key_proxied)
  have "map fst reqs = replicate (length calls) addr"
    by (auto simp: reqs_def key comp_def case_prod_unfold map_replicate_const)
  moreover have "in_order reqs"
    using assms(5) by (simp add: in_order_def reqs_def comp_def case_prod_unfold)
  ultimately show ?thesis using rl.bounded [OF assms(6)] by blast
qed

lemma forged_headers_share_limit_witness:
  "int (length (filter (\<lambda>t. 0 < t \<and> t \<le> 0 + 60) (times_of ''10.0.0.7'' (admitted
     (map (\<lambda>(h, p, t). (client_key (default_settings\<lparr>rate_limit_trust_proxy := True\<rparr>)
        \<lparr>hc_forwarded = Some (proxied h ''10.0.0.7''), hc_peer = p\<rparr>, t)) [(''1.1.1.1'', None, 1), (''2.2.2.2'', None, 2 :: rat)])
     (fst (run_checks (new_limiter 1 60)
       (map (\<lambda>(h, p, t). (client_key (default_settings\<lparr>rate_limit_trust_proxy := True\<rparr>)
          \<lparr>hc_forwarded = Some (proxied h ''10.0.0.7''), hc_peer = p\<rparr>, t)) [(''1.1.1.1'', None, 1), (''2.2.2.2'', None, 2)]))))))) \<le> 1"
  by (rule forged_headers_share_limit [THEN conjunct2])
    (simp_all, simp_all add: strip_def lstrip_def rstrip_def is_space_def cp_def)



end
