(* ===== verification/Migrate.thy ===== *)
theory Migrate
  imports World
begin

text \<open>
  \<open>app/migrate.py\<close> and \<open>init_db\<close> of \<open>app/postgres_store.py\<close>: the migration files and their
  order, the connection with its retry loop, the transactions and the advisory lock of a session,
  the commands \<open>upgrade\<close>, \<open>check\<close> and \<open>bootstrap-role\<close> with their exit codes, and the check of
  the schema at startup. The server is a committed database, the open transaction of this session
  and the two sides of the advisory lock; what the text of a migration does to the schema, whether
  a connection succeeds at a time and how long it takes, the directory and the environment
  variables are parameters. The statements of the runner itself fail only as modelled here (a
  duplicate version, a missing table). The lemmas show that an upgrade applies exactly the pending
  files in order and is atomic per file, that a held lock changes nothing, that connecting ends,
  and when the startup check accepts the upgraded database.
\<close>

section \<open>The database server\<close>

record 's pgdb =
  pd_versions :: "string list option"
  pd_schema :: 's
  pd_password :: "string option"

text \<open>The session's open transaction, its advisory lock, and whether another session has the lock.\<close>

record 's server =
  sv_db :: "'s pgdb"
  sv_work :: "'s pgdb option"
  sv_lock :: bool
  sv_other :: bool

record conninfo =
  ci_url :: string
  ci_sslmode :: string
  ci_sslrootcert :: "string option"

text \<open>\<open>rn_dial\<close> gives the outcome of a connection attempt at a time and the microseconds it takes.\<close>

record 's runner =
  rn_cfg :: settings
  rn_environ :: "string \<Rightarrow> string option"
  rn_files :: "(string \<times> string result) list"
  rn_run :: "string \<Rightarrow> 's \<Rightarrow> 's result"
  rn_dial :: "conninfo \<Rightarrow> int \<Rightarrow> unit result \<times> nat"
  rn_has_role :: "'s \<Rightarrow> bool"
  rn_has_table :: "'s \<Rightarrow> string \<Rightarrow> bool"

section \<open>Migration files\<close>

definition default_wait_seconds :: int where "default_wait_seconds = 60"
definition min_password_length :: nat where "min_password_length = 16"

definition migration_error :: "string \<Rightarrow> exc" where
  "migration_error msg = Exc ''MigrationError'' OtherExc msg None None"

text \<open>\<open>path.stem\<close>\<close>

definition stem :: "string \<Rightarrow> string" where
  "stem name =
     (let r = rev name; ext = takeWhile (\<lambda>c. c \<noteq> CHR ''.'') r; base = drop (Suc (length ext)) r
      in if ext = [] \<or> base = [] then name else rev base)"

definition version_of :: "string \<Rightarrow> string" where
  "version_of name = takeWhile (\<lambda>c. c \<noteq> CHR ''_'') (stem name)"

text \<open>\<open>str.isdigit\<close> also accepts the superscripts two, three and one.\<close>

definition isdigit :: "string \<Rightarrow> bool" where
  "isdigit s \<longleftrightarrow> s \<noteq> [] \<and> list_all (\<lambda>c. is_digit c \<or> cp c \<in> set [178, 179, 185]) s"

type_synonym migration = "string \<times> string \<times> string result"

text \<open>A migration is its version, its file name and the text of the file.\<close>

definition migration_files :: "'s runner \<Rightarrow> migration list result" where
  "migration_files R =
     (let files = sort_key fst (filter (\<lambda>f. suffix ''.sql'' (fst f)) (rn_files R)) in
      if files = [] then Inl (migration_error ''no migrations found'')
      else res_map (\<lambda>(name, content).
        if isdigit (version_of name) then Inr (version_of name, name, content)
        else Inl (migration_error (''migration file must start with a numeric version: '' @ name))) files)"

definition latest_version :: "'s runner \<Rightarrow> string result" where
  "latest_version R = res_bind (migration_files R) (\<lambda>fs. Inr (fst (last fs)))"

section \<open>Connecting\<close>

definition check_endpoint :: "'s runner \<Rightarrow> string \<Rightarrow> unit result" where
  "check_endpoint R u =
     (case validate_db_endpoint (Some u) (db_sslmode (rn_cfg R)) of
        Inl e \<Rightarrow> if exc_class e = ValueErr then Inl (migration_error (exc_msg e)) else Inl e
      | Inr _ \<Rightarrow> Inr ())"

definition resolve_url :: "'s runner \<Rightarrow> string option \<Rightarrow> string result" where
  "resolve_url R cli_url =
     (case (case given cli_url of Some u \<Rightarrow> Some u | None \<Rightarrow> given (rn_environ R ''ADMIN_DATABASE_URL'')) of
        None \<Rightarrow> Inl (migration_error ''ADMIN_DATABASE_URL is not set (or pass --url)'')
      | Some u \<Rightarrow> res_bind (check_endpoint R u) (\<lambda>_. Inr u))"

definition conn_info :: "'s runner \<Rightarrow> string \<Rightarrow> conninfo" where
  "conn_info R u = \<lparr>ci_url = u, ci_sslmode = db_sslmode (rn_cfg R), ci_sslrootcert = given (db_sslrootcert (rn_cfg R))\<rparr>"

text \<open>\<open>psycopg.OperationalError\<close> and its subclass for a timeout\<close>

definition is_operational :: "exc \<Rightarrow> bool" where
  "is_operational e \<longleftrightarrow> exc_name e \<in> set [''OperationalError'', ''ConnectionTimeout'']"

text \<open>A new session has no transaction and no lock.\<close>

definition new_session :: "('s server, unit) io" where
  "new_session w = (Inr (), w\<lparr>w_db := (w_db w)\<lparr>sv_work := None, sv_lock := False\<rparr>\<rparr>)"

function connect_loop :: "'s runner \<Rightarrow> conninfo \<Rightarrow> int \<Rightarrow> 's server world \<Rightarrow> unit result \<times> 's server world" where
  "connect_loop R ci deadline w =
     (case rn_dial R ci (w_now w) of (r, d) \<Rightarrow>
        let w1 = w\<lparr>w_now := w_now w + int d\<rparr> in
        case r of
          Inr _ \<Rightarrow> new_session w1
        | Inl e \<Rightarrow>
            if \<not> is_operational e then (Inl e, w1)
            else if deadline \<le> w_now w1 then (Inl (migration_error (''database is not reachable: '' @ exc_msg e)), w1)
            else connect_loop R ci deadline (w1\<lparr>w_now := w_now w1 + 2 * us_sec\<rparr>))"
  by pat_completeness auto
termination
  by (relation "measure (\<lambda>(R, ci, deadline, w). nat (deadline - w_now w))") (auto simp: us_sec_def)

declare connect_loop.simps [simp del]

definition connect :: "'s runner \<Rightarrow> string \<Rightarrow> int \<Rightarrow> ('s server, unit) io" where
  "connect R u wait_seconds =
     bind get_now (\<lambda>now. connect_loop R (conn_info R u) (now + max 0 wait_seconds * us_sec))"

section \<open>Statements and transactions\<close>

text \<open>The first statement opens a transaction; what it sees is the transaction's own state.\<close>

definition visible :: "'s server \<Rightarrow> 's pgdb" where
  "visible s = (case sv_work s of None \<Rightarrow> sv_db s | Some d \<Rightarrow> d)"

definition execute :: "('s pgdb \<Rightarrow> ('a \<times> 's pgdb) result) \<Rightarrow> ('s server, 'a) io" where
  "execute f w =
     (let s = w_db w in
      case f (visible s) of
        Inl e \<Rightarrow> (Inl e, w\<lparr>w_db := s\<lparr>sv_work := Some (visible s)\<rparr>\<rparr>)
      | Inr (x, d) \<Rightarrow> (Inr x, w\<lparr>w_db := s\<lparr>sv_work := Some d\<rparr>\<rparr>))"

definition query :: "('s pgdb \<Rightarrow> 'a) \<Rightarrow> ('s server, 'a) io" where
  "query f = execute (\<lambda>d. Inr (f d, d))"

definition commit :: "('s server, unit) io" where
  "commit w = (Inr (), w\<lparr>w_db := (w_db w)\<lparr>sv_db := visible (w_db w), sv_work := None\<rparr>\<rparr>)"

definition set_work :: "'s pgdb option \<Rightarrow> ('s server, unit) io" where
  "set_work d w = (Inr (), w\<lparr>w_db := (w_db w)\<lparr>sv_work := d\<rparr>\<rparr>)"

text \<open>
  \<open>with conn.transaction()\<close>: the outermost block begins and commits (or rolls back) a
  transaction; inside an open transaction it is a savepoint, and nothing is committed.
\<close>

definition transaction :: "('s server, 'a) io \<Rightarrow> ('s server, 'a) io" where
  "transaction m w =
     (let s = w_db w in
      case sv_work s of
        None \<Rightarrow> catch (bind (set_work (Some (sv_db s))) (\<lambda>_. bind m (\<lambda>x. bind commit (\<lambda>_. ret x))))
          (\<lambda>e. bind (set_work None) (\<lambda>_. raise e)) w
      | Some d \<Rightarrow> catch m (\<lambda>e. bind (set_work (Some d)) (\<lambda>_. raise e)) w)"

definition try_lock :: "('s server, bool) io" where
  "try_lock = bind (query (\<lambda>_. ())) (\<lambda>_ w.
     if sv_other (w_db w) then (Inr False, w) else (Inr True, w\<lparr>w_db := (w_db w)\<lparr>sv_lock := True\<rparr>\<rparr>))"

definition unlock :: "('s server, unit) io" where
  "unlock = bind (query (\<lambda>_. ())) (\<lambda>_ w. (Inr (), w\<lparr>w_db := (w_db w)\<lparr>sv_lock := False\<rparr>\<rparr>))"

text \<open>Closing ends the session: its transaction is rolled back and its lock released.\<close>

definition close_conn :: "('s server, unit) io" where
  "close_conn w = (Inr (), w\<lparr>w_db := (w_db w)\<lparr>sv_work := None, sv_lock := False\<rparr>\<rparr>)"

text \<open>\<open>try: m finally: c\<close>\<close>

definition ensuring :: "('db, unit) io \<Rightarrow> ('db, 'a) io \<Rightarrow> ('db, 'a) io" where
  "ensuring c m = bind (attempt m) (\<lambda>r. bind c (\<lambda>_. lift r))"

section \<open>Upgrading\<close>

definition ensure_tracking_table :: "('s server, unit) io" where
  "ensure_tracking_table =
     bind (execute (\<lambda>d. Inr ((), case pd_versions d of None \<Rightarrow> d\<lparr>pd_versions := Some []\<rparr> | Some _ \<Rightarrow> d))) (\<lambda>_. commit)"

definition applied_versions :: "('s server, string list) io" where
  "applied_versions =
     bind (query (\<lambda>d. pd_versions d \<noteq> None)) (\<lambda>exists.
     if \<not> exists then ret [] else query (\<lambda>d. case pd_versions d of None \<Rightarrow> [] | Some vs \<Rightarrow> vs))"

definition pending_versions :: "'s runner \<Rightarrow> ('s server, string list) io" where
  "pending_versions R =
     bind applied_versions (\<lambda>applied.
     bind (lift (migration_files R)) (\<lambda>fs. ret (filter (\<lambda>v. v \<notin> set applied) (map fst fs))))"

definition run_sql :: "'s runner \<Rightarrow> string \<Rightarrow> 's pgdb \<Rightarrow> (unit \<times> 's pgdb) result" where
  "run_sql R sql d = res_bind (rn_run R sql (pd_schema d)) (\<lambda>s. Inr ((), d\<lparr>pd_schema := s\<rparr>))"

definition insert_version :: "string \<Rightarrow> 's pgdb \<Rightarrow> (unit \<times> 's pgdb) result" where
  "insert_version v d =
     (case pd_versions d of
        None \<Rightarrow> Inl (Exc ''UndefinedTable'' OtherExc ''relation does not exist'' None None)
      | Some vs \<Rightarrow>
          if v \<in> set vs then Inl (Exc ''UniqueViolation'' OtherExc ''duplicate key value'' None None)
          else Inr ((), d\<lparr>pd_versions := Some (vs @ [v])\<rparr>))"

definition apply_file :: "'s runner \<Rightarrow> migration \<Rightarrow> ('s server, unit) io" where
  "apply_file R f =
     (case f of (version, name, content) \<Rightarrow>
        bind (lift content) (\<lambda>sql.
        transaction (bind (execute (run_sql R sql)) (\<lambda>_. execute (insert_version version)))))"

fun apply_files :: "'s runner \<Rightarrow> string list \<Rightarrow> migration list \<Rightarrow> ('s server, unit) io" where
  "apply_files R todo [] = ret ()"
| "apply_files R todo (f # fs) =
     bind (if fst f \<in> set todo then apply_file R f else ret ()) (\<lambda>_. apply_files R todo fs)"

definition upgrade_session :: "'s runner \<Rightarrow> ('s server, string list) io" where
  "upgrade_session R =
     bind ensure_tracking_table (\<lambda>_.
     bind (pending_versions R) (\<lambda>pending.
     bind commit (\<lambda>_.
     if pending = [] then bind (lift (latest_version R)) (\<lambda>_. ret [])
     else
       bind (lift (migration_files R)) (\<lambda>fs.
       bind (apply_files R pending fs) (\<lambda>_. ret pending)))))"

definition locked_session :: "'s runner \<Rightarrow> ('s server, string list) io" where
  "locked_session R =
     bind (query (\<lambda>_. ())) (\<lambda>_.
     bind commit (\<lambda>_.
     bind try_lock (\<lambda>acquired.
     bind commit (\<lambda>_.
     if \<not> acquired then raise (migration_error ''another migration runner holds the advisory lock; try again'')
     else ensuring (bind unlock (\<lambda>_. commit)) (upgrade_session R)))))"

definition apply_pending :: "'s runner \<Rightarrow> string \<Rightarrow> int \<Rightarrow> ('s server, string list) io" where
  "apply_pending R u wait_seconds =
     bind (lift (check_endpoint R u)) (\<lambda>_.
     bind (connect R u wait_seconds) (\<lambda>_.
     ensuring close_conn (locked_session R)))"

section \<open>The other commands\<close>

definition migrate_check :: "'s runner \<Rightarrow> string option \<Rightarrow> int \<Rightarrow> ('s server, string list) io" where
  "migrate_check R cli_url wait_seconds =
     bind (lift (resolve_url R cli_url)) (\<lambda>u.
     bind (connect R u wait_seconds) (\<lambda>_.
     ensuring close_conn (pending_versions R)))"

definition set_password :: "'s runner \<Rightarrow> string \<Rightarrow> ('s server, unit) io" where
  "set_password R pw =
     bind (query (\<lambda>d. rn_has_role R (pd_schema d))) (\<lambda>exists.
     if \<not> exists then raise (migration_error ''feed_app does not exist; run `python -m app.migrate upgrade` first'')
     else bind (execute (\<lambda>d. Inr ((), d\<lparr>pd_password := Some pw\<rparr>))) (\<lambda>_. commit))"

definition bootstrap_role :: "'s runner \<Rightarrow> string option \<Rightarrow> string option \<Rightarrow> int \<Rightarrow> ('s server, unit) io" where
  "bootstrap_role R cli_url password wait_seconds =
     (let pw = (case given password of Some p \<Rightarrow> p | None \<Rightarrow>
            (case given (rn_environ R ''FEED_APP_PASSWORD'') of Some p \<Rightarrow> p | None \<Rightarrow> []))
      in if length pw < min_password_length
         then raise (migration_error ''FEED_APP_PASSWORD must be at least 16 characters'')
         else
           bind (lift (resolve_url R cli_url)) (\<lambda>u.
           bind (connect R u wait_seconds) (\<lambda>_.
           ensuring close_conn (set_password R pw))))"

datatype command = Upgrade | CheckSchema | BootstrapRole

record cli_args =
  ca_command :: command
  ca_url :: "string option"
  ca_wait :: int
  ca_password_env :: string

text \<open>The exit code and the printed line; only a \<open>MigrationError\<close> is caught.\<close>

definition run_command :: "'s runner \<Rightarrow> cli_args \<Rightarrow> ('s server, nat \<times> string) io" where
  "run_command R ca =
     (case ca_command ca of
        Upgrade \<Rightarrow>
          bind (lift (resolve_url R (ca_url ca))) (\<lambda>u.
          bind (apply_pending R u (ca_wait ca)) (\<lambda>applied.
          ret (0, ''applied: '' @ (if applied = [] then ''none (already current)'' else join '', '' applied))))
      | CheckSchema \<Rightarrow>
          bind (migrate_check R (ca_url ca) (ca_wait ca)) (\<lambda>pending.
          if pending \<noteq> [] then ret (1, ''pending migrations: '' @ join '', '' pending)
          else bind (lift (latest_version R)) (\<lambda>v. ret (0, ''schema is current ('' @ v @ '')'')))
      | BootstrapRole \<Rightarrow>
          bind (bootstrap_role R (ca_url ca) (rn_environ R (ca_password_env ca)) (ca_wait ca)) (\<lambda>_.
          ret (0, ''feed_app password updated'')))"

definition migrate_main :: "'s runner \<Rightarrow> cli_args \<Rightarrow> ('s server, nat \<times> string) io" where
  "migrate_main R ca =
     catch (run_command R ca) (\<lambda>e. if exc_name e = ''MigrationError'' then ret (1, ''error: '' @ exc_msg e) else raise e)"

section \<open>The check at startup\<close>

definition required_tables :: "string list" where
  "required_tables = [''feed_items'', ''alerted_items'', ''source_state'']"

definition not_migrated :: "string \<Rightarrow> 'a result" where
  "not_migrated msg = Inl (Exc ''SchemaNotMigrated'' SchemaNotMigrated msg None None)"

text \<open>\<open>SELECT max(version)\<close> over the version texts, compared by their characters.\<close>

definition max_version :: "string list \<Rightarrow> string option" where
  "max_version vs = (if vs = [] then None else Some (foldr max (tl vs) (hd vs)))"

text \<open>\<open>conn\<close> is the outcome of \<open>_connection()\<close>: the pool is unusable, no connection comes in time, or the body runs.\<close>

definition pg_init_db :: "'s runner \<Rightarrow> unit result \<Rightarrow> 's pgdb \<Rightarrow> unit result" where
  "pg_init_db R conn d =
     res_bind (latest_version R) (\<lambda>expected.
     res_bind conn (\<lambda>_.
     case pd_versions d of
       None \<Rightarrow> not_migrated ''feed_schema_migrations is missing; run `python -m app.migrate upgrade`''
     | Some vs \<Rightarrow>
         let applied = max_version vs; missing = filter (\<lambda>t. \<not> rn_has_table R (pd_schema d) t) required_tables in
         if applied \<noteq> Some expected \<or> missing \<noteq> []
         then not_migrated ''database schema is not current; run `python -m app.migrate upgrade`''
         else Inr ()))"

section \<open>Sessions\<close>

lemmas session_defs = execute_def query_def commit_def set_work_def visible_def new_session_def close_conn_def
  bind_def catch_def attempt_def run_ret

lemma no_work [simp]: "sv_work s = None \<Longrightarrow> s\<lparr>sv_db := d, sv_work := None\<rparr> = s\<lparr>sv_db := d\<rparr>"
  "sv_work s = None \<Longrightarrow> s\<lparr>sv_lock := b, sv_work := None\<rparr> = s\<lparr>sv_lock := b\<rparr>"
  by (cases s; simp)+

text \<open>Connecting changes only the clock and the session.\<close>

lemma connect_loop_state:
  assumes "connect_loop R ci deadline w = (r, w')"
  shows "sv_db (w_db w') = sv_db (w_db w) \<and> sv_other (w_db w') = sv_other (w_db w) \<and> w_now w \<le> w_now w' \<and>
    (res_ok r \<longrightarrow> sv_work (w_db w') = None \<and> \<not> sv_lock (w_db w'))"
  using assms
proof (induction R ci deadline w rule: connect_loop.induct)
  case (1 R ci deadline w)
  obtain q d where dial: "rn_dial R ci (w_now w) = (q, d)" by force
  let ?w1 = "w\<lparr>w_now := w_now w + int d\<rparr>"
  show ?case
  proof (cases "\<exists>e. q = Inl e \<and> is_operational e \<and> \<not> deadline \<le> w_now ?w1")
    case True
    then obtain e where q: "q = Inl e" "is_operational e" "\<not> deadline \<le> w_now ?w1" by blast
    from "1.prems" q have "connect_loop R ci deadline (?w1\<lparr>w_now := w_now ?w1 + 2 * us_sec\<rparr>) = (r, w')"
      by (simp add: connect_loop.simps [of R ci deadline w] dial Let_def)
    from "1.IH" [OF dial [symmetric] refl q(1) _ q(3) this] q(2) show ?thesis by (simp add: us_sec_def)
  next
    case False
    with "1.prems" show ?thesis
      by (auto simp: connect_loop.simps [of R ci deadline w] dial Let_def new_session_def split: sum.splits if_splits)
  qed
qed

lemma connect_state:
  assumes "connect R u n w = (r, w')"
  shows "sv_db (w_db w') = sv_db (w_db w) \<and> sv_other (w_db w') = sv_other (w_db w) \<and> w_now w \<le> w_now w' \<and>
    (res_ok r \<longrightarrow> sv_work (w_db w') = None \<and> \<not> sv_lock (w_db w'))"
  using connect_loop_state assms unfolding connect_def by simp

section \<open>One file\<close>

text \<open>What the text of a migration does to the schema.\<close>

definition script :: "'s runner \<Rightarrow> migration \<Rightarrow> 's \<Rightarrow> 's result" where
  "script R f s = res_bind (snd (snd f)) (\<lambda>sql. rn_run R sql s)"

definition applied :: "'s pgdb \<Rightarrow> string list" where
  "applied d = (case pd_versions d of None \<Rightarrow> [] | Some vs \<Rightarrow> vs)"

text \<open>The database after the migrations \<open>fs\<close>, which made the schema \<open>s\<close>.\<close>

definition upgraded :: "'s pgdb \<Rightarrow> migration list \<Rightarrow> 's \<Rightarrow> 's pgdb" where
  "upgraded d fs s = d\<lparr>pd_versions := Some (applied d @ map fst fs), pd_schema := s\<rparr>"

lemma applied_upgraded [simp]: "applied (upgraded d fs s) = applied d @ map fst fs"
  and schema_upgraded [simp]: "pd_schema (upgraded d fs s) = s"
  and upgraded_upgraded [simp]: "upgraded (upgraded d fs s) gs s' = upgraded d (fs @ gs) s'"
  by (simp_all add: upgraded_def applied_def)

lemma apply_file_run:
  assumes "sv_work (w_db w) = None" "pd_versions (sv_db (w_db w)) \<noteq> None" "fst f \<notin> set (applied (sv_db (w_db w)))"
  shows "apply_file R f w =
    (case script R f (pd_schema (sv_db (w_db w))) of
       Inl e \<Rightarrow> (Inl e, w)
     | Inr s \<Rightarrow> (Inr (), w\<lparr>w_db := (w_db w)\<lparr>sv_db := upgraded (sv_db (w_db w)) [f] s\<rparr>\<rparr>))"
proof -
  obtain v nm content where f: "f = (v, nm, content)" by (cases f)
  from assms(2) obtain vs where vs: "pd_versions (sv_db (w_db w)) = Some vs" by auto
  with assms(3) f have nv: "v \<notin> set vs" by (simp add: applied_def)
  show ?thesis
  proof (cases content)
    case (Inl e)
    then show ?thesis by (simp add: apply_file_def f script_def session_defs)
  next
    case (Inr sql)
    then show ?thesis using vs nv assms(1)
      by (cases "rn_run R sql (pd_schema (sv_db (w_db w)))")
        (simp_all add: apply_file_def f script_def transaction_def session_defs run_sql_def insert_version_def upgraded_def
          applied_def Let_def)
  qed
qed

lemma apply_files_run:
  assumes "sv_work (w_db w) = None" "pd_versions (sv_db (w_db w)) \<noteq> None"
    "\<And>f. f \<in> set fs \<Longrightarrow> fst f \<in> set todo \<Longrightarrow> fst f \<notin> set (applied (sv_db (w_db w)))" "distinct (map fst fs)"
  shows "\<exists>done rest s r. filter (\<lambda>f. fst f \<in> set todo) fs = done @ rest \<and>
    res_fold (script R) done (pd_schema (sv_db (w_db w))) = Inr s \<and>
    apply_files R todo fs w = (r, w\<lparr>w_db := (w_db w)\<lparr>sv_db := upgraded (sv_db (w_db w)) done s\<rparr>\<rparr>) \<and>
    (case r of Inr _ \<Rightarrow> rest = [] | Inl e \<Rightarrow> rest \<noteq> [] \<and> script R (hd rest) s = Inl e)"
  using assms
proof (induction fs arbitrary: w)
  case Nil
  then have "upgraded (sv_db (w_db w)) [] (pd_schema (sv_db (w_db w))) = sv_db (w_db w)"
    by (auto simp: upgraded_def applied_def)
  then show ?case by (auto simp: run_ret)
next
  case (Cons f fs)
  show ?case
  proof (cases "fst f \<in> set todo")
    case False
    with Cons.IH [of w] Cons.prems show ?thesis by simp
  next
    case True
    note run = apply_file_run [OF Cons.prems(1,2) Cons.prems(3) [OF list.set_intros(1) True], of R]
    show ?thesis
    proof (cases "script R f (pd_schema (sv_db (w_db w)))")
      case (Inl e)
      have same: "upgraded (sv_db (w_db w)) [] (pd_schema (sv_db (w_db w))) = sv_db (w_db w)"
        using Cons.prems(2) by (auto simp: upgraded_def applied_def)
      show ?thesis using True run Inl same
        by (intro exI [of _ "[]"] exI [of _ "filter (\<lambda>f. fst f \<in> set todo) (f # fs)"] exI [of _ "pd_schema (sv_db (w_db w))"]
          exI [of _ "Inl e"]) (simp add: bind_def)
    next
      case (Inr s1)
      let ?w1 = "w\<lparr>w_db := (w_db w)\<lparr>sv_db := upgraded (sv_db (w_db w)) [f] s1\<rparr>\<rparr>"
      have "\<exists>done rest s r. filter (\<lambda>f. fst f \<in> set todo) fs = done @ rest \<and>
        res_fold (script R) done (pd_schema (sv_db (w_db ?w1))) = Inr s \<and>
        apply_files R todo fs ?w1 = (r, ?w1\<lparr>w_db := (w_db ?w1)\<lparr>sv_db := upgraded (sv_db (w_db ?w1)) done s\<rparr>\<rparr>) \<and>
        (case r of Inr _ \<Rightarrow> rest = [] | Inl e \<Rightarrow> rest \<noteq> [] \<and> script R (hd rest) s = Inl e)"
      proof (rule Cons.IH)
        fix g assume "g \<in> set fs" "fst g \<in> set todo"
        with Cons.prems(3) [of g] Cons.prems(4) show "fst g \<notin> set (applied (sv_db (w_db ?w1)))" by (auto intro: rev_image_eqI)
      qed (use Cons.prems in \<open>simp_all add: upgraded_def\<close>)
      then obtain dn rest s r where *: "filter (\<lambda>f. fst f \<in> set todo) fs = dn @ rest" "res_fold (script R) dn s1 = Inr s"
        "apply_files R todo fs ?w1 = (r, w\<lparr>w_db := (w_db w)\<lparr>sv_db := upgraded (sv_db (w_db w)) (f # dn) s\<rparr>\<rparr>)"
        "case r of Inr _ \<Rightarrow> rest = [] | Inl e \<Rightarrow> rest \<noteq> [] \<and> script R (hd rest) s = Inl e"
        by auto
      with True run Inr show ?thesis
        by (intro exI [of _ "f # dn"] exI [of _ rest] exI [of _ s] exI [of _ r]) (simp add: bind_def)
    qed
  qed
qed

section \<open>An upgrade\<close>

text \<open>The migrations that the database has not.\<close>

definition due :: "'s pgdb \<Rightarrow> migration list \<Rightarrow> migration list" where
  "due d fs = filter (\<lambda>f. fst f \<notin> set (applied d)) fs"

text \<open>
  The contract of an upgrade: the migrations due are applied in order up to the first that fails;
  what was applied is recorded, and the exception is that of the failing script.
\<close>

definition upgrades :: "'s runner \<Rightarrow> migration list \<Rightarrow> 's pgdb \<Rightarrow> string list result \<Rightarrow> 's pgdb \<Rightarrow> bool" where
  "upgrades R fs d r d' \<longleftrightarrow> (\<exists>done rest s. due d fs = done @ rest \<and> res_fold (script R) done (pd_schema d) = Inr s \<and>
     d' = upgraded d done s \<and>
     (case r of Inr vs \<Rightarrow> rest = [] \<and> vs = map fst done | Inl e \<Rightarrow> rest \<noteq> [] \<and> script R (hd rest) s = Inl e))"

lemma ensure_tracking_run:
  "sv_work (w_db w) = None \<Longrightarrow>
   ensure_tracking_table w = (Inr (), w\<lparr>w_db := (w_db w)\<lparr>sv_db := upgraded (sv_db (w_db w)) [] (pd_schema (sv_db (w_db w)))\<rparr>\<rparr>)"
  by (simp add: ensure_tracking_table_def session_defs upgraded_def applied_def Let_def split: option.split)

lemma pending_run:
  assumes "sv_work (w_db w) = None" "migration_files R = Inr fs"
  shows "pending_versions R w = (Inr (map fst (due (sv_db (w_db w)) fs)), w\<lparr>w_db := (w_db w)\<lparr>sv_work := Some (sv_db (w_db w))\<rparr>\<rparr>)"
  using assms by (auto simp: pending_versions_def applied_versions_def session_defs Let_def due_def applied_def filter_map comp_def
    split: option.splits)

lemma upgrade_session_run:
  assumes w: "sv_work (w_db w) = None" and fs: "migration_files R = Inr fs" and dist: "distinct (map fst fs)"
  shows "\<exists>r d. upgrade_session R w = (r, w\<lparr>w_db := (w_db w)\<lparr>sv_db := d\<rparr>\<rparr>) \<and> upgrades R fs (sv_db (w_db w)) r d"
proof -
  let ?d = "sv_db (w_db w)"
  let ?d1 = "upgraded ?d [] (pd_schema ?d)"
  let ?w1 = "w\<lparr>w_db := (w_db w)\<lparr>sv_db := ?d1\<rparr>\<rparr>"
  let ?w2 = "?w1\<lparr>w_db := (w_db ?w1)\<lparr>sv_work := Some ?d1\<rparr>\<rparr>"
  let ?todo = "map fst (due ?d fs)"
  have due1: "due ?d1 fs = due ?d fs" by (simp add: due_def)
  have w1: "sv_work (w_db ?w1) = None" using w by simp
  have "pending_versions R ?w1 = (Inr ?todo, ?w2)" using pending_run [OF w1 fs] due1 by simp
  moreover have "commit ?w2 = (Inr (), ?w1)" using w by (simp add: commit_def visible_def)
  ultimately have run: "upgrade_session R w =
      (if ?todo = [] then bind (lift (latest_version R)) (\<lambda>_. ret [])
       else bind (lift (migration_files R)) (\<lambda>fs. bind (apply_files R ?todo fs) (\<lambda>_. ret ?todo))) ?w1"
    using ensure_tracking_run [OF w] by (simp add: upgrade_session_def bind_run)
  show ?thesis
  proof (cases "?todo = []")
    case True
    then have "upgrade_session R w = (Inr [], ?w1)" using run fs by (simp add: latest_version_def run_ret)
    moreover have "upgrades R fs ?d (Inr []) ?d1"
      using True unfolding upgrades_def by (intro exI [of _ "[]"] exI [of _ "pd_schema ?d"]) simp
    ultimately show ?thesis by blast
  next
    case False
    have todo: "filter (\<lambda>f. fst f \<in> set ?todo) fs = due ?d fs"
      unfolding due_def by (rule filter_cong [OF refl]) (auto intro: rev_image_eqI)
    have new: "\<And>f. f \<in> set fs \<Longrightarrow> fst f \<in> set ?todo \<Longrightarrow> fst f \<notin> set (applied (sv_db (w_db ?w1)))"
      by (auto simp: due_def)
    have tab: "pd_versions (sv_db (w_db ?w1)) \<noteq> None" by (simp add: upgraded_def)
    have "\<exists>done rest s r. filter (\<lambda>f. fst f \<in> set ?todo) fs = done @ rest \<and>
        res_fold (script R) done (pd_schema (sv_db (w_db ?w1))) = Inr s \<and>
        apply_files R ?todo fs ?w1 = (r, ?w1\<lparr>w_db := (w_db ?w1)\<lparr>sv_db := upgraded (sv_db (w_db ?w1)) done s\<rparr>\<rparr>) \<and>
        (case r of Inr _ \<Rightarrow> rest = [] | Inl e \<Rightarrow> rest \<noteq> [] \<and> script R (hd rest) s = Inl e)"
      by (rule apply_files_run [OF w1 tab new dist])
    then have "\<exists>done rest s r. due ?d fs = done @ rest \<and> res_fold (script R) done (pd_schema ?d) = Inr s \<and>
        apply_files R ?todo fs ?w1 = (r, w\<lparr>w_db := (w_db w)\<lparr>sv_db := upgraded ?d done s\<rparr>\<rparr>) \<and>
        (case r of Inr _ \<Rightarrow> rest = [] | Inl e \<Rightarrow> rest \<noteq> [] \<and> script R (hd rest) s = Inl e)"
      unfolding todo by simp
    then obtain dn rest s r where
      "due ?d fs = dn @ rest" "res_fold (script R) dn (pd_schema ?d) = Inr s"
      "apply_files R ?todo fs ?w1 = (r, w\<lparr>w_db := (w_db w)\<lparr>sv_db := upgraded ?d dn s\<rparr>\<rparr>)"
      "case r of Inr _ \<Rightarrow> rest = [] | Inl e \<Rightarrow> rest \<noteq> [] \<and> script R (hd rest) s = Inl e" by blast
    note did = this
    let ?r = "case r of Inl e \<Rightarrow> Inl e | Inr _ \<Rightarrow> Inr ?todo"
    have "upgrade_session R w = (?r, w\<lparr>w_db := (w_db w)\<lparr>sv_db := upgraded ?d dn s\<rparr>\<rparr>)"
      using run False fs did(3) by (cases r) (simp_all add: bind_def run_ret)
    moreover have "upgrades R fs ?d ?r (upgraded ?d dn s)"
      using did(1,2,4) unfolding upgrades_def
      by (intro exI [of _ dn] exI [of _ rest] exI [of _ s]) (cases r; simp)
    ultimately show ?thesis by blast
  qed
qed

lemma locked_session_run:
  assumes "sv_work (w_db w) = None" "\<not> sv_other (w_db w)" "migration_files R = Inr fs" "distinct (map fst fs)"
  shows "\<exists>r w'. locked_session R w = (r, w') \<and> sv_work (w_db w') = None \<and> \<not> sv_lock (w_db w') \<and>
    upgrades R fs (sv_db (w_db w)) r (sv_db (w_db w'))"
proof -
  let ?w1 = "w\<lparr>w_db := (w_db w)\<lparr>sv_lock := True\<rparr>\<rparr>"
  have w1: "sv_work (w_db ?w1) = None" using assms(1) by simp
  from upgrade_session_run [OF w1 assms(3,4)] obtain r d where
    u: "upgrade_session R ?w1 = (r, ?w1\<lparr>w_db := (w_db ?w1)\<lparr>sv_db := d\<rparr>\<rparr>)" "upgrades R fs (sv_db (w_db w)) r d" by auto
  have "locked_session R w = ensuring (bind unlock (\<lambda>_. commit)) (upgrade_session R) ?w1"
    using assms(1,2) by (simp add: locked_session_def try_lock_def session_defs Let_def)
  then show ?thesis using u assms(1)
    by (simp add: ensuring_def unlock_def session_defs Let_def)
qed

lemma apply_pending_run:
  assumes "check_endpoint R u = Inr ()" "connect R u n w = (Inr (), w1)" "\<not> sv_other (w_db w)"
    "migration_files R = Inr fs" "distinct (map fst fs)"
  shows "\<exists>r w'. apply_pending R u n w = (r, w') \<and> sv_work (w_db w') = None \<and> \<not> sv_lock (w_db w') \<and>
    upgrades R fs (sv_db (w_db w)) r (sv_db (w_db w'))"
proof -
  from connect_state [OF assms(2)] have w1: "sv_work (w_db w1) = None" "\<not> sv_other (w_db w1)" "sv_db (w_db w1) = sv_db (w_db w)"
    using assms(3) by simp_all
  from locked_session_run [OF w1(1,2) assms(4,5)] w1(3) obtain r w2 where
    "locked_session R w1 = (r, w2)" "upgrades R fs (sv_db (w_db w)) r (sv_db (w_db w2))" by auto
  with assms(1,2) show ?thesis
    by (simp add: apply_pending_def bind_run ensuring_def session_defs)
qed

lemma apply_pending_locked:
  assumes "sv_other (w_db w)"
  shows "\<exists>e w'. apply_pending R u n w = (Inl e, w') \<and> sv_db (w_db w') = sv_db (w_db w)"
proof (cases "check_endpoint R u")
  case (Inl e)
  then show ?thesis by (simp add: apply_pending_def bind_stop run_ret)
next
  case (Inr a)
  obtain r w1 where c: "connect R u n w = (r, w1)" by force
  note st = connect_state [OF c]
  show ?thesis
  proof (cases r)
    case (Inl e)
    with Inr c st show ?thesis by (simp add: apply_pending_def bind_stop)
  next
    case (Inr b)
    with \<open>check_endpoint R u = Inr a\<close> c st assms show ?thesis
      by (simp add: apply_pending_def bind_run ensuring_def locked_session_def try_lock_def session_defs Let_def)
  qed
qed

section \<open>How long connecting takes\<close>

lemma connect_loop_ends:
  assumes "connect_loop R ci deadline w = (r, w')" "w_now w \<le> deadline + 2 * us_sec" "\<And>t. snd (rn_dial R ci t) \<le> D"
  shows "w_now w' \<le> deadline + 2 * us_sec + int D \<and>
    (\<exists>t d. w_now w \<le> t \<and> w_now w' = t + int d \<and>
       (case r of
          Inr _ \<Rightarrow> rn_dial R ci t = (Inr (), d)
        | Inl e \<Rightarrow> (\<exists>e'. rn_dial R ci t = (Inl e', d) \<and>
            (if is_operational e' then deadline \<le> w_now w' \<and> e = migration_error (''database is not reachable: '' @ exc_msg e')
             else e = e'))))"
  using assms
proof (induction R ci deadline w rule: connect_loop.induct)
  case (1 R ci deadline w)
  obtain q d where dial: "rn_dial R ci (w_now w) = (q, d)" by force
  let ?w1 = "w\<lparr>w_now := w_now w + int d\<rparr>"
  have d: "int d \<le> int D" using "1.prems"(3) [of "w_now w"] dial by simp
  show ?case
  proof (cases "\<exists>e. q = Inl e \<and> is_operational e \<and> \<not> deadline \<le> w_now ?w1")
    case True
    then obtain e where q: "q = Inl e" "is_operational e" "\<not> deadline \<le> w_now ?w1" by blast
    let ?w2 = "?w1\<lparr>w_now := w_now ?w1 + 2 * us_sec\<rparr>"
    have "connect_loop R ci deadline ?w2 = (r, w')"
      using "1.prems"(1) q by (simp add: connect_loop.simps [of R ci deadline w] dial Let_def)
    moreover have "w_now ?w2 \<le> deadline + 2 * us_sec" using q(3) by simp
    ultimately have *: "w_now w' \<le> deadline + 2 * us_sec + int D \<and>
    (\<exists>t d. w_now ?w2 \<le> t \<and> w_now w' = t + int d \<and>
       (case r of
          Inr _ \<Rightarrow> rn_dial R ci t = (Inr (), d)
        | Inl e \<Rightarrow> (\<exists>e'. rn_dial R ci t = (Inl e', d) \<and>
            (if is_operational e' then deadline \<le> w_now w' \<and> e = migration_error (''database is not reachable: '' @ exc_msg e')
             else e = e'))))"
      using "1.IH" [OF dial [symmetric] refl q(1) _ q(3)] q(2) "1.prems"(3) by blast
    have "w_now w \<le> w_now ?w2" by (simp add: us_sec_def)
    with * show ?thesis by (meson order_trans)
  next
    case False
    with "1.prems"(1) have r: "w_now w' = w_now w + int d \<and>
       (case r of Inr _ \<Rightarrow> q = Inr () | Inl e \<Rightarrow> (\<exists>e'. q = Inl e' \<and>
          (if is_operational e' then deadline \<le> w_now w' \<and> e = migration_error (''database is not reachable: '' @ exc_msg e')
             else e = e')))"
      by (auto simp: connect_loop.simps [of R ci deadline w] dial Let_def new_session_def split: sum.splits if_splits)
    show ?thesis
      by (intro conjI exI [of _ "w_now w"] exI [of _ d]) (use r d dial "1.prems"(2) in \<open>auto split: sum.splits\<close>)
  qed
qed

section \<open>The startup check\<close>

lemma take_mono_lex: "x \<le> y \<Longrightarrow> take n x \<le> take n (y :: string)"
proof (induction n arbitrary: x y)
  case (Suc n)
  then show ?case by (cases x; cases y) auto
qed simp

lemma stem_prefix: "\<exists>s. name = stem name @ s"
proof -
  let ?r = "rev name"
  have "rev (drop n ?r) @ rev (take n ?r) = name" for n
    by (metis append_take_drop_id rev_append rev_rev_ident)
  then show ?thesis by (auto simp: stem_def Let_def intro: exI [of _ "[]"] sym)
qed

lemma version_of_take: "version_of name = take (length (version_of name)) name"
proof -
  obtain s where "name = stem name @ s" using stem_prefix by blast
  moreover have "stem name = version_of name @ dropWhile (\<lambda>c. c \<noteq> CHR ''_'') (stem name)" by (simp add: version_of_def)
  ultimately show ?thesis by (metis append_assoc append_eq_conv_conj)
qed

lemma migration_files_facts:
  assumes "migration_files R = Inr fs"
  shows "fs \<noteq> []" "sorted (map (fst \<circ> snd) fs)" "\<forall>f \<in> set fs. fst f = version_of (fst (snd f)) \<and> isdigit (fst f)"
proof -
  let ?files = "sort_key fst (filter (\<lambda>f. suffix ''.sql'' (fst f)) (rn_files R))"
  let ?g = "\<lambda>(name, content). if isdigit (version_of name) then Inr (version_of name, name, content)
        else Inl (migration_error (''migration file must start with a numeric version: '' @ name))"
  from assms have ne: "?files \<noteq> []" and m: "res_map ?g ?files = Inr fs"
    by (auto simp: migration_files_def Let_def split: if_splits)
  from m have l: "list_all2 (\<lambda>f g. g = (version_of (fst f), f) \<and> isdigit (version_of (fst f))) ?files fs"
    unfolding res_map_Inr_iff by (rule list_all2_mono) (auto split: if_splits)
  then have eq: "fs = map (\<lambda>f. (version_of (fst f), f)) ?files \<and> list_all (\<lambda>f. isdigit (version_of (fst f))) ?files"
    by (induction rule: list_all2_induct) auto
  with ne show "fs \<noteq> []" by simp
  show "sorted (map (fst \<circ> snd) fs)" using eq by (simp add: comp_def)
  show "\<forall>f \<in> set fs. fst f = version_of (fst (snd f)) \<and> isdigit (fst f)" using eq by (auto simp: list_all_iff)
qed

lemma max_version: "vs \<noteq> [] \<Longrightarrow> max_version vs = Some (Max (set vs))"
proof -
  have "foldr max xs x = Max (set (x # xs))" for xs and x :: string
    by (induction xs) (auto simp: insert_commute [of x] max.left_commute)
  moreover assume "vs \<noteq> []"
  ultimately show ?thesis by (cases vs) (simp_all add: max_version_def)
qed

lemma latest_is_greatest:
  assumes "migration_files R = Inr fs" "\<And>f. f \<in> set fs \<Longrightarrow> length (fst f) = n" "f \<in> set fs"
  shows "fst f \<le> fst (last fs)"
proof -
  note fs = migration_files_facts [OF assms(1)]
  have v: "fst g = take n (fst (snd g))" if "g \<in> set fs" for g
    using fs(3) version_of_take assms(2) that by metis
  obtain gs g where gs: "fs = gs @ [g]" using fs(1) by (metis rev_exhaust)
  have "fst (snd f) \<le> fst (snd (last fs))"
    using fs(2) assms(3) unfolding gs by (auto simp: sorted_append)
  then show ?thesis using v [OF assms(3)] v [of "last fs"] fs(1) take_mono_lex by simp
qed

lemma startup_check:
  assumes "migration_files R = Inr fs" "\<And>f. f \<in> set fs \<Longrightarrow> length (fst f) = n" "set (applied d) \<subseteq> set (map fst fs)"
    "list_all (rn_has_table R (pd_schema d)) required_tables"
  shows "pg_init_db R (Inr ()) d = Inr () \<longleftrightarrow> fst (last fs) \<in> set (applied d)"
proof -
  have missing: "filter (\<lambda>t. \<not> rn_has_table R (pd_schema d) t) required_tables = []"
    using assms(4) by (simp add: filter_empty_conv list_all_iff)
  have latest: "latest_version R = Inr (fst (last fs))" using assms(1) by (simp add: latest_version_def)
  show ?thesis
  proof (cases "pd_versions d = None \<or> applied d = []")
    case True
    then show ?thesis
      by (auto simp: pg_init_db_def latest not_migrated_def applied_def max_version_def Let_def split: option.splits)
  next
    case False
    then obtain vs where vs: "pd_versions d = Some vs" "vs \<noteq> []" "applied d = vs" by (auto simp: applied_def)
    have le: "v \<le> fst (last fs)" if "v \<in> set vs" for v
      using latest_is_greatest [OF assms(1,2)] assms(3) vs(3) that by auto
    have "Max (set vs) = fst (last fs) \<longleftrightarrow> fst (last fs) \<in> set vs"
      using vs(2) le by (metis List.finite_set Max_eqI Max_in set_empty)
    then show ?thesis using vs missing max_version [OF vs(2)]
      by (simp add: pg_init_db_def latest not_migrated_def Let_def)
  qed
qed

lemma startup_refuses:
  assumes "migration_files R = Inr fs" "fst (last fs) \<notin> set (applied d)"
  shows "pg_init_db R (Inr ()) d \<noteq> Inr ()"
proof (cases "pd_versions d")
  case (Some vs)
  have "max_version vs \<noteq> Some (fst (last fs))"
  proof
    assume m: "max_version vs = Some (fst (last fs))"
    then have "vs \<noteq> []" by (auto simp: max_version_def)
    with m have "fst (last fs) \<in> set vs" using Max_in [of "set vs"] by (simp add: max_version)
    with assms(2) Some show False by (simp add: applied_def)
  qed
  with Some assms(1) show ?thesis by (simp add: pg_init_db_def latest_version_def not_migrated_def Let_def)
qed (use assms(1) in \<open>simp add: pg_init_db_def latest_version_def not_migrated_def\<close>)

text \<open>Without a connection the check fails as the connection did, once the migration files are in order.\<close>

lemma startup_unreachable:
  assumes "migration_files R = Inr fs" shows "pg_init_db R (Inl e) d = Inl e"
  using assms by (simp add: pg_init_db_def latest_version_def)

text \<open>After an upgrade the migrations still due are those it did not apply.\<close>

lemma upgrades_due:
  assumes "upgrades R fs d r d'" "distinct (map fst fs)"
  shows "\<exists>done. due d fs = done @ due d' fs \<and> applied d' = applied d @ map fst done \<and> (res_ok r \<longrightarrow> due d' fs = [])"
proof -
  from assms(1) obtain dn rest s where *: "due d fs = dn @ rest" "d' = upgraded d dn s"
    "case r of Inr vs \<Rightarrow> rest = [] \<and> vs = map fst dn | Inl e \<Rightarrow> rest \<noteq> [] \<and> script R (hd rest) s = Inl e"
    by (auto simp: upgrades_def)
  have "distinct (map fst (dn @ rest))"
    using assms(2) unfolding *(1) [symmetric] due_def by (rule distinct_map_filter)
  then have "filter (\<lambda>f. fst f \<notin> fst ` set dn) (dn @ rest) = rest" by (auto simp: filter_id_conv filter_empty_conv)
  moreover have "due d' fs = filter (\<lambda>f. fst f \<notin> fst ` set dn) (due d fs)"
    using *(2) by (auto simp: due_def conj_commute intro!: filter_cong)
  ultimately show ?thesis using * by (cases r) auto
qed

section \<open>The commands\<close>

text \<open>\<open>check\<close> exits with 0 exactly when nothing is due, and leaves the database as it is.\<close>

lemma check_exit_code:
  assumes "resolve_url R (ca_url ca) = Inr u" "connect R u (ca_wait ca) w = (Inr (), w1)" "migration_files R = Inr fs"
    "ca_command ca = CheckSchema"
  shows "\<exists>line w'. migrate_main R ca w = (Inr (if due (sv_db (w_db w)) fs = [] then 0 else 1, line), w') \<and>
    sv_db (w_db w') = sv_db (w_db w)"
proof -
  from connect_state [OF assms(2)] have w1: "sv_work (w_db w1) = None" "sv_db (w_db w1) = sv_db (w_db w)" by simp_all
  show ?thesis using assms pending_run [OF w1(1) assms(3)] w1(2)
    by (simp add: migrate_main_def run_command_def migrate_check_def ensuring_def session_defs latest_version_def)
qed

text \<open>A short password is refused before anything is connected to.\<close>

lemma bootstrap_short_password:
  assumes "p \<noteq> []" "length p < min_password_length"
  shows "bootstrap_role R cli_url (Some p) n w = (Inl (migration_error ''FEED_APP_PASSWORD must be at least 16 characters''), w)"
  using assms by (cases p) (simp_all add: bootstrap_role_def given_def raise_def)

section \<open>A runner\<close>

text \<open>The schema is the list of the texts that ran; a text \<open>bad\<close> fails; the server answers from time 5 on.\<close>

definition demo_runner :: "string list \<Rightarrow> string list runner" where
  "demo_runner names = \<lparr>rn_cfg = default_settings\<lparr>db_sslmode := ''require''\<rparr>, rn_environ = (\<lambda>_. None),
     rn_files = map (\<lambda>n. (n, Inr n)) names,
     rn_run = (\<lambda>sql s. if sql = ''3_bad.sql'' then raise_value ''syntax error'' else Inr (s @ [sql])),
     rn_dial = (\<lambda>_ t. (if t < 5 then Inl (Exc ''OperationalError'' OtherExc ''starting up'' None None) else Inr (), 1)),
     rn_has_role = (\<lambda>s. s \<noteq> []), rn_has_table = (\<lambda>s _. s \<noteq> [])\<rparr>"

definition fresh_server :: "string list server" where
  "fresh_server = \<lparr>sv_db = \<lparr>pd_versions = None, pd_schema = [], pd_password = None\<rparr>, sv_work = None, sv_lock = False, sv_other = False\<rparr>"

abbreviation at_start :: "string list server \<Rightarrow> string list server world" where
  "at_start s \<equiv> new_world s 0 default_settings"

lemma demo_runner_sel [simp]:
  "rn_cfg (demo_runner ns) = default_settings\<lparr>db_sslmode := ''require''\<rparr>"
  "rn_dial (demo_runner ns) ci t = (if t < 5 then Inl (Exc ''OperationalError'' OtherExc ''starting up'' None None) else Inr (), 1)"
  "rn_has_table (demo_runner ns) s = (\<lambda>_. s \<noteq> [])"
  by (simp_all add: demo_runner_def)

lemma demo_endpoint: "check_endpoint (demo_runner ns) ''db'' = Inr ()"
  by (simp add: check_endpoint_def validate_db_endpoint_def)

lemma demo_connect: "\<exists>w. connect (demo_runner ns) ''db'' 60 (at_start s) = (Inr (), w)"
  by (simp add: connect_def connect_loop.simps [of "demo_runner ns"] is_operational_def Let_def
    us_sec_def new_session_def new_world_def)

lemma demo_files:
  "migration_files (demo_runner [''2_b.sql'', ''1_a.sql'']) = Inr [(''1'', ''1_a.sql'', Inr ''1_a.sql''), (''2'', ''2_b.sql'', Inr ''2_b.sql'')]"
  by code_simp

section \<open>Properties\<close>

text \<open>C4. An upgrade does what its contract says: with a connection and the lock free, it applies the
  migrations the database has not, in the order of the files, each with its version in one
  transaction, up to the first that fails; the exception is the one of that script, nothing of the
  failing file is kept, everything before it is; the session ends without lock and transaction.\<close>

theorem upgrade_refines:
  assumes "check_endpoint R u = Inr ()" "connect R u n w = (Inr (), w1)" "\<not> sv_other (w_db w)"
    "migration_files R = Inr fs" "distinct (map fst fs)"
  shows "\<exists>r w'. apply_pending R u n w = (r, w') \<and> sv_work (w_db w') = None \<and> \<not> sv_lock (w_db w') \<and>
    upgrades R fs (sv_db (w_db w)) r (sv_db (w_db w'))"
  using assms by (rule apply_pending_run)

lemma upgrade_refines_witness:
  "\<exists>r w'. apply_pending (demo_runner [''2_b.sql'', ''1_a.sql'']) ''db'' 60 (at_start fresh_server) = (r, w') \<and>
    upgrades (demo_runner [''2_b.sql'', ''1_a.sql'']) [(''1'', ''1_a.sql'', Inr ''1_a.sql''), (''2'', ''2_b.sql'', Inr ''2_b.sql'')]
      (sv_db fresh_server) r (sv_db (w_db w'))"
proof -
  obtain w1 where "connect (demo_runner [''2_b.sql'', ''1_a.sql'']) ''db'' 60 (at_start fresh_server) = (Inr (), w1)"
    using demo_connect by blast
  from upgrade_refines [OF demo_endpoint this _ demo_files] show ?thesis
    by (auto simp: fresh_server_def new_world_def)
qed

text \<open>Only one runner migrates: while another session holds the advisory lock, an upgrade fails and
  leaves the committed database as it was, whatever it was asked to apply.\<close>

theorem locked_upgrade_changes_nothing:
  assumes "sv_other (w_db w)"
  shows "\<exists>e w'. apply_pending R u n w = (Inl e, w') \<and> sv_db (w_db w') = sv_db (w_db w)"
  using assms by (rule apply_pending_locked)

lemma locked_upgrade_changes_nothing_witness:
  "\<exists>e w'. apply_pending (demo_runner [''1_a.sql'']) ''db'' 60 (at_start (fresh_server\<lparr>sv_other := True\<rparr>)) = (Inl e, w') \<and>
     sv_db (w_db w') = sv_db fresh_server"
  using locked_upgrade_changes_nothing [of "at_start (fresh_server\<lparr>sv_other := True\<rparr>)" "demo_runner [''1_a.sql'']" "''db''" 60]
  by (auto simp: new_world_def)

text \<open>C18. Connecting ends: when an attempt takes at most \<open>D\<close>, it is over two seconds and one attempt after
  the deadline at the latest. It ends with a session when an attempt succeeded, and gives up only
  after an attempt that failed at or after the deadline, or at once on an exception that is not an
  operational error.\<close>

theorem connect_ends:
  assumes "connect R u n w = (r, w')" "\<And>t. snd (rn_dial R (conn_info R u) t) \<le> D"
  defines "deadline \<equiv> w_now w + max 0 n * us_sec"
  shows "w_now w' \<le> deadline + 2 * us_sec + int D \<and>
    (\<exists>t d. w_now w \<le> t \<and> w_now w' = t + int d \<and>
       (case r of
          Inr _ \<Rightarrow> rn_dial R (conn_info R u) t = (Inr (), d)
        | Inl e \<Rightarrow> (\<exists>e'. rn_dial R (conn_info R u) t = (Inl e', d) \<and>
            (if is_operational e' then deadline \<le> w_now w' \<and> e = migration_error (''database is not reachable: '' @ exc_msg e')
             else e = e'))))"
proof -
  have "0 \<le> max 0 n * us_sec" by (simp add: us_sec_def)
  then have "w_now w \<le> deadline + 2 * us_sec" by (simp add: deadline_def us_sec_def)
  moreover have "connect_loop R (conn_info R u) deadline w = (r, w')" using assms(1) by (simp add: connect_def deadline_def)
  ultimately show ?thesis using connect_loop_ends assms(2) by blast
qed

lemma connect_ends_witness:
  "\<exists>w'. connect (demo_runner []) ''db'' 60 (at_start fresh_server) = (Inr (), w') \<and> w_now w' \<le> 62 * us_sec + 1"
proof -
  obtain w' where c: "connect (demo_runner []) ''db'' 60 (at_start fresh_server) = (Inr (), w')" using demo_connect by blast
  have "snd (rn_dial (demo_runner []) (conn_info (demo_runner []) ''db'') t) \<le> 1" for t by (simp add: demo_runner_def)
  from connect_ends [OF c this] c show ?thesis by (simp add: new_world_def)
qed

text \<open>When all versions have the same length (as the numbers of the repository have), a database that a
  successful upgrade left passes the check at startup, nothing is pending there, and another
  upgrade would find nothing due; the database before it is refused, unless it had the latest version.\<close>

lemma startup_accepts_upgraded:
  assumes "check_endpoint R u = Inr ()" "\<not> sv_other (w_db w)" "migration_files R = Inr fs" "distinct (map fst fs)"
    "apply_pending R u n w = (Inr vs, w')" "connect R u n w = (Inr (), w1)"
    "\<And>f. f \<in> set fs \<Longrightarrow> length (fst f) = k" "set (applied (sv_db (w_db w))) \<subseteq> set (map fst fs)"
    "list_all (rn_has_table R (pd_schema (sv_db (w_db w')))) required_tables"
  shows "pg_init_db R (Inr ()) (sv_db (w_db w')) = Inr () \<and> fst (pending_versions R w') = Inr [] \<and> due (sv_db (w_db w')) fs = [] \<and>
    (fst (last fs) \<notin> set (applied (sv_db (w_db w))) \<longrightarrow> pg_init_db R (Inr ()) (sv_db (w_db w)) \<noteq> Inr ())"
proof -
  from apply_pending_run [OF assms(1,6,2-4)] assms(5) have
    w': "sv_work (w_db w') = None" and up: "upgrades R fs (sv_db (w_db w)) (Inr vs) (sv_db (w_db w'))" by auto
  note fs = migration_files_facts [OF assms(3)]
  from upgrades_due [OF up assms(4)] obtain dn where
    dn: "due (sv_db (w_db w)) fs = dn @ due (sv_db (w_db w')) fs" "applied (sv_db (w_db w')) = applied (sv_db (w_db w)) @ map fst dn"
    "due (sv_db (w_db w')) fs = []" by auto
  have sub: "set dn \<subseteq> set fs" using dn(1) unfolding dn(3) by (auto simp: due_def dest: arg_cong [of _ _ set])
  then have "set (applied (sv_db (w_db w'))) \<subseteq> set (map fst fs)" using dn(2) assms(8) by auto
  moreover have "fst (last fs) \<in> set (applied (sv_db (w_db w')))"
    using dn(3) fs(1) by (auto simp: due_def filter_empty_conv)
  ultimately have "pg_init_db R (Inr ()) (sv_db (w_db w')) = Inr ()"
    using startup_check [OF assms(3,7) _ assms(9)] by blast
  moreover have "fst (pending_versions R w') = Inr []" using pending_run [OF w' assms(3)] dn(3) by simp
  ultimately show ?thesis using dn(3) startup_refuses [OF assms(3)] by blast
qed

lemma demo_due: "due (sv_db fresh_server) fs = fs"
  by (simp add: due_def applied_def fresh_server_def)

abbreviation demo_migrations :: "migration list" where
  "demo_migrations \<equiv> [(''1'', ''1_a.sql'', Inr ''1_a.sql''), (''2'', ''2_b.sql'', Inr ''2_b.sql'')]"

lemma demo_upgrade:
  "\<exists>w'. apply_pending (demo_runner [''2_b.sql'', ''1_a.sql'']) ''db'' 60 (at_start fresh_server) = (Inr [''1'', ''2''], w') \<and>
     sv_db (w_db w') = upgraded (sv_db fresh_server) demo_migrations [''1_a.sql'', ''2_b.sql'']"
proof -
  let ?R = "demo_runner [''2_b.sql'', ''1_a.sql'']" and ?w = "at_start fresh_server"
  have w: "sv_db (w_db ?w) = sv_db fresh_server" "\<not> sv_other (w_db ?w)" by (simp_all add: new_world_def fresh_server_def)
  obtain w1 where c: "connect ?R ''db'' 60 ?w = (Inr (), w1)" using demo_connect by blast
  from apply_pending_run [OF demo_endpoint c w(2) demo_files] obtain r w' where
    a: "apply_pending ?R ''db'' 60 ?w = (r, w')" and u: "upgrades ?R demo_migrations (sv_db fresh_server) r (sv_db (w_db w'))" unfolding w by auto
  from u obtain dn rest s where *: "demo_migrations = dn @ rest" "res_fold (script ?R) dn [] = Inr s"
    "sv_db (w_db w') = upgraded (sv_db fresh_server) dn s"
    "case r of Inr vs \<Rightarrow> rest = [] \<and> vs = map fst dn | Inl e \<Rightarrow> rest \<noteq> [] \<and> script ?R (hd rest) s = Inl e"
    unfolding upgrades_def demo_due by (auto simp: fresh_server_def)
  have "r \<noteq> Inl e" for e
  proof
    assume "r = Inl e"
    with * have "rest \<noteq> []" "script ?R (hd rest) s = Inl e" by simp_all
    moreover have "hd rest \<in> set demo_migrations" using *(1) \<open>rest \<noteq> []\<close> by (metis Un_iff hd_in_set set_append)
    ultimately show False by (auto simp: script_def demo_runner_def)
  qed
  then obtain vs where r: "r = Inr vs" by (cases r) auto
  with *(1,4) have "dn = demo_migrations" by simp
  moreover from this *(2) have "s = [''1_a.sql'', ''2_b.sql'']" by (simp add: script_def demo_runner_def)
  ultimately show ?thesis using a r *(3,4) by simp
qed

text \<open>Files are ordered by their names, not by their numbers: version 10 runs before version 9.\<close>

lemma textual_order:
  "res_bind (migration_files (demo_runner [''9_a.sql'', ''10_b.sql''])) (\<lambda>fs. Inr (map fst fs)) = Inr [''10'', ''9'']"
  by code_simp

text \<open>Versions of different lengths: the file order and the order of the version texts differ, so the
  check at startup refuses a database that has every migration.\<close>

lemma startup_refuses_upgraded:
  "\<exists>d. applied d = [''10'', ''1''] \<and>
     res_bind (migration_files (demo_runner [''1_a.sql'', ''10_b.sql''])) (\<lambda>fs. Inr (map fst fs)) = Inr [''10'', ''1''] \<and>
     pg_init_db (demo_runner [''1_a.sql'', ''10_b.sql'']) (Inr ()) d \<noteq> Inr ()"
proof -
  let ?d = "\<lparr>pd_versions = Some [''10'', ''1''], pd_schema = [''10_b.sql'', ''1_a.sql''], pd_password = None\<rparr>"
  have "res_ok (pg_init_db (demo_runner [''1_a.sql'', ''10_b.sql'']) (Inr ()) ?d) = False" by code_simp
  moreover have "res_bind (migration_files (demo_runner [''1_a.sql'', ''10_b.sql''])) (\<lambda>fs. Inr (map fst fs)) = Inr [''10'', ''1'']"
    by code_simp
  moreover have "applied ?d = [''10'', ''1'']" by (simp add: applied_def)
  ultimately show ?thesis by (intro exI [of _ ?d]) auto
qed

text \<open>Two files with one version: the second fails on the first run, and is not pending afterwards.\<close>

lemma duplicate_version_skipped:
  assumes "applied d = [''1'']"
  shows "due d [(''1'', ''1_a.sql'', Inr ''A''), (''1'', ''1_b.sql'', Inr ''B'')] = []" and
    "pd_versions d = Some [''1''] \<Longrightarrow> insert_version ''1'' d = Inl (Exc ''UniqueViolation'' OtherExc ''duplicate key value'' None None)"
  using assms by (simp_all add: due_def insert_version_def)

end
