(* ===== verification/Schema.thy ===== *)
theory Schema
  imports Models
begin

text \<open>
  \<open>init_db\<close> of \<open>app/sqlite_store.py\<close>: the schema script and the columns added to files that an
  older version created. A file holds tables, by name, of columns and rows; \<open>CREATE ... IF NOT
  EXISTS\<close>, \<open>CREATE INDEX\<close> and \<open>ALTER TABLE ... ADD COLUMN\<close> are modelled as SQLite defines them:
  an existing table is left alone, an index needs its column, and a new column has its default in
  every old row. The lemmas show that a file of any older version becomes one with every column of
  the schema, that no value of a row is lost, and that a second run changes nothing.
\<close>

section \<open>A database file\<close>

datatype sql_value = SNull | SInt int | SReal rat | SText string

type_synonym sql_column = "string \<times> sql_value"

text \<open>A column is its name and its default; the rows of a table map column names to values.\<close>

record sql_table =
  tb_columns :: "sql_column list"
  tb_rows :: "(string, sql_value) dict list"

record sq_file =
  sf_tables :: "(string, sql_table) dict"
  sf_indexes :: "string list"

definition empty_file :: sq_file where
  "empty_file = \<lparr>sf_tables = [], sf_indexes = []\<rparr>"

abbreviation names :: "sql_table \<Rightarrow> string list" where
  "names t \<equiv> map fst (tb_columns t)"

section \<open>Statements\<close>

definition create_table :: "string \<Rightarrow> sql_column list \<Rightarrow> sq_file \<Rightarrow> sq_file result" where
  "create_table name cols f =
     (case map_of (sf_tables f) name of
        Some _ \<Rightarrow> Inr f
      | None \<Rightarrow> Inr (f\<lparr>sf_tables := dict_set name \<lparr>tb_columns = cols, tb_rows = []\<rparr> (sf_tables f)\<rparr>))"

definition operational :: "string \<Rightarrow> 'a result" where
  "operational msg = Inl (Exc ''OperationalError'' OtherExc msg None None)"

definition create_index :: "string \<Rightarrow> string \<Rightarrow> string \<Rightarrow> sq_file \<Rightarrow> sq_file result" where
  "create_index idx name col f =
     (if idx \<in> set (sf_indexes f) then Inr f
      else (case map_of (sf_tables f) name of
          None \<Rightarrow> operational (''no such table: '' @ name)
        | Some t \<Rightarrow> if col \<in> set (names t) then Inr (f\<lparr>sf_indexes := sf_indexes f @ [idx]\<rparr>)
            else operational (''no such column: '' @ col)))"

definition table_info :: "string \<Rightarrow> sq_file \<Rightarrow> string list" where
  "table_info name f = (case map_of (sf_tables f) name of None \<Rightarrow> [] | Some t \<Rightarrow> names t)"

definition add_column :: "string \<Rightarrow> sql_column \<Rightarrow> sq_file \<Rightarrow> sq_file result" where
  "add_column name c f =
     (case map_of (sf_tables f) name of
        None \<Rightarrow> operational (''no such table: '' @ name)
      | Some t \<Rightarrow>
          if fst c \<in> set (names t) then operational (''duplicate column name: '' @ fst c)
          else Inr (f\<lparr>sf_tables := dict_set name
            \<lparr>tb_columns = tb_columns t @ [c], tb_rows = map (\<lambda>r. r @ [c]) (tb_rows t)\<rparr> (sf_tables f)\<rparr>))"

section \<open>init_db\<close>

text \<open>The default of a column without one is null.\<close>

definition feed_columns :: "sql_column list" where
  "feed_columns =
     [(''id'', SNull), (''title'', SNull), (''summary'', SText []), (''url'', SText []), (''source'', SText []),
      (''source_url'', SText []), (''published'', SNull), (''tags'', SText ''[]''), (''cves'', SText ''[]''),
      (''severity'', SText ''unknown''), (''urgent'', SInt 0), (''kev'', SInt 0), (''epss_score'', SNull),
      (''is_sample'', SInt 0), (''osv_affected'', SText ''[]''), (''osv_fixed'', SText ''[]''), (''osv_severity'', SNull),
      (''patch_status'', SText ''unknown''), (''first_seen'', SNull), (''last_seen'', SNull)]"

definition alerted_columns :: "sql_column list" where
  "alerted_columns = [(''item_id'', SNull), (''created_at'', SNull)]"

definition state_columns :: "sql_column list" where
  "state_columns = map (\<lambda>n. (n, SNull))
     [''source_id'', ''etag'', ''last_modified'', ''last_fetched_at'', ''last_ok_at'', ''last_error'', ''last_payload'']"

definition run_schema :: "sq_file \<Rightarrow> sq_file result" where
  "run_schema f =
     res_bind (create_table ''feed_items'' feed_columns f) (\<lambda>f.
     res_bind (create_index ''idx_feed_items_published'' ''feed_items'' ''published'' f) (\<lambda>f.
     res_bind (create_index ''idx_feed_items_urgent'' ''feed_items'' ''urgent'' f) (\<lambda>f.
     res_bind (create_table ''alerted_items'' alerted_columns f) (\<lambda>f.
     create_table ''source_state'' state_columns f))))"

text \<open>The columns of later versions, in the order of the \<open>if\<close> statements.\<close>

definition later_columns :: "sql_column list" where
  "later_columns =
     [(''is_sample'', SInt 0), (''kev'', SInt 0), (''epss_score'', SNull), (''osv_affected'', SText ''[]''),
      (''osv_fixed'', SText ''[]''), (''osv_severity'', SNull), (''patch_status'', SText ''unknown'')]"

definition sq_init_db :: "sq_file \<Rightarrow> sq_file result" where
  "sq_init_db f =
     res_bind (run_schema f) (\<lambda>f.
     let columns = table_info ''feed_items'' f in
     res_fold (\<lambda>c f. if fst c \<notin> set columns then add_column ''feed_items'' c f else Inr f) later_columns f)"

section \<open>What init_db leaves\<close>

text \<open>The columns every version had.\<close>

definition first_columns :: "string list" where
  "first_columns = [''id'', ''title'', ''summary'', ''url'', ''source'', ''source_url'', ''published'', ''tags'', ''cves'',
     ''severity'', ''urgent'', ''first_seen'', ''last_seen'']"

text \<open>A file of this or an older version: its feed table, if any, has the first columns, none twice, and its
  rows have exactly the columns of the table; the other two tables are complete.\<close>

definition file_ok :: "sq_file \<Rightarrow> bool" where
  "file_ok f \<longleftrightarrow> dict_ok (sf_tables f) \<and>
     (\<forall>t. map_of (sf_tables f) ''feed_items'' = Some t \<longrightarrow> set first_columns \<subseteq> set (names t) \<and> distinct (names t) \<and>
        (\<forall>r \<in> set (tb_rows t). map fst r = names t)) \<and>
     (\<forall>t. map_of (sf_tables f) ''alerted_items'' = Some t \<longrightarrow> set (map fst alerted_columns) \<subseteq> set (names t)) \<and>
     (\<forall>t. map_of (sf_tables f) ''source_state'' = Some t \<longrightarrow> set (map fst state_columns) \<subseteq> set (names t))"

text \<open>The columns of \<open>later_columns\<close> a table lacks are appended to it.\<close>

definition extended :: "sql_table \<Rightarrow> sql_table" where
  "extended t =
     (let new = filter (\<lambda>c. fst c \<notin> set (names t)) later_columns
      in \<lparr>tb_columns = tb_columns t @ new, tb_rows = map (\<lambda>r. r @ new) (tb_rows t)\<rparr>)"

lemma add_columns:
  assumes "map_of (sf_tables f) nm = Some t" "distinct (map fst cs)" "\<And>c. c \<in> set cs \<Longrightarrow> fst c \<notin> set cols \<Longrightarrow> fst c \<notin> set (names t)"
    "dict_ok (sf_tables f)"
  shows "res_fold (\<lambda>c f. if fst c \<notin> set cols then add_column nm c f else Inr f) cs f =
    (let new = filter (\<lambda>c. fst c \<notin> set cols) cs in
     Inr (if new = [] then f else f\<lparr>sf_tables := dict_set nm \<lparr>tb_columns = tb_columns t @ new, tb_rows = map (\<lambda>r. r @ new) (tb_rows t)\<rparr> (sf_tables f)\<rparr>))"
  using assms
proof (induction cs arbitrary: f t)
  case (Cons c cs)
  show ?case
  proof (cases "fst c \<in> set cols")
    case True
    with Cons.IH [OF Cons.prems(1) _ _ Cons.prems(4)] Cons.prems(2,3) show ?thesis by simp
  next
    case False
    let ?t = "\<lparr>tb_columns = tb_columns t @ [c], tb_rows = map (\<lambda>r. r @ [c]) (tb_rows t)\<rparr>"
    let ?f = "f\<lparr>sf_tables := dict_set nm ?t (sf_tables f)\<rparr>"
    have nt: "fst c \<notin> set (names t)" using Cons.prems(3) [of c] False by simp
    have "res_fold (\<lambda>c f. if fst c \<notin> set cols then add_column nm c f else Inr f) cs ?f =
      (let new = filter (\<lambda>c. fst c \<notin> set cols) cs in
       Inr (if new = [] then ?f else ?f\<lparr>sf_tables := dict_set nm \<lparr>tb_columns = tb_columns ?t @ new, tb_rows = map (\<lambda>r. r @ new) (tb_rows ?t)\<rparr> (sf_tables ?f)\<rparr>))"
    proof (rule Cons.IH)
      fix d assume "d \<in> set cs" "fst d \<notin> set cols"
      with Cons.prems(2,3) show "fst d \<notin> set (names ?t)" by (auto intro: rev_image_eqI)
    qed (use Cons.prems in \<open>simp_all\<close>)
    then show ?thesis using False nt Cons.prems(1)
      by (simp add: add_column_def Let_def comp_def)
  qed
qed simp

definition table_or :: "sql_column list \<Rightarrow> sq_file \<Rightarrow> string \<Rightarrow> sql_table" where
  "table_or cols f nm = (case map_of (sf_tables f) nm of None \<Rightarrow> \<lparr>tb_columns = cols, tb_rows = []\<rparr> | Some t \<Rightarrow> t)"

lemma create_table_run:
  "\<exists>f'. create_table nm cols f = Inr f' \<and> map_of (sf_tables f') = (map_of (sf_tables f))(nm \<mapsto> table_or cols f nm) \<and>
     sf_indexes f' = sf_indexes f \<and> (dict_ok (sf_tables f) \<longrightarrow> dict_ok (sf_tables f'))"
  by (auto simp: create_table_def table_or_def fun_upd_idem split: option.split)

lemma create_index_run:
  assumes "map_of (sf_tables f) nm = Some t" "col \<in> set (names t)"
  shows "\<exists>f'. create_index idx nm col f = Inr f' \<and> sf_tables f' = sf_tables f \<and> set (sf_indexes f') = insert idx (set (sf_indexes f))"
  using assms by (auto simp: create_index_def)

lemma run_schema_run:
  assumes "file_ok f"
  shows "\<exists>f'. run_schema f = Inr f' \<and> dict_ok (sf_tables f') \<and>
     map_of (sf_tables f') = (map_of (sf_tables f))(''feed_items'' \<mapsto> table_or feed_columns f ''feed_items'',
       ''alerted_items'' \<mapsto> table_or alerted_columns f ''alerted_items'', ''source_state'' \<mapsto> table_or state_columns f ''source_state'') \<and>
     {''idx_feed_items_published'', ''idx_feed_items_urgent''} \<subseteq> set (sf_indexes f')"
proof -
  let ?t = "table_or feed_columns f ''feed_items''"
  have ok: "dict_ok (sf_tables f)" using assms by (simp add: file_ok_def)
  have cols: "''published'' \<in> set (names ?t)" "''urgent'' \<in> set (names ?t)"
    using assms by (auto simp: file_ok_def table_or_def feed_columns_def first_columns_def split: option.split)
  obtain f1 where f1: "create_table ''feed_items'' feed_columns f = Inr f1"
    "map_of (sf_tables f1) = (map_of (sf_tables f))(''feed_items'' \<mapsto> ?t)" "dict_ok (sf_tables f1)"
    using create_table_run [of "''feed_items''" feed_columns f] ok by blast
  obtain f2 where f2: "create_index ''idx_feed_items_published'' ''feed_items'' ''published'' f1 = Inr f2"
    "sf_tables f2 = sf_tables f1" "''idx_feed_items_published'' \<in> set (sf_indexes f2)"
    using create_index_run [of f1 "''feed_items''" ?t "''published''" "''idx_feed_items_published''"] cols f1(2) by auto
  obtain f3 where f3: "create_index ''idx_feed_items_urgent'' ''feed_items'' ''urgent'' f2 = Inr f3"
    "sf_tables f3 = sf_tables f1" "{''idx_feed_items_published'', ''idx_feed_items_urgent''} \<subseteq> set (sf_indexes f3)"
    using create_index_run [of f2 "''feed_items''" ?t "''urgent''" "''idx_feed_items_urgent''"] cols f1(2) f2 by auto
  obtain f4 where f4: "create_table ''alerted_items'' alerted_columns f3 = Inr f4" "sf_indexes f4 = sf_indexes f3"
    "map_of (sf_tables f4) = (map_of (sf_tables f3))(''alerted_items'' \<mapsto> table_or alerted_columns f3 ''alerted_items'')"
    "dict_ok (sf_tables f4)"
    using create_table_run [of "''alerted_items''" alerted_columns f3] f3(2) f1(3) by auto
  obtain f5 where f5: "create_table ''source_state'' state_columns f4 = Inr f5" "sf_indexes f5 = sf_indexes f4"
    "map_of (sf_tables f5) = (map_of (sf_tables f4))(''source_state'' \<mapsto> table_or state_columns f4 ''source_state'')"
    "dict_ok (sf_tables f5)"
    using create_table_run [of "''source_state''" state_columns f4] f4(4) by auto
  have "table_or alerted_columns f3 ''alerted_items'' = table_or alerted_columns f ''alerted_items''"
    "table_or state_columns f4 ''source_state'' = table_or state_columns f ''source_state''"
    using f1(2) f3(2) f4(3) by (simp_all add: table_or_def)
  then show ?thesis using f1 f2 f3 f4 f5 by (simp add: run_schema_def)
qed

lemma later_first: "fst ` set later_columns \<inter> set first_columns = {}" "distinct (map fst later_columns)"
  "fst ` set feed_columns = set first_columns \<union> fst ` set later_columns" "distinct (map fst feed_columns)"
  by (auto simp: later_columns_def first_columns_def feed_columns_def)

lemma extended_names: "fst ` set (tb_columns (extended t)) = fst ` set (tb_columns t) \<union> fst ` set later_columns"
  by (auto simp: extended_def Let_def)

lemma extended_ok:
  assumes "distinct (names t)" "\<forall>r \<in> set (tb_rows t). map fst r = names t"
  shows "distinct (names (extended t)) \<and> (\<forall>r \<in> set (tb_rows (extended t)). map fst r = names (extended t))"
proof -
  let ?new = "filter (\<lambda>c. fst c \<notin> set (names t)) later_columns"
  have "distinct (map fst ?new)" using later_first(2) by (rule distinct_map_filter)
  moreover have "set (names t) \<inter> set (map fst ?new) = {}" by (auto simp: image_iff)
  ultimately have "distinct (names (extended t))" using assms(1) by (simp add: extended_def Let_def)
  with assms(2) show ?thesis by (simp add: extended_def Let_def)
qed

lemma extended_same: "fst ` set later_columns \<subseteq> set (names t) \<Longrightarrow> extended t = t"
proof -
  assume "fst ` set later_columns \<subseteq> set (names t)"
  then have "filter (\<lambda>c. fst c \<notin> set (names t)) later_columns = []" by (auto simp: filter_empty_conv)
  then show ?thesis by (simp add: extended_def Let_def)
qed

text \<open>The file after \<open>init_db\<close>.\<close>

lemma sq_init_db_run:
  assumes "file_ok f"
  shows "\<exists>f'. sq_init_db f = Inr f' \<and> file_ok f' \<and>
     map_of (sf_tables f') = (map_of (sf_tables f))(''feed_items'' \<mapsto> extended (table_or feed_columns f ''feed_items''),
       ''alerted_items'' \<mapsto> table_or alerted_columns f ''alerted_items'', ''source_state'' \<mapsto> table_or state_columns f ''source_state'') \<and>
     {''idx_feed_items_published'', ''idx_feed_items_urgent''} \<subseteq> set (sf_indexes f')"
proof -
  let ?t = "table_or feed_columns f ''feed_items''"
  obtain f1 where f1: "run_schema f = Inr f1" "dict_ok (sf_tables f1)"
    "map_of (sf_tables f1) = (map_of (sf_tables f))(''feed_items'' \<mapsto> ?t,
       ''alerted_items'' \<mapsto> table_or alerted_columns f ''alerted_items'', ''source_state'' \<mapsto> table_or state_columns f ''source_state'')"
    "{''idx_feed_items_published'', ''idx_feed_items_urgent''} \<subseteq> set (sf_indexes f1)"
    using run_schema_run [OF assms] by blast
  have ft: "map_of (sf_tables f1) ''feed_items'' = Some ?t" by (simp add: f1(3))
  have info: "table_info ''feed_items'' f1 = names ?t" by (simp add: table_info_def ft)
  have t: "set first_columns \<subseteq> set (names ?t) \<and> distinct (names ?t) \<and> (\<forall>r \<in> set (tb_rows ?t). map fst r = names ?t)"
    using assms later_first(3,4) by (auto simp: table_or_def file_ok_def split: option.split)
  let ?new = "filter (\<lambda>c. fst c \<notin> set (names ?t)) later_columns"
  let ?f = "if ?new = [] then f1 else f1\<lparr>sf_tables := dict_set ''feed_items'' (extended ?t) (sf_tables f1)\<rparr>"
  have run: "sq_init_db f = Inr ?f"
    using add_columns [OF ft later_first(2) _ f1(2), of "names ?t"] f1(1)
    by (simp add: sq_init_db_def info extended_def Let_def)
  have same: "?new = [] \<Longrightarrow> extended ?t = ?t" by (rule extended_same) (auto simp: filter_empty_conv)
  obtain f' where f': "sq_init_db f = Inr f'" "dict_ok (sf_tables f')" "sf_indexes f' = sf_indexes f1"
    "map_of (sf_tables f') = (map_of (sf_tables f1))(''feed_items'' \<mapsto> extended ?t)"
  proof
    show "dict_ok (sf_tables ?f)" using f1(2) by simp
    show "map_of (sf_tables ?f) = (map_of (sf_tables f1))(''feed_items'' \<mapsto> extended ?t)"
      using same ft by (simp add: fun_upd_idem)
  qed (use run in simp_all)
  then have tables: "map_of (sf_tables f') = (map_of (sf_tables f))(''feed_items'' \<mapsto> extended ?t,
       ''alerted_items'' \<mapsto> table_or alerted_columns f ''alerted_items'', ''source_state'' \<mapsto> table_or state_columns f ''source_state'')"
    by (simp add: f1(3) fun_upd_twist)
  have cols: "set first_columns \<subseteq> fst ` set (tb_columns (extended ?t))" using t by (auto simp: extended_names)
  have others: "fst ` set alerted_columns \<subseteq> fst ` set (tb_columns (table_or alerted_columns f ''alerted_items''))"
    "fst ` set state_columns \<subseteq> fst ` set (tb_columns (table_or state_columns f ''source_state''))"
    using assms by (auto simp: table_or_def file_ok_def split: option.split)
  have "file_ok f'"
    unfolding file_ok_def tables using extended_ok [of ?t] t f'(2) cols others by simp
  then show ?thesis using f'(1,3) tables f1(4) by metis
qed

text \<open>A complete file stays as it is.\<close>

lemma sq_init_db_complete:
  assumes "map_of (sf_tables f) ''feed_items'' = Some t" "fst ` set later_columns \<subseteq> set (names t)"
    "map_of (sf_tables f) ''alerted_items'' \<noteq> None" "map_of (sf_tables f) ''source_state'' \<noteq> None"
    "{''idx_feed_items_published'', ''idx_feed_items_urgent''} \<subseteq> set (sf_indexes f)"
  shows "sq_init_db f = Inr f"
proof -
  have "run_schema f = Inr f"
    using assms(1,3-5) by (auto simp: run_schema_def create_table_def create_index_def)
  moreover have "res_fold (\<lambda>c f. if fst c \<notin> set (names t) then add_column ''feed_items'' c f else Inr f) cs f = Inr f"
    if "fst ` set cs \<subseteq> set (names t)" for cs
    using that by (induction cs) auto
  ultimately show ?thesis using assms(1,2) by (simp add: sq_init_db_def table_info_def)
qed

section \<open>Properties\<close>

text \<open>C30. \<open>init_db\<close> makes a file of this or an older version, or no file, complete and cannot fail on it: all
  three tables are there, the feed table has every column the queries use, its rows keep their
  values and get the defaults of the columns they lacked, other tables are left alone, and running
  it again changes nothing.\<close>

theorem init_db_completes:
  assumes "file_ok f"
  shows "\<exists>f' t'. sq_init_db f = Inr f' \<and> file_ok f' \<and> sq_init_db f' = Inr f' \<and>
    map_of (sf_tables f') ''feed_items'' = Some t' \<and> set (names t') = fst ` set feed_columns \<union> set (table_info ''feed_items'' f) \<and>
    tb_rows t' = map (\<lambda>r. r @ filter (\<lambda>c. fst c \<notin> fst ` set r) later_columns)
      (case map_of (sf_tables f) ''feed_items'' of None \<Rightarrow> [] | Some t \<Rightarrow> tb_rows t) \<and>
    map_of (sf_tables f') ''alerted_items'' \<noteq> None \<and> map_of (sf_tables f') ''source_state'' \<noteq> None \<and>
    (\<forall>n t. map_of (sf_tables f) n = Some t \<and> n \<noteq> ''feed_items'' \<longrightarrow> map_of (sf_tables f') n = Some t)"
proof -
  let ?t = "table_or feed_columns f ''feed_items''"
  obtain f' where f': "sq_init_db f = Inr f'" "file_ok f'"
    "map_of (sf_tables f') = (map_of (sf_tables f))(''feed_items'' \<mapsto> extended ?t,
       ''alerted_items'' \<mapsto> table_or alerted_columns f ''alerted_items'', ''source_state'' \<mapsto> table_or state_columns f ''source_state'')"
    "{''idx_feed_items_published'', ''idx_feed_items_urgent''} \<subseteq> set (sf_indexes f')"
    using sq_init_db_run [OF assms] by blast
  have t: "set first_columns \<subseteq> set (names ?t)" "\<forall>r \<in> set (tb_rows ?t). map fst r = names ?t"
    using assms later_first(3) by (auto simp: table_or_def file_ok_def split: option.split)
  have again: "sq_init_db f' = Inr f'"
    by (rule sq_init_db_complete [where t = "extended ?t"]) (use f' in \<open>simp_all add: extended_names\<close>)
  have names: "fst ` set (tb_columns (extended ?t)) = fst ` set feed_columns \<union> set (table_info ''feed_items'' f)"
  proof (cases "map_of (sf_tables f) ''feed_items''")
    case None
    then show ?thesis using later_first(3) by (simp add: extended_names table_info_def table_or_def)
  next
    case (Some u)
    then have u: "?t = u" "set (table_info ''feed_items'' f) = fst ` set (tb_columns u)"
      by (simp_all add: table_or_def table_info_def)
    have "set first_columns \<subseteq> fst ` set (tb_columns u)" using t(1) unfolding u(1) by simp
    then show ?thesis unfolding u extended_names later_first(3) by blast
  qed
  have "fst ` set r = set (names ?t)" if "r \<in> set (tb_rows ?t)" for r
  proof -
    from t(2) that have "map fst r = names ?t" by blast
    from arg_cong [OF this, of set] show ?thesis by simp
  qed
  then have "tb_rows (extended ?t) = map (\<lambda>r. r @ filter (\<lambda>c. fst c \<notin> fst ` set r) later_columns) (tb_rows ?t)"
    by (simp add: extended_def Let_def)
  moreover have "tb_rows ?t = (case map_of (sf_tables f) ''feed_items'' of None \<Rightarrow> [] | Some t \<Rightarrow> tb_rows t)"
    by (simp add: table_or_def split: option.split)
  ultimately have rows: "tb_rows (extended ?t) = map (\<lambda>r. r @ filter (\<lambda>c. fst c \<notin> fst ` set r) later_columns)
      (case map_of (sf_tables f) ''feed_items'' of None \<Rightarrow> [] | Some t \<Rightarrow> tb_rows t)" by simp
  show ?thesis
  proof (intro exI [of _ f'] exI [of _ "extended ?t"] conjI)
    show "\<forall>n t. map_of (sf_tables f) n = Some t \<and> n \<noteq> ''feed_items'' \<longrightarrow> map_of (sf_tables f') n = Some t"
      by (simp add: f'(3) table_or_def)
  qed (simp_all add: f'(1,2) again names rows, simp_all add: f'(3))
qed

definition old_file :: sq_file where
  "old_file = \<lparr>sf_tables = [(''feed_items'', \<lparr>tb_columns = map (\<lambda>n. (n, SNull)) first_columns,
     tb_rows = [map (\<lambda>n. (n, SText n)) first_columns]\<rparr>)], sf_indexes = []\<rparr>"

lemma init_db_completes_witness: "\<exists>f' t'. sq_init_db old_file = Inr f' \<and> file_ok f' \<and> map_of (sf_tables f') ''feed_items'' = Some t'"
proof -
  have "file_ok old_file" by (simp add: file_ok_def old_file_def first_columns_def dict_ok_def)
  from init_db_completes [OF this] show ?thesis by blast
qed

end
