(* ===== verification/Fallback.thy ===== *)
theory Fallback
  imports Pipeline
begin

text \<open>
  The sample feed. When every upstream service refuses its request, \<open>fetch_all\<close> falls back to the
  sample items, and the refresh archives them. The sections follow one refresh through the
  components: the sources (\<open>app/fetcher.py\<close>), enrichment and the archive (\<open>app/pipeline.py\<close>). The
  lemmas are proved from the contract \<open>storage\<close>, so they hold for each adapter and for the facade.
\<close>

section \<open>Every source refuses\<close>

lemma is_due_later: "is_due src st now \<Longrightarrow> now \<le> t \<Longrightarrow> is_due src st t"
  by (auto simp: is_due_def split: if_splits option.splits)

text \<open>One error line per failed source, starting with its id.\<close>

definition names_source :: "source \<Rightarrow> string \<Rightarrow> bool" where
  "names_source src line \<longleftrightarrow> prefix (src_id src @ '': '') line"

lemma describe_names:
  assumes "urlsplit (src_url src) \<noteq> None"
  obtains line where "describe_fetch_error src e = Inr line" "names_source src line"
proof -
  from assms obtain host where "source_host src = Inr host"
    by (auto simp: source_host_def)
  then show ?thesis by (intro that) (auto simp: describe_fetch_error_def Let_def names_source_def prefix_def)
qed

lemma collect_failed:
  "list_all (\<lambda>(src, r). urlsplit (src_url src) \<noteq> None \<and> isl r) rs \<Longrightarrow>
   \<exists>errors. collect rs = Inr ([], 0, errors) \<and> list_all2 names_source (map fst rs) errors"
proof (induction rs)
  case (Cons p rs)
  obtain src e where p: "p = (src, Inl e)" "urlsplit (src_url src) \<noteq> None" using Cons.prems by (auto simp: isl_def)
  obtain line where "describe_fetch_error src e = Inr line" "names_source src line" by (rule describe_names [OF p(2)])
  with Cons p show ?case by auto
qed simp

context storage
begin

lemma source_refused:
  assumes "refusing E" "src \<in> set all_sources" "ok (w_db w)" "at_rest w" "0 \<le> w_now w"
    "is_due src (ar_states (abs (w_db w)) (src_id src)) (w_now w)" "dt_range (w_now w + outage_delay)"
  shows "\<exists>e w'. fetch_source B E src w = (Inl e, w') \<and> ok (w_db w') \<and> at_rest w' \<and>
    w_now w \<le> w_now w' \<and> w_now w' \<le> w_now w + outage_delay \<and>
    ar_items (abs (w_db w')) = ar_items (abs (w_db w)) \<and> ar_alerted (abs (w_db w')) = ar_alerted (abs (w_db w)) \<and>
    (\<forall>sid. sid \<noteq> src_id src \<longrightarrow> ar_states (abs (w_db w')) sid = ar_states (abs (w_db w)) sid) \<and>
    fetch_source_once B E src w = (Inl e, w')"
proof -
  from once_breaks [OF denied.breaks_kind [OF assms(1,2)] assms(3,4,6)] obtain e w1 etag lm err where
    o: "fetch_source_once B E src w = (Inl e, snd (save_state B src etag lm None False err w1))" "is_status e" "at_rest w1"
      "w_db w1 = w_db w" "w_now w \<le> w_now w1" "w_now w1 \<le> w_now w + nvd_stagger_seconds * us_sec" by blast
  have d: "dt_range (w_now w1)"
    using assms(5) o(5,6) by (intro dt_range_before [OF assms(7)]) (auto simp: outage_delay_def fetch_retry_delay_def)
  have "ok (w_db w1)" using o(4) assms(3) by simp
  from save_ok [OF this d, of src etag lm None False err] obtain db' where
    s: "save_state B src etag lm None False err w1 = (Inr (), w1\<lparr>w_db := db'\<rparr>)" "ok db'"
      "abs db' = ar_set_state (w_now w1) (src_id src) (fetch_write (w_now w1) etag lm None False err) (abs (w_db w))"
    unfolding o(4) by blast
  have "fetch_source B E src w = (Inl e, w1\<lparr>w_db := db'\<rparr>)"
    using o(1) s(1) status_no_transport [OF o(2)]
    by (simp add: fetch_source_def fetch_attempts_def numeral_2_eq_2 catch_Inl raise_def)
  then show ?thesis
    using o(1,3,5,6) s by (auto simp: at_rest_def ar_set_state_def outage_delay_def fetch_retry_delay_def)
qed

lemma all_refused:
  assumes "refusing E" "set srcs \<subseteq> set all_sources" "distinct (map src_id srcs)" "ok (w_db w)" "at_rest w" "0 \<le> w_now w"
    "\<And>src. src \<in> set srcs \<Longrightarrow> is_due src (ar_states (abs (w_db w)) (src_id src)) (w_now w)"
    "dt_range (w_now w + int (length srcs) * outage_delay)"
  shows "\<exists>rs w'. io_map (\<lambda>src. bind (attempt (fetch_source B E src)) (\<lambda>r. ret (src, r))) srcs w = (Inr rs, w') \<and>
    map fst rs = srcs \<and> list_all (\<lambda>p. isl (snd p)) rs \<and> ok (w_db w') \<and>
    ar_items (abs (w_db w')) = ar_items (abs (w_db w)) \<and> ar_alerted (abs (w_db w')) = ar_alerted (abs (w_db w)) \<and>
    w_now w \<le> w_now w' \<and> w_now w' \<le> w_now w + int (length srcs) * outage_delay"
  using assms(2-8)
proof (induction srcs arbitrary: w)
  case (Cons src srcs)
  let ?one = "\<lambda>src. bind (attempt (fetch_source B E src)) (\<lambda>r. ret (src, r))"
  have d0: "0 \<le> outage_delay" by (simp add: outage_delay_def nvd_stagger_seconds_def us_sec_def fetch_retry_delay_def)
  have split: "int (length (src # srcs)) * outage_delay = outage_delay + int (length srcs) * outage_delay"
    by (simp add: algebra_simps)
  have rest: "0 \<le> int (length srcs) * outage_delay" using d0 by simp
  have dt: "dt_range (w_now w + outage_delay)"
    using Cons.prems(5) rest d0 by (intro dt_range_before [OF Cons.prems(7)[unfolded split]]) auto
  have src: "src \<in> set all_sources" "is_due src (ar_states (abs (w_db w)) (src_id src)) (w_now w)"
    using Cons.prems(1,6) by auto
  from source_refused [OF assms(1) src(1) Cons.prems(3-5) src(2) dt] obtain e w1 where
    w1: "fetch_source B E src w = (Inl e, w1)" "ok (w_db w1)" "at_rest w1" "w_now w \<le> w_now w1" "w_now w1 \<le> w_now w + outage_delay"
      "ar_items (abs (w_db w1)) = ar_items (abs (w_db w))" "ar_alerted (abs (w_db w1)) = ar_alerted (abs (w_db w))"
      "\<And>sid. sid \<noteq> src_id src \<Longrightarrow> ar_states (abs (w_db w1)) sid = ar_states (abs (w_db w)) sid" by blast
  have due: "is_due s (ar_states (abs (w_db w1)) (src_id s)) (w_now w1)" if "s \<in> set srcs" for s
  proof -
    have "src_id s \<noteq> src_id src" using Cons.prems(2) imageI [OF that, of src_id] by auto
    then show ?thesis using w1(4,8) Cons.prems(6) [of s] that by (auto intro: is_due_later)
  qed
  have "dt_range (w_now w1 + int (length srcs) * outage_delay)"
    using Cons.prems(5) w1(4,5) rest by (intro dt_range_before [OF Cons.prems(7)[unfolded split]]) auto
  with Cons.IH [OF _ _ w1(2,3) _ due] Cons.prems(1,2,5) w1(4) obtain rs w2 where
    w2: "io_map ?one srcs w1 = (Inr rs, w2)" "map fst rs = srcs" "list_all (\<lambda>p. isl (snd p)) rs" "ok (w_db w2)"
      "ar_items (abs (w_db w2)) = ar_items (abs (w_db w1))" "ar_alerted (abs (w_db w2)) = ar_alerted (abs (w_db w1))"
      "w_now w1 \<le> w_now w2" "w_now w2 \<le> w_now w1 + int (length srcs) * outage_delay" by auto
  have "?one src w = (Inr (src, Inl e), w1)" using w1(1) by (simp add: bind_def attempt_def run_ret)
  from io_map_run [where f = ?one, OF this w2(1)] w1(4-7) w2(2-8) show ?case
    unfolding split by (intro exI [of _ "(src, Inl e) # rs"] exI [of _ w2]) simp
qed (simp add: run_ret)

lemma fetch_all_refused:
  assumes "refusing E" "ok (w_db w)" "at_rest w" "0 \<le> w_now w" "dt_range (w_now w + 60 * us_sec)"
    "\<And>src. src \<in> set all_sources \<Longrightarrow> is_due src (ar_states (abs (w_db w)) (src_id src)) (w_now w)"
  shows "\<exists>errors w'. fetch_all B E w = (Inr (dedupe (sample_items (sha1 E) (utc (w_now w'))), errors), w') \<and>
    list_all2 names_source all_sources errors \<and> ok (w_db w') \<and> ar_items (abs (w_db w')) = ar_items (abs (w_db w)) \<and>
    ar_alerted (abs (w_db w')) = ar_alerted (abs (w_db w)) \<and> w_now w \<le> w_now w' \<and> w_now w' \<le> w_now w + 60 * us_sec"
proof -
  have n: "length all_sources = 19" by (simp add: source_defs)
  have d: "0 \<le> int (length all_sources) * outage_delay" "int (length all_sources) * outage_delay \<le> 60 * us_sec"
    by (simp_all add: n outage_delay_def nvd_stagger_seconds_def us_sec_def fetch_retry_delay_def)
  have "dt_range (w_now w + int (length all_sources) * outage_delay)"
    using assms(4) d by (intro dt_range_before [OF assms(5)]) linarith+
  from all_refused [OF assms(1) subset_refl distinct_source_ids [unfolded source_ids_def] assms(2-4) assms(6) this] obtain rs w' where
    r: "io_map (\<lambda>src. bind (attempt (fetch_source B E src)) (\<lambda>r. ret (src, r))) all_sources w = (Inr rs, w')"
      "map fst rs = all_sources" "list_all (\<lambda>p. isl (snd p)) rs" "ok (w_db w')" "ar_items (abs (w_db w')) = ar_items (abs (w_db w))"
      "ar_alerted (abs (w_db w')) = ar_alerted (abs (w_db w))"
      "w_now w \<le> w_now w'" "w_now w' \<le> w_now w + int (length all_sources) * outage_delay" by blast
  have "list_all (\<lambda>p. urlsplit (src_url (fst p)) \<noteq> None) rs"
    using source_hosts unfolding r(2) [symmetric] by (simp add: list.pred_map comp_def)
  with r(3) have "list_all (\<lambda>(src, r). urlsplit (src_url src) \<noteq> None \<and> isl r) rs"
    by (auto simp: list_all_iff)
  from collect_failed [OF this] obtain errors where "collect rs = Inr ([], 0, errors)" "list_all2 names_source all_sources errors"
    unfolding r(2) by blast
  with r d(2) show ?thesis
    by (intro exI [of _ errors] exI [of _ w']) (simp add: fetch_all_def bind_run run_ret with_samples_def)
qed

end

section \<open>The samples through the pipeline\<close>

lemma list_all_dedupe:
  assumes "list_all P items" "\<And>a b. P a \<Longrightarrow> P b \<Longrightarrow> P (merge_item a b)"
  shows "list_all P (dedupe items)"
  unfolding list_all_iff
proof
  fix it assume "it \<in> set (dedupe items)"
  then obtain x xs where x: "filter (\<lambda>y. item_id y = item_id it) items = x # xs" "it = merged x xs"
    unfolding dedupe_in by blast
  then have "set (x # xs) \<subseteq> set items" by (metis filter_is_subset)
  then have "P x" "list_all P xs" using assms(1) by (auto simp: list_all_iff)
  then show "P it" unfolding x(2) by (induction xs arbitrary: x) (auto intro: assms(2))
qed

lemma item_ok_merge: "item_ok a \<Longrightarrow> item_ok b \<Longrightarrow> item_ok (merge_item a b)"
  by (auto simp: item_ok_def published_ok_def merge_item_def)

text \<open>An item of the sample feed that every adapter can store.\<close>

definition stock :: "feed_item \<Rightarrow> bool" where
  "stock it \<longleftrightarrow> item_ok it \<and> is_sample it"

lemma stock_merge: "stock a \<Longrightarrow> stock b \<Longrightarrow> stock (merge_item a b)"
  using item_ok_merge by (auto simp: stock_def merge_item_def)

lemma stock_samples:
  assumes "dt_range now" "2 * us_day \<le> now" shows "list_all stock (sample_items f (utc now))"
proof -
  have "dt_range (now - ago)" if "ago \<le> 2 * us_day" "0 \<le> ago" for ago
    using assms that by (auto simp: dt_range_def)
  then show ?thesis
    by (simp add: sample_items_def sample_item_def new_item_def stock_def item_ok_def published_ok_def instant_def
        plain_tag_def tag_char_def is_digit_def cp_def us_defs)
qed

lemma stock_enrich:
  assumes "enrich E items w = (Inr items', w')" "list_all stock items" shows "list_all stock items'"
proof (rule enrich_keeps [OF assms])
  show "stock (enrich_item kevs epss it)" if "stock it" for kevs epss it
    using that item_ok_enrich by (simp add: stock_def)
  show "stock (osv_item osv it)" if "stock it" for osv it
  proof -
    have "is_sample (fold (add_osv osv) cs it) = is_sample it" for cs
      by (induction cs arbitrary: it) (simp_all add: add_osv_def Let_def split: option.split)
    then show ?thesis using that item_ok_osv by (simp add: stock_def osv_item_def)
  qed
qed

lemma dom_upserts: "dom (ar_items (fold (ar_upsert now) items A)) = dom (ar_items A) \<union> item_id ` set items"
  by (induction items arbitrary: A) (auto simp: ar_upsert_def)

lemma dom_archived: "dom (ar_items (ar_mark now ids A)) = dom (ar_items A)" "dom (ar_items (ar_prune cutoff A)) \<subseteq> dom (ar_items A)"
  by (auto simp: ar_mark_def ar_prune_def Let_def split: option.splits if_splits)

context storage
begin

lemma refresh_refused:
  assumes "refusing E" "ok (w_db w)" "at_rest w" "2 * us_day \<le> w_now w" "dt_range (w_now w + 60 * us_sec)"
    "\<And>src. src \<in> set all_sources \<Longrightarrow> is_due src (ar_states (abs (w_db w)) (src_id src)) (w_now w)"
  shows "\<exists>items w'. refresh_feed B E w = (Inr items, w') \<and> ok (w_db w') \<and> list_all stock items \<and>
    item_id ` set items = item_id ` set (sample_items (sha1 E) (utc 0)) \<and>
    holds (abs (w_db w')) items (w_now w') \<and> list_all2 names_source all_sources (c_errors (w_cache w')) \<and>
    dom (ar_items (abs (w_db w'))) \<subseteq> dom (ar_items (abs (w_db w))) \<union> item_id ` set items \<and>
    w_now w \<le> w_now w' \<and> w_now w' \<le> w_now w + 60 * us_sec"
proof -
  have now: "0 \<le> w_now w" using assms(4) by (simp add: us_day_def)
  from fetch_all_refused [OF assms(1-3) now assms(5,6)] obtain errors w0 where
    f: "fetch_all B E w = (Inr (dedupe (sample_items (sha1 E) (utc (w_now w0))), errors), w0)"
      "list_all2 names_source all_sources errors" "ar_items (abs (w_db w0)) = ar_items (abs (w_db w))"
      "w_now w \<le> w_now w0" "w_now w0 \<le> w_now w + 60 * us_sec" by blast
  obtain items w' where r: "refresh_feed B E w = (Inr items, w')" using no_throwE [OF no_throw_refresh] .
  have clock: "w_now w' = w_now w0" using refresh_clock [OF r f(1)] by simp
  have d: "dt_range (w_now w0)" using now f(4,5) by (intro dt_range_before [OF assms(5)]) auto
  have "2 * us_day \<le> w_now w0" using assms(4) f(4) by linarith
  with d have s: "list_all stock (dedupe (sample_items (sha1 E) (utc (w_now w0))))"
    by (intro list_all_dedupe stock_merge stock_samples)
  obtain items1 w1 where e: "enrich E (dedupe (sample_items (sha1 E) (utc (w_now w0)))) w0 = (Inr items1, w1)"
    using no_throwE [OF no_throw_enrich] .
  have "items1 = items"
    by (rule refresh_steps [of B E w]) (use f(1) e r in auto)
  then have stock: "list_all stock items" using stock_enrich [OF e s] by simp
  then have ok: "list_all item_ok items" by (simp add: list_all_iff stock_def)
  have ids: "item_id ` set items = item_id ` set (sample_items (sha1 E) (utc 0))"
  proof -
    have "item_id ` set items = item_id ` set (dedupe (sample_items (sha1 E) (utc (w_now w0))))"
      using refresh_clock [OF r f(1)] by (metis list.set_map)
    also have "\<dots> = item_id ` set (sample_items (sha1 E) (utc 0))"
      unfolding dedupe_ids by (simp add: sample_items_def sample_item_def new_item_def)
    finally show ?thesis .
  qed
  obtain cutoff al A where
    a: "A = fold (ar_upsert (w_now w')) items (abs (w_db w0))" "ok (w_db w')"
      "abs (w_db w') = ar_mark (w_now w') al A \<or> abs (w_db w') = ar_mark (w_now w') al (ar_prune cutoff A)"
      "c_errors (w_cache w') = errors"
    by (rule refresh_archive [OF r assms(2) now d [folded clock] ok]) (use f(1) in auto)
  have "dom (ar_items A) \<subseteq> dom (ar_items (abs (w_db w))) \<union> item_id ` set items"
    unfolding a(1) by (simp add: dom_upserts f(3))
  moreover have "dom (ar_items (abs (w_db w'))) \<subseteq> dom (ar_items A)"
    using a(3) by (elim disjE) (simp_all add: dom_archived)
  ultimately have "dom (ar_items (abs (w_db w'))) \<subseteq> dom (ar_items (abs (w_db w))) \<union> item_id ` set items" by blast
  with refresh_holds [OF r assms(2) now d [folded clock] ok] r stock ids f(2,4,5) clock a(4) show ?thesis by auto
qed

end

text \<open>A network on which every upstream service answers with a server error.\<close>

definition busy_network :: env where
  "busy_network = offline\<lparr>net := (\<lambda>_ _. Inr \<lparr>rs_status = 503, rs_header = (\<lambda>_. None), rs_content = [],
     rs_json = raise_value [], rs_error = ''Service Unavailable''\<rparr>)\<rparr>"

lemma refusing_busy: "refusing busy_network"
  by (simp add: refusing_def busy_network_def)

end
