(* ===== verification/Facade.thy ===== *)
theory Facade
  imports Fallback
begin

text \<open>
  \<open>app/store.py\<close>: the facade that selects one adapter, PostgreSQL when \<open>DATABASE_URL\<close> is set and
  SQLite otherwise, and passes every operation to it. The database of the facade is that of the
  selected adapter. The facade satisfies the contract \<open>storage\<close> because both adapters do, so what
  is proved of the pipeline from the contract holds for the program as configured: what a refresh
  leaves in the archive, what it serves when every service refuses, and what fetching may write.
\<close>

section \<open>Selection\<close>

type_synonym store_db = "pg_db + sq_db"

definition selected :: "settings \<Rightarrow> pg_db \<Rightarrow> sq_db \<Rightarrow> store_db" where
  "selected st p s = (if given (database_url st) \<noteq> None then Inl p else Inr s)"

text \<open>A result of an adapter as one of the facade.\<close>

definition relayed :: "('d \<Rightarrow> store_db) \<Rightarrow> ('a \<times> 'd) result \<Rightarrow> ('a \<times> store_db) result" where
  "relayed f r = res_bind r (\<lambda>(x, d). Inr (x, f d))"

definition relayed_db :: "('d \<Rightarrow> store_db) \<Rightarrow> 'd result \<Rightarrow> store_db result" where
  "relayed_db f r = res_bind r (\<lambda>d. Inr (f d))"

definition store_facade :: "store_db backend" where
  "store_facade = \<lparr>
     upsert_items = (\<lambda>now items. case_sum (\<lambda>p. relayed Inl (upsert_items postgres_store now items p))
       (\<lambda>s. relayed Inr (upsert_items sqlite_store now items s))),
     query_feed = (\<lambda>now tag sev n. case_sum (query_feed postgres_store now tag sev n) (query_feed sqlite_store now tag sev n)),
     search_feed = (\<lambda>now q tag sev n. case_sum (search_feed postgres_store now q tag sev n) (search_feed sqlite_store now q tag sev n)),
     stats = case_sum (stats postgres_store) (stats sqlite_store),
     unalerted_urgent_items = (\<lambda>now n. case_sum (unalerted_urgent_items postgres_store now n) (unalerted_urgent_items sqlite_store now n)),
     mark_alerted = (\<lambda>now ids. case_sum (\<lambda>p. relayed_db Inl (mark_alerted postgres_store now ids p))
       (\<lambda>s. relayed_db Inr (mark_alerted sqlite_store now ids s))),
     get_source_state = (\<lambda>sid. case_sum (get_source_state postgres_store sid) (get_source_state sqlite_store sid)),
     set_source_state = (\<lambda>now sid st. case_sum (\<lambda>p. relayed_db Inl (set_source_state postgres_store now sid st p))
       (\<lambda>s. relayed_db Inr (set_source_state sqlite_store now sid st s))),
     prune_items = (\<lambda>before. case_sum (\<lambda>p. relayed Inl (prune_items postgres_store before p))
       (\<lambda>s. relayed Inr (prune_items sqlite_store before s))),
     seed_if_empty = (\<lambda>f now. case_sum (\<lambda>p. relayed Inl (seed_if_empty postgres_store f now p))
       (\<lambda>s. relayed Inr (seed_if_empty sqlite_store f now s))),
     ping = case_sum (ping postgres_store) (ping sqlite_store)\<rparr>"

definition fa_archive :: "store_db \<Rightarrow> archive" where
  "fa_archive = case_sum pg_archive sq_archive"

definition fa_inv :: "store_db \<Rightarrow> bool" where
  "fa_inv = case_sum pg_inv sq_inv"

definition fa_up :: "store_db \<Rightarrow> bool" where
  "fa_up = case_sum pg_up sq_up"

lemma res_ok_relayed [simp]: "res_ok (relayed f r) = res_ok r" "res_ok (relayed_db g q) = res_ok q"
  by (cases r; auto simp: relayed_def) (cases q; simp add: relayed_db_def)

lemmas facade_sel = store_facade_def fa_archive_def fa_inv_def fa_up_def
lemmas facade_defs = store_facade_def fa_archive_def fa_inv_def fa_up_def relayed_def relayed_db_def

section \<open>The facade satisfies the contract\<close>

interpretation fa: storage store_facade fa_archive fa_inv fa_up
proof (unfold_locales, goal_cases)
  case (1 db i r)
  then show ?case using pg.keyed sq.keyed by (cases db) (auto simp: facade_defs)
next
  case (2 db)
  then show ?case using pg.finite_items sq.finite_items by (cases db) (auto simp: facade_defs)
next
  case (3 db items now)
  then show ?case using pg.upsert [of _ items now] sq.upsert [of _ items now] by (cases db) (fastforce simp: facade_defs)+
next
  case (4 db tag now sev n)
  then show ?case using pg.query [of _ tag now sev n] sq.query [of _ tag now sev n] by (cases db) (simp_all add: facade_defs)
next
  case (5 db now n)
  then show ?case using pg.unalerted [of _ now n] sq.unalerted [of _ now n] by (cases db) (simp_all add: facade_defs)
next
  case (6 db now ids)
  then show ?case using pg.mark [of _ now ids] sq.mark [of _ now ids] by (cases db) (fastforce simp: facade_defs)+
next
  case (7 db sid)
  then show ?case using pg.get_state sq.get_state by (cases db) (simp_all add: facade_defs)
next
  case (8 db now w sid)
  then show ?case using pg.set_state [of _ now w sid] sq.set_state [of _ now w sid] by (cases db) (fastforce simp: facade_defs)+
next
  case (9 db before)
  then show ?case using pg.prune [of _ before] sq.prune [of _ before] by (cases db) (fastforce simp: facade_defs)+
next
  case (10 db now items)
  then show ?case using pg.down(1) [of _ now items] sq.down(1) [of _ now items] by (cases db) (simp_all add: facade_sel)
next
  case (11 db now tag sev n)
  then show ?case using pg.down(2) sq.down(2) by (cases db) (simp_all add: facade_sel)
next
  case (12 db now n)
  then show ?case using pg.down(3) sq.down(3) by (cases db) (simp_all add: facade_sel)
next
  case (13 db sid)
  then show ?case using pg.down(4) sq.down(4) by (cases db) (simp_all add: facade_sel)
next
  case (14 db now sid w)
  then show ?case using pg.down(5) sq.down(5) by (cases db) (simp_all add: facade_sel)
qed

text \<open>No operation moves to the other adapter.\<close>

lemma facade_stays:
  "upsert_items store_facade now items db = Inr (k, db') \<Longrightarrow> isl db' = isl db"
  "mark_alerted store_facade now ids db = Inr db' \<Longrightarrow> isl db' = isl db"
  "set_source_state store_facade now sid st db = Inr db' \<Longrightarrow> isl db' = isl db"
  "prune_items store_facade cutoff db = Inr (k, db') \<Longrightarrow> isl db' = isl db"
  "seed_if_empty store_facade f now db = Inr (k, db') \<Longrightarrow> isl db' = isl db"
  by (cases db; auto simp: facade_defs res_simps)+

section \<open>Properties\<close>

text \<open>C1. Whichever database is selected: when it is up and accepts the items, a refresh ends with every item
  it returns in the archive, last seen at the time of the refresh and not removed by the retention
  step, the database still consistent and up, and the persist and the alert step reported as \<open>ok\<close>.\<close>

theorem selected_refresh_fills_archive:
  assumes "w_db w = selected st p s" "pg_inv p" "pg_up p" "sq_inv s" "sq_up s"
    "refresh_feed store_facade E w = (Inr items, w')" "0 \<le> w_now w" "dt_range (w_now w')" "list_all item_ok items"
  shows "fa_inv (w_db w') \<and> fa_up (w_db w') \<and> holds (fa_archive (w_db w')) items (w_now w') \<and>
    map_of (c_steps (w_cache w')) ''persist'' = Some ''ok'' \<and> map_of (c_steps (w_cache w')) ''alert'' = Some ''ok''"
proof -
  have "fa_inv (w_db w) \<and> fa_up (w_db w)"
    using assms(1-5) by (simp add: selected_def fa_inv_def fa_up_def)
  then show ?thesis using fa.refresh_holds [OF assms(6) _ assms(7-9)] by blast
qed

lemma empty_ok: "pg_inv pg_empty" "pg_up pg_empty" "sq_inv sq_empty" "sq_up sq_empty"
  using pg_inv_empty
  by (auto simp: sq_inv_def sq_empty_def sq_of_def pg_empty_def map_vals_def intro!: exI [of _ pg_empty])

text \<open>The state of a service that starts over an empty archive, two days into the calendar.\<close>

definition first_day :: "store_db world" where
  "first_day = new_world (selected default_settings pg_empty sq_empty) (2 * us_day) default_settings"

lemma first_day_facts:
  "w_db first_day = selected default_settings pg_empty sq_empty" "at_rest first_day" "2 * us_day \<le> w_now first_day"
  "dt_range (w_now first_day + 60 * us_sec)" "fa_inv (w_db first_day)" "fa_up (w_db first_day)"
proof -
  show "w_db first_day = selected default_settings pg_empty sq_empty" by (simp add: first_day_def new_world_def)
  with empty_ok show "fa_inv (w_db first_day)" "fa_up (w_db first_day)" by (simp_all add: selected_def fa_inv_def fa_up_def)
  show "at_rest first_day" "2 * us_day \<le> w_now first_day" "dt_range (w_now first_day + 60 * us_sec)"
    by (simp_all add: first_day_def new_world_def at_rest_def nvd_stagger_seconds_def us_sec_def us_day_def dt_range_def)
qed

lemma first_day_archive:
  "ar_items (fa_archive (w_db first_day)) i = None" "ar_states (fa_archive (w_db first_day)) i = None"
  unfolding first_day_facts(1)
  by (simp_all add: selected_def fa_archive_def sq_archive_def pg_archive_def sq_empty_def pg_empty_def map_vals_def sq_of_def)

lemma first_day_due: "is_due src (ar_states (fa_archive (w_db first_day)) (src_id src)) t"
  by (simp add: is_due_def first_day_archive)

lemma selected_refresh_fills_archive_witness:
  "\<exists>items w'. refresh_feed store_facade busy_network first_day = (Inr items, w') \<and> items \<noteq> [] \<and> fa_inv (w_db w') \<and>
    holds (fa_archive (w_db w')) items (w_now w') \<and> map_of (c_steps (w_cache w')) ''alert'' = Some ''ok''"
proof -
  note first = first_day_facts
  from fa.refresh_refused [OF refusing_busy _ first(2-4) first_day_due] first(5,6) obtain items w' where
    r: "refresh_feed store_facade busy_network first_day = (Inr items, w')" "list_all stock items"
      "item_id ` set items = item_id ` set (sample_items (sha1 busy_network) (utc 0))"
      "w_now first_day \<le> w_now w'" "w_now w' \<le> w_now first_day + 60 * us_sec" by blast
  have t: "0 \<le> w_now first_day" using first(3) by (simp add: us_day_def)
  have d: "dt_range (w_now w')" using t r(4,5) by (intro dt_range_before [OF first(4)]) auto
  have "list_all item_ok items" using r(2) by (simp add: list_all_iff stock_def)
  from selected_refresh_fills_archive [OF first(1) empty_ok r(1) t d this] r(1,3) show ?thesis
    by (auto simp: sample_items_def)
qed

text \<open>C3. The cadence: when an attempt to fetch a source of the catalogue has ended, with items or with an error,
  and the stored fetch state of that source is as the attempt left it (no other source writes it, C17,
  and no other operation of the archive), then before the interval of the source has passed the next
  fetch sends nothing, changes nothing and reports the source as skipped, whatever else was written
  and whatever the network does. Left out are the attempts at a GitHub source that end without items:
  an answer that is not a list is not recorded (\<open>ghsa_other_json_not_recorded\<close>).\<close>

theorem cadence_is_kept:
  assumes "fa_inv (w_db w)" "fa_up (w_db w)" "0 \<le> w_now w" "src \<in> set all_sources"
    "fetch_source_once store_facade E src w = (r, w1)" "dt_range (w_now w1)"
    "r \<noteq> Inr Skipped" "src_kind src = ''ghsa'' \<longrightarrow> r \<noteq> Inr (Fetched [])"
    "fa_inv (w_db w2)" "fa_up (w_db w2)"
    "get_source_state store_facade (src_id src) (w_db w2) = get_source_state store_facade (src_id src) (w_db w1)"
    "w_now w2 < w_now w1 + min_interval_seconds src * us_sec"
  shows "fetch_source store_facade E' src w2 = (Inr Skipped, w2)"
proof -
  have ok: "fa_inv (w_db w) \<and> fa_up (w_db w)" "fa_inv (w_db w2) \<and> fa_up (w_db w2)" using assms(1,2,9,10) by simp_all
  have "fa_inv (w_db w1) \<and> fa_up (w_db w1)" using fa.once_recorded [OF assms(5) ok(1) assms(3,6,7,8)] by simp
  then have "ar_states (fa_archive (w_db w2)) (src_id src) = ar_states (fa_archive (w_db w1)) (src_id src)"
    using assms(9-11) by (simp add: fa.get_state)
  from fa.fetch_then_quiet [OF assms(5,7,8,4) ok(1) assms(3,6) ok(2) this] assms(12) show ?thesis by simp
qed

lemma first_day_times:
  "0 \<le> w_now first_day" "dt_range (w_now first_day + outage_delay)" "dt_range (w_now first_day + outage_delay + outage_delay)"
proof -
  show t: "0 \<le> w_now first_day" using first_day_facts(3) by (simp add: us_day_def)
  show "dt_range (w_now first_day + outage_delay)" "dt_range (w_now first_day + outage_delay + outage_delay)"
    using t by (intro dt_range_before [OF first_day_facts(4)];
      simp add: outage_delay_def nvd_stagger_seconds_def us_sec_def fetch_retry_delay_def)+
qed

text \<open>Between the refused attempt and the next one another source is fetched.\<close>

lemma cadence_is_kept_witness:
  "\<exists>e w1 e' w2. fetch_source_once store_facade busy_network demo_source first_day = (Inl e, w1) \<and>
    fetch_source store_facade busy_network demo_feed w1 = (Inl e', w2) \<and>
    fetch_source store_facade busy_network demo_source w2 = (Inr Skipped, w2)"
proof -
  note first = first_day_facts
  have ok: "fa_inv (w_db first_day) \<and> fa_up (w_db first_day)" using first(5,6) by simp
  have feed: "demo_feed \<in> set all_sources" "src_id demo_feed \<noteq> src_id demo_source"
    by (simp_all add: demo_feed_def demo_source_def source_defs)
  from fa.source_refused [OF refusing_busy demo_source_listed ok first(2) first_day_times(1) first_day_due first_day_times(2)]
  obtain e w1 where w1: "fetch_source_once store_facade busy_network demo_source first_day = (Inl e, w1)"
    "fa_inv (w_db w1) \<and> fa_up (w_db w1)" "at_rest w1" "w_now first_day \<le> w_now w1" "w_now w1 \<le> w_now first_day + outage_delay"
    "\<And>sid. sid \<noteq> src_id demo_source \<Longrightarrow> ar_states (fa_archive (w_db w1)) sid = ar_states (fa_archive (w_db first_day)) sid" by blast
  have t: "0 \<le> w_now w1" using first_day_times(1) w1(4) by simp
  have d: "dt_range (w_now w1 + outage_delay)" "dt_range (w_now w1)"
    using t w1(5) by (intro dt_range_before [OF first_day_times(3)];
      simp add: outage_delay_def nvd_stagger_seconds_def us_sec_def fetch_retry_delay_def)+
  have "is_due demo_feed (ar_states (fa_archive (w_db w1)) (src_id demo_feed)) (w_now w1)"
    unfolding w1(6) [OF feed(2)] by (rule first_day_due)
  from fa.source_refused [OF refusing_busy feed(1) w1(2,3) t this d(1)] obtain e' w2 where
    w2: "fetch_source store_facade busy_network demo_feed w1 = (Inl e', w2)" "fa_inv (w_db w2)" "fa_up (w_db w2)"
      "w_now w2 \<le> w_now w1 + outage_delay"
      "\<And>sid. sid \<noteq> src_id demo_feed \<Longrightarrow> ar_states (fa_archive (w_db w2)) sid = ar_states (fa_archive (w_db w1)) sid" by blast
  have "get_source_state store_facade (src_id demo_source) (w_db w2) = get_source_state store_facade (src_id demo_source) (w_db w1)"
    using w1(2) w2(2,3) w2(5) [OF feed(2) [symmetric]] by (simp add: fa.get_state)
  moreover have "outage_delay < min_interval_seconds demo_source * us_sec"
    using is_due_interval [OF demo_source_listed]
    by (simp add: outage_delay_def nvd_stagger_seconds_def us_sec_def fetch_retry_delay_def)
  then have "w_now w2 < w_now w1 + min_interval_seconds demo_source * us_sec" using w2(4) by simp
  ultimately have "fetch_source store_facade busy_network demo_source w2 = (Inr Skipped, w2)"
    by (intro cadence_is_kept [OF first(5,6) first_day_times(1) demo_source_listed w1(1) d(2) _ _ w2(2,3)]) simp_all
  with w1(1) w2(1) show ?thesis by blast
qed



text \<open>C17. Fetching writes nothing but fetch states, whatever the network answers: fetching a source leaves every
  item, every alert and the fetch states of the other sources as they are, so the sources, which
  the code fetches at the same time, do not meet in the database; fetching them all changes the fetch
  states of the catalogue only.\<close>

theorem fetching_writes_own_state:
  assumes "w_db w = selected st p s" "pg_inv p" "pg_up p" "sq_inv s" "sq_up s" "0 \<le> w_now w"
    "fetch_source store_facade E src w = (r1, w1)" "dt_range (w_now w1)"
    "fetch_all store_facade E w = (r2, w2)" "dt_range (w_now w2)"
  shows "beside {src_id src} (fa_archive (w_db w)) (fa_archive (w_db w1)) \<and>
    beside (set source_ids) (fa_archive (w_db w)) (fa_archive (w_db w2)) \<and> fa_inv (w_db w1) \<and> fa_inv (w_db w2)"
proof -
  have "fa_inv (w_db w) \<and> fa_up (w_db w)" using assms(1-5) by (simp add: selected_def fa_inv_def fa_up_def)
  then show ?thesis
    using fa.fetch_source_beside [OF assms(7) _ assms(6,8)] fa.fetch_all_beside [OF assms(9) _ assms(6,10)] by blast
qed

lemma fetching_writes_own_state_witness:
  "\<exists>r1 w1. fetch_source store_facade busy_network demo_source first_day = (r1, w1) \<and>
    beside {src_id demo_source} (fa_archive (w_db first_day)) (fa_archive (w_db w1))"
proof -
  note first = first_day_facts
  have t: "0 \<le> w_now first_day" using first(3) by (simp add: us_day_def)
  have "dt_range (w_now first_day + outage_delay)"
    using t by (intro dt_range_before [OF first(4)]) (simp_all add: outage_delay_def nvd_stagger_seconds_def us_sec_def fetch_retry_delay_def)
  from fa.source_refused [OF refusing_busy demo_source_listed _ first(2) t first_day_due this] first(5,6) obtain e w1 where
    w1: "fetch_source store_facade busy_network demo_source first_day = (Inl e, w1)" "w_now first_day \<le> w_now w1"
      "w_now w1 \<le> w_now first_day + outage_delay" by blast
  from fa.fetch_all_refused [OF refusing_busy _ first(2) t first(4) first_day_due] first(5,6) obtain r2 w2 where
    w2: "fetch_all store_facade busy_network first_day = (r2, w2)" "w_now first_day \<le> w_now w2"
      "w_now w2 \<le> w_now first_day + 60 * us_sec" by blast
  have "dt_range (w_now w1)" using t w1(2,3) by (intro dt_range_before [OF first(4)])
    (simp_all add: outage_delay_def nvd_stagger_seconds_def us_sec_def fetch_retry_delay_def)
  moreover have "dt_range (w_now w2)" using t w2(2,3) by (intro dt_range_before [OF first(4)]) auto
  ultimately show ?thesis using fetching_writes_own_state [OF first(1) empty_ok t w1(1) _ w2(1)] w1(1) by blast
qed

end
