(* ===== verification/PgPool.thy ===== *)
theory PgPool
  imports Config PgStore
begin

text \<open>
  The connection pool of \<open>app/postgres_store.py\<close>: the lazy global pool and its parameters, the
  settings every new connection gets, the translation of driver errors in \<open>_connection\<close>, and
  \<open>close\<close>. \<open>psycopg_pool\<close> is outside: the outcome of checking out a connection and running the
  body is an argument, as is the test \<open>isinstance(e, psycopg.OperationalError)\<close> (of which
  \<open>PoolTimeout\<close> is a subclass). The lemmas show that one pool is built and kept until it is
  closed, that the settings of the session are those of the configuration, and that exactly the
  driver's operational errors become \<open>StoreUnavailable\<close>.
\<close>

section \<open>The pool\<close>

record pool_kwargs =
  k_prepare_threshold :: "int option"
  k_connect_timeout :: int
  k_sslmode :: string
  k_application_name :: string
  k_sslrootcert :: "string option"

record pool =
  po_dsn :: string
  po_kwargs :: pool_kwargs
  po_min_size :: int
  po_max_size :: int
  po_timeout :: rat
  po_max_idle :: rat
  po_max_lifetime :: rat

definition new_pool :: "settings \<Rightarrow> pool result" where
  "new_pool s =
     (case given (database_url s) of
        None \<Rightarrow> Inl (Exc ''RuntimeError'' OtherExc ''DATABASE_URL is not set; cannot use the PostgreSQL backend'' None None)
      | Some dsn \<Rightarrow> Inr \<lparr>po_dsn = dsn,
          po_kwargs = \<lparr>k_prepare_threshold = db_prepare_threshold s, k_connect_timeout = db_connect_timeout s,
            k_sslmode = db_sslmode s, k_application_name = db_application_name s,
            k_sslrootcert = given (db_sslrootcert s)\<rparr>,
          po_min_size = db_pool_min_size s, po_max_size = db_pool_max_size s, po_timeout = db_pool_timeout s,
          po_max_idle = db_pool_max_idle s, po_max_lifetime = db_pool_max_lifetime s\<rparr>)"

text \<open>The state is the global \<open>_POOL\<close>.\<close>

definition ensure_pool :: "settings \<Rightarrow> pool option \<Rightarrow> pool result \<times> pool option" where
  "ensure_pool s p =
     (case p of
        Some q \<Rightarrow> (Inr q, p)
      | None \<Rightarrow> (case new_pool s of Inl e \<Rightarrow> (Inl e, None) | Inr q \<Rightarrow> (Inr q, Some q)))"

definition close_pool :: "pool option \<Rightarrow> pool option" where
  "close_pool p = None"

text \<open>\<open>SET name = value\<close> on a session's variables.\<close>

definition configure_connection :: "settings \<Rightarrow> (string, int) dict \<Rightarrow> (string, int) dict" where
  "configure_connection s vars = fold (\<lambda>(k, v). dict_set k v)
     [(''statement_timeout'', db_statement_timeout_ms s), (''idle_in_transaction_session_timeout'', db_idle_tx_timeout_ms s),
      (''lock_timeout'', db_lock_timeout_ms s)] vars"

section \<open>with _connection()\<close>

definition translated :: "(exc \<Rightarrow> bool) \<Rightarrow> 'a result \<Rightarrow> 'a result" where
  "translated operational r =
     (case r of
        Inl e \<Rightarrow> if operational e then Inl (Exc ''StoreUnavailable'' StoreUnavailable ''database unavailable'' (Some e) None) else Inl e
      | Inr x \<Rightarrow> Inr x)"

text \<open>\<open>use q\<close> is the outcome of the body over a connection of the pool \<open>q\<close>.\<close>

definition connection :: "settings \<Rightarrow> (exc \<Rightarrow> bool) \<Rightarrow> (pool \<Rightarrow> 'a result) \<Rightarrow> pool option \<Rightarrow> 'a result \<times> pool option" where
  "connection s operational body p =
     (case ensure_pool s p of
        (Inl e, p') \<Rightarrow> (translated operational (Inl e), p')
      | (Inr q, p') \<Rightarrow> (translated operational (body q), p'))"

section \<open>One pool\<close>

lemma ensure_pool_twice:
  "ensure_pool s p = (Inr q, p') \<Longrightarrow> p' = Some q \<and> ensure_pool s' p' = (Inr q, p')"
  by (auto simp: ensure_pool_def split: option.splits sum.splits)

text \<open>A pool that was built is used by every later connection, also when the settings change, until it is
  closed; then the next connection builds one from the settings of that time.\<close>

lemma connection_keeps_pool:
  "connection s operational body (Some q) = (translated operational (body q), Some q)"
  by (simp add: connection_def ensure_pool_def)

lemma connection_after_close:
  assumes "new_pool s = Inr q"
  shows "connection s operational body (close_pool p) = (translated operational (body q), Some q)"
  using assms by (simp add: connection_def ensure_pool_def close_pool_def)

lemma session_settings:
  "map_of (configure_connection s vars) = (map_of vars)(''statement_timeout'' \<mapsto> db_statement_timeout_ms s,
     ''idle_in_transaction_session_timeout'' \<mapsto> db_idle_tx_timeout_ms s, ''lock_timeout'' \<mapsto> db_lock_timeout_ms s)"
  by (simp add: configure_connection_def)

text \<open>Only an operational error becomes \<open>StoreUnavailable\<close>; a missing URL stays a \<open>RuntimeError\<close>.\<close>

lemma translated_errors:
  assumes "translated operational r = Inl e" "\<And>x. r = Inl x \<Longrightarrow> exc_class x \<noteq> StoreUnavailable"
  shows "(exc_class e = StoreUnavailable \<longleftrightarrow> (\<exists>x. r = Inl x \<and> operational x)) \<and>
    (exc_class e = StoreUnavailable \<longrightarrow> r = Inl (the (exc_cause e))) \<and> (exc_class e \<noteq> StoreUnavailable \<longrightarrow> r = Inl e)"
  using assms by (cases r) (auto simp: translated_def split: if_splits)

lemma missing_url:
  assumes "given (database_url s) = None" "\<And>e. operational e \<Longrightarrow> exc_name e \<noteq> ''RuntimeError''"
  shows "\<exists>e. connection s operational body None = (Inl e, None) \<and> exc_name e = ''RuntimeError''"
proof -
  let ?e = "Exc ''RuntimeError'' OtherExc ''DATABASE_URL is not set; cannot use the PostgreSQL backend'' None None"
  have "\<not> operational ?e" using assms(2) [of ?e] by auto
  with assms(1) show ?thesis by (simp add: connection_def ensure_pool_def new_pool_def translated_def)
qed

text \<open>What the operations of the adapter raise while the database is down is such a translation.\<close>

lemma pg_unavailable_translated:
  "pg_unavailable = translated (\<lambda>e. exc_name e = ''OperationalError'') (Inl (Exc ''OperationalError'' OtherExc [] None None))"
  by (simp add: pg_unavailable_def translated_def)

end
