(* ===== verification/Startup.thy ===== *)
theory Startup
  imports Api Migrate Schema Facade PgPool
begin

text \<open>
  The start of the service over the initialisations of the two adapters: both satisfy the contract
  \<open>initialiser\<close> of the start procedure, for PostgreSQL the check of the schema over a database that
  does not change meanwhile but may be out of reach at some of the attempts, for SQLite the completion
  of the database file, which the world holds. The facade
  (\<open>app/store.py\<close>) passes the initialisation and the closing at shutdown to the selected adapter.
\<close>

section \<open>The initialisations\<close>

text \<open>\<open>conn t\<close> is the outcome of a connection at the time \<open>t\<close>.\<close>

definition pg_init_io :: "'s runner \<Rightarrow> (int \<Rightarrow> unit result) \<Rightarrow> 's pgdb \<Rightarrow> ('db, unit) io" where
  "pg_init_io R conn d = bind get_now (\<lambda>now. lift (pg_init_db R (conn now) d))"

text \<open>The database of the world has the file in it: \<open>file_of\<close> reads it, \<open>with_file\<close> puts another one in its place.\<close>

definition sq_init_io :: "('db \<Rightarrow> sq_file) \<Rightarrow> (sq_file \<Rightarrow> 'db \<Rightarrow> 'db) \<Rightarrow> ('db, unit) io" where
  "sq_init_io file_of with_file = db_write (\<lambda>db. res_bind (sq_init_db (file_of db)) (\<lambda>f. Inr (with_file f db)))"

interpretation pgi: initialiser "pg_init_io R conn d" "\<lambda>t _. pg_init_db R (conn t) d" "\<lambda>db. db" for R conn d
proof unfold_locales
  fix w
  show "pg_init_io R conn d w = (case pg_init_db R (conn (w_now w)) d of Inl e \<Rightarrow> (Inl e, w) | Inr _ \<Rightarrow> (Inr (), w\<lparr>w_db := w_db w\<rparr>))"
    by (cases "pg_init_db R (conn (w_now w)) d") (simp_all add: pg_init_io_def lift_def)
qed

interpretation sqi: initialiser "sq_init_io file_of with_file" "\<lambda>_ db. res_bind (sq_init_db (file_of db)) (\<lambda>_. Inr ())"
  "\<lambda>db. with_file (projr (sq_init_db (file_of db))) db" for file_of with_file
proof unfold_locales
  fix w
  show "sq_init_io file_of with_file w =
    (case res_bind (sq_init_db (file_of (w_db w))) (\<lambda>_. Inr ()) of Inl e \<Rightarrow> (Inl e, w)
     | Inr _ \<Rightarrow> (Inr (), w\<lparr>w_db := with_file (projr (sq_init_db (file_of (w_db w)))) (w_db w)\<rparr>))"
    by (cases "sq_init_db (file_of (w_db w))") (simp_all add: sq_init_io_def db_write_def)
qed

text \<open>The attempt that settles the start.\<close>

lemma settle_time_find:
  assumes "\<And>t. settled (r t) \<longleftrightarrow> P t" "find P (attempt_times t) = Some u"
  shows "settle_time r t = u"
proof -
  have "settled \<circ> r = P" using assms(1) by (simp add: fun_eq_iff)
  with assms(2) show ?thesis by (simp add: settle_time_def)
qed

lemma settle_time_settled: "settled r \<Longrightarrow> settle_time (\<lambda>_. r) t = t"
  by (simp add: settle_time_def attempt_times_def)

section \<open>Starting after a migration\<close>

text \<open>What the check refuses, it refuses as a schema that is not migrated, when the migration files are in
  order and the database is there.\<close>

lemma pg_init_db_refusal:
  assumes "migration_files R = Inr fs" "pg_init_db R (Inr ()) d \<noteq> Inr ()"
  shows "\<exists>e. pg_init_db R (Inr ()) d = Inl e \<and> exc_class e = SchemaNotMigrated"
  using assms by (auto simp: pg_init_db_def latest_version_def not_migrated_def Let_def split: option.splits if_splits)

lemma pg_init_db_settled:
  assumes "migration_files R = Inr fs" "\<And>t e. conn t = Inl e \<Longrightarrow> exc_class e \<noteq> SchemaNotMigrated"
  shows "settled (pg_init_db R (conn t) d) \<longleftrightarrow> conn t = Inr ()"
proof (cases "conn t")
  case (Inl e)
  with assms startup_unreachable [OF assms(1)] show ?thesis by (simp add: settled_def)
next
  case (Inr u)
  have "settled (pg_init_db R (Inr ()) d)"
    using pg_init_db_refusal [OF assms(1), of d] by (cases "pg_init_db R (Inr ()) d") (auto simp: settled_def)
  with Inr show ?thesis by simp
qed

text \<open>\<open>u\<close> is the first attempt at which the database is in reach.\<close>

lemma start_refused:
  assumes "migration_files R = Inr fs" "\<And>t e. conn t = Inl e \<Longrightarrow> exc_class e \<noteq> SchemaNotMigrated"
    "find (\<lambda>t. conn t = Inr ()) (attempt_times (app_now a)) = Some u" "pg_init_db R (Inr ()) d \<noteq> Inr ()"
  shows "\<exists>e. lifespan B E (pg_init_io R conn d) a = (Inl e, a\<lparr>a_world := (a_world a)\<lparr>w_now := u\<rparr>\<rparr>) \<and> exc_class e = SchemaNotMigrated"
proof -
  from pg_init_db_refusal [OF assms(1,4)] obtain e where e: "pg_init_db R (Inr ()) d = Inl e" "exc_class e = SchemaNotMigrated" by blast
  have u: "settle_time (\<lambda>t. pg_init_db R (conn t) d) (app_now a) = u"
    by (rule settle_time_find [OF _ assms(3)]) (rule pg_init_db_settled [OF assms(1,2)])
  have "conn u = Inr ()" using assms(3) by (auto simp: find_Some_iff)
  then have "startup B E (pg_init_io R conn d) (a_world a) = (Inl e, (a_world a)\<lparr>w_now := u\<rparr>)"
    using pgi.startup_failed [where R = R and conn = conn and d = d and w = "a_world a" and e = e and B = B and E = E] u e by simp
  with e(2) show ?thesis by (simp add: lifespan_def run_io_def)
qed

lemma start_accepted:
  assumes "migration_files R = Inr fs" "\<And>t e. conn t = Inl e \<Longrightarrow> exc_class e \<noteq> SchemaNotMigrated"
    "find (\<lambda>t. conn t = Inr ()) (attempt_times (app_now a)) = Some u" "pg_init_db R (Inr ()) d = Inr ()"
  shows "fst (lifespan B E (pg_init_io R conn d) a) = Inr () \<longleftrightarrow> res_ok (seed_if_empty B (sha1 E) u (w_db (a_world a)))"
proof -
  have u: "settle_time (\<lambda>t. pg_init_db R (conn t) d) (app_now a) = u"
    by (rule settle_time_find [OF _ assms(3)]) (rule pg_init_db_settled [OF assms(1,2)])
  have "conn u = Inr ()" using assms(3) by (auto simp: find_Some_iff)
  with pgi.lifespan_decides [where R = R and conn = conn and d = d and a = a and B = B and E = E] u assms(4) show ?thesis by simp
qed

text \<open>With SQLite the file of any version is completed in place, and the service starts on it as soon as the
  archive can be seeded.\<close>

lemma sqlite_init:
  assumes "file_ok (file_of (w_db w))"
  shows "\<exists>f. sq_init_db (file_of (w_db w)) = Inr f \<and> file_ok f \<and>
    init_store (sq_init_io file_of with_file) w = (Inr (), w\<lparr>w_db := with_file f (w_db w)\<rparr>)"
proof -
  from sq_init_db_run [OF assms] obtain f where f: "sq_init_db (file_of (w_db w)) = Inr f" "file_ok f" by blast
  moreover have "settle_time (\<lambda>_. Inr ()) (w_now w) = w_now w" by (intro settle_time_settled) (simp add: settled_def)
  ultimately show ?thesis
    using sqi.init_store_settles [where file_of = file_of and with_file = with_file and w = w] sqi.runs [where file_of = file_of and
      with_file = with_file and w = w] by simp
qed

lemma sqlite_start:
  assumes "file_ok (file_of (w_db (a_world a)))"
  shows "\<exists>f. sq_init_db (file_of (w_db (a_world a))) = Inr f \<and> file_ok f \<and>
    (fst (lifespan B E (sq_init_io file_of with_file) a) = Inr () \<longleftrightarrow>
      res_ok (seed_if_empty B (sha1 E) (app_now a) (with_file f (w_db (a_world a)))))"
proof -
  from sq_init_db_run [OF assms] obtain f where f: "sq_init_db (file_of (w_db (a_world a))) = Inr f" "file_ok f" by blast
  moreover have "settle_time (\<lambda>_. Inr ()) (app_now a) = app_now a" by (intro settle_time_settled) (simp add: settled_def)
  ultimately show ?thesis
    using sqi.lifespan_decides [where file_of = file_of and with_file = with_file and a = a and B = B and E = E] by simp
qed

section \<open>The selected store\<close>

definition store_init_db ::
    "settings \<Rightarrow> 's runner \<Rightarrow> (int \<Rightarrow> unit result) \<Rightarrow> 's pgdb \<Rightarrow> ('db \<Rightarrow> sq_file) \<Rightarrow> (sq_file \<Rightarrow> 'db \<Rightarrow> 'db) \<Rightarrow> ('db, unit) io" where
  "store_init_db st R conn d file_of with_file =
     (if given (database_url st) \<noteq> None then pg_init_io R conn d else sq_init_io file_of with_file)"

text \<open>SQLite has nothing to close.\<close>

definition store_close :: "settings \<Rightarrow> pool option \<Rightarrow> pool option" where
  "store_close st p = (if given (database_url st) \<noteq> None then close_pool p else p)"

text \<open>The life of the process: the start, then the requests, then the \<open>finally\<close> block. \<open>p\<close> is the pool that
  the start left.\<close>

definition serve ::
    "'db backend \<Rightarrow> env \<Rightarrow> ('db, unit) io \<Rightarrow> ('db app \<times> pool option \<Rightarrow> 'a result \<times> 'db app \<times> pool option) \<Rightarrow>
     'db app \<Rightarrow> pool option \<Rightarrow> 'a result \<times> 'db app \<times> pool option" where
  "serve B E init_db requests a p =
     (case lifespan B E init_db a of
        (Inl e, a') \<Rightarrow> (Inl e, a', p)
      | (Inr _, a') \<Rightarrow> (case requests (a', p) of (r, a'', p') \<Rightarrow> (r, a'', store_close (cfg E) p')))"

lemma facade_start:
  assumes "if given (database_url (cfg E)) \<noteq> None
      then pg_init_db R (Inr ()) d = Inr () \<and> migration_files R = Inr fs \<and> conn = (\<lambda>_. Inr ())
      else file_ok (file_of (w_db (a_world a)))"
  shows "fst (lifespan store_facade E (store_init_db (cfg E) R conn d file_of with_file) a) = Inr () \<longleftrightarrow>
    res_ok (seed_if_empty store_facade (sha1 E) (app_now a)
      (if given (database_url (cfg E)) \<noteq> None then w_db (a_world a)
       else with_file (projr (sq_init_db (file_of (w_db (a_world a))))) (w_db (a_world a))))"
proof (cases "given (database_url (cfg E)) = None")
  case True
  with assms sqlite_start [where file_of = file_of and with_file = with_file and B = store_facade and E = E and a = a] show ?thesis
    by (auto simp: store_init_db_def)
next
  case False
  have "find (\<lambda>t. conn t = Inr ()) (attempt_times (app_now a)) = Some (app_now a)"
    using assms False by (simp add: attempt_times_def)
  with assms False start_accepted [where R = R and fs = fs and conn = conn and d = d and B = store_facade and E = E and a = a and u = "app_now a"]
  show ?thesis by (auto simp: store_init_db_def)
qed

text \<open>A service that started leaves no pool, whatever ends it.\<close>

lemma serve_closes:
  assumes "fst (lifespan B E init_db a) = Inr ()" "given (database_url (cfg E)) \<noteq> None"
  shows "snd (snd (serve B E init_db requests a p)) = None"
  using assms by (auto simp: serve_def store_close_def close_pool_def split: prod.split sum.split)

end
