(* ===== verification/Service.thy ===== *)
theory Service
  imports Startup
begin

text \<open>
  The service as a whole: what it sends to others and what it serves. The first part follows the
  policy of \<open>app/http_client.py\<close> through every computation that sends requests: the refresh of
  \<open>app/pipeline.py\<close> with its sources, enrichment, index and alerts, the search, and the start. The
  second part follows an item from the refresh through the archive to the answer of the items
  route of \<open>app/main.py\<close>, over the selected database.
\<close>

section \<open>What is sent\<close>

lemma sends_effects [io_intros]:
  "sends P get_cache" "sends P (set_cache c)" "sends P (set_step k v)" "sends P pruned_at" "sends P (set_pruned t)"
  "sends P (broker_publish ev)" "sends P (send_email E dest s b)"
  by (simp_all add: sends_def later_def get_cache_def set_cache_def set_step_def bind_def pruned_at_def set_pruned_def
      broker_publish_def send_email_def)

lemma sends_cases [io_intros]:
  "(\<And>x y. sends P (f x y)) \<Longrightarrow> sends P (case p of (x, y) \<Rightarrow> f x y)"
  "(\<And>x. v = Some x \<Longrightarrow> sends P (g x)) \<Longrightarrow> sends P (when_some v g)"
  by (simp_all add: case_prod_unfold when_some_def split: option.split)

lemma sends_post [io_intros]: "sends polite (post_json E u payload)"
  unfolding post_json_def by (intro io_intros) auto

lemma sends_alerts [io_intros]: "sends polite (send_urgent_alerts B E)"
  unfolding send_urgent_alerts_def alert_one_def deliver_def send_discord_def send_slack_def Let_def by (intro io_intros)

lemma sends_enrich [io_intros]: "sends polite (enrich E items)"
  unfolding enrich_def by (intro io_intros)

lemma sends_best_effort [io_intros]: "sends P m \<Longrightarrow> sends P (best_effort k m)"
  unfolding best_effort_def by (intro io_intros)

lemma sends_steps [io_intros]:
  "sends polite (persist B items)" "sends polite (prune B E)" "sends polite (index_step B E items)"
  "sends polite (publish_cached n)" "sends polite (alert_step B E)"
  unfolding persist_def prune_def index_step_def publish_cached_def publish_step_def alert_step_def Let_def
  by (intro io_intros)+

lemma sends_refresh [io_intros]: "sends polite (refresh_feed B E)"
  unfolding refresh_feed_def by (intro io_intros)

lemma sends_search [io_intros]: "sends polite (search B E q tag sev n)"
  unfolding search_def search_opensearch_def sql_search_def Let_def by (intro io_intros) auto

lemma sends_attempts [io_intros]: "sends P m \<Longrightarrow> 0 \<le> d \<Longrightarrow> sends P (init_attempts m n d)"
proof (induction n arbitrary: d)
  case (Suc n)
  then show ?case by (auto intro!: io_intros simp: us_sec_def)
qed simp

lemma sends_startup [io_intros]: "sends polite init_db \<Longrightarrow> sends polite (startup B E init_db)"
  unfolding startup_def init_store_def by (intro io_intros) auto

lemma sends_init [io_intros]: "sends P (pg_init_io R conn d)" "sends P (sq_init_io file_of with_file)"
  unfolding pg_init_io_def sq_init_io_def by (intro io_intros)+

section \<open>What is served\<close>

lemma ar_matching_all: "ar_matching None None A = ar_visible A"
  by (auto simp: ar_matching_def given_def)

context storage
begin

lemma finite_visible: "inv db \<Longrightarrow> finite (ar_visible (abs db))"
  unfolding ar_visible_def ar_rows_def
  using finite_ran [OF finite_items] by (rule rev_finite_subset) auto

lemma items_route_shows:
  assumes "ok (w_db (a_world a))" "ar_items (abs (w_db (a_world a))) i = Some r" "r \<in> ar_visible (abs (w_db (a_world a)))"
    "card {s \<in> ar_visible (abs (w_db (a_world a))). row_key r \<le> row_key s} \<le> nat n" "0 \<le> n"
  shows "\<exists>rs. respond (api_items B None None n a) =
      (ok_response (JObj [(''count'', JInt (int (length rs))), (''items'', JList (emitted (app_now a) rs))]), a) \<and> r \<in> set rs"
proof -
  from query [of "w_db (a_world a)" None "app_now a" None n] assms(1) obtain rs where
    q: "query_feed B (app_now a) None None n (w_db (a_world a)) = Inr (emitted (app_now a) rs)"
      "page row_key n (ar_visible (abs (w_db (a_world a)))) rs"
    by (auto simp: ar_matching_all given_def)
  have "r \<in> set rs" using finite_visible assms by (intro page_first [OF q(2)]) auto
  with q(1) show ?thesis
    by (intro exI [of _ rs])
      (simp add: api_items_def respond_with_def run_io_def query_io_def bind_run db_read_def respond_def)
qed

end

section \<open>Properties\<close>

text \<open>C15. Whatever a refresh, a search or the start of the service does, and whatever the network answers,
  every request it sends carries the shared user agent and the default or a shorter timeout, and
  follows redirects.\<close>

theorem requests_are_polite:
  "later polite w (snd (refresh_feed B E w)) \<and> later polite w (snd (search B E q tag sev n w)) \<and>
   later polite w (snd (startup B E (pg_init_io R conn d) w)) \<and>
   later polite w (snd (startup B E (sq_init_io file_of with_file) w))"
proof -
  have "sends polite (startup B E (pg_init_io R conn d))" "sends polite (startup B E (sq_init_io file_of with_file))"
    by (rule sends_startup, rule sends_init)+
  with sends_refresh [of B E] sends_search [of B E q tag sev n] show ?thesis unfolding sends_def by blast
qed

text \<open>C2. What a refresh returns is served: after a refresh over the selected database, an item it
  returned that is not hidden (a sample beside live items is) and ranks within the first \<open>n\<close> is in the
  answer of the items route, with the time stamps and defaults it was stored with.\<close>

theorem refreshed_items_are_served:
  assumes "w_db w = selected st p s" "pg_inv p" "pg_up p" "sq_inv s" "sq_up s"
    "refresh_feed store_facade E w = (Inr items, w')" "0 \<le> w_now w" "dt_range (w_now w')" "list_all item_ok items"
    "it \<in> set items" "ar_items (fa_archive (w_db w')) (item_id it) = Some r" "is_sample it \<Longrightarrow> \<not> ar_live (fa_archive (w_db w'))"
    "card {q \<in> ar_visible (fa_archive (w_db w')). row_key r \<le> row_key q} \<le> nat n" "0 \<le> n" "a_world a = w'"
  shows "\<exists>shown. respond (api_items store_facade None None n a) =
      (ok_response (JObj [(''count'', JInt (int (length shown))), (''items'', JList shown)]), a) \<and>
    item_to_dict (stored_item it) (utc (w_now w')) \<in> set shown"
proof -
  have "fa_inv (w_db w) \<and> fa_up (w_db w)" using assms(1-5) by (simp add: selected_def fa_inv_def fa_up_def)
  from fa.refresh_holds [OF assms(6) this assms(7-9)] assms(10) obtain r' where
    r': "fa_inv (w_db w') \<and> fa_up (w_db w')" "ar_items (fa_archive (w_db w')) (item_id it) = Some r'" "a_item r' = stored_item it"
    unfolding holds_def by blast
  then have item: "a_item r = stored_item it" using assms(11) by simp
  then have vis: "r \<in> ar_visible (fa_archive (w_db w'))"
    using assms(11,12) by (auto simp: ar_visible_def ar_rows_def stored_item_def intro: ranI)
  from fa.items_route_shows [of a "item_id it" r n] r'(1) assms(11,13-15) vis obtain rs where
    "respond (api_items store_facade None None n a) =
      (ok_response (JObj [(''count'', JInt (int (length rs))), (''items'', JList (emitted (app_now a) rs))]), a)" "r \<in> set rs" by auto
  then show ?thesis using item assms(15) by (intro exI [of _ "emitted (app_now a) rs"]) force
qed

lemma card_ran_le: "finite (dom m) \<Longrightarrow> card (ran m) \<le> card (dom m)"
proof -
  assume f: "finite (dom m)"
  have "ran m \<subseteq> (the \<circ> m) ` dom m" by (force simp: ran_def image_iff)
  with f have "card (ran m) \<le> card ((the \<circ> m) ` dom m)" by (intro card_mono) auto
  also have "\<dots> \<le> card (dom m)" using f by (rule card_image_le)
  finally show ?thesis .
qed

lemma refreshed_items_are_served_witness:
  "\<exists>items w' it shown. refresh_feed store_facade busy_network first_day = (Inr items, w') \<and> it \<in> set items \<and>
    fst (respond (api_items store_facade None None 50 (new_app busy_network w'))) =
      ok_response (JObj [(''count'', JInt (int (length shown))), (''items'', JList shown)]) \<and>
    item_to_dict (stored_item it) (utc (w_now w')) \<in> set shown"
proof -
  note first = first_day_facts
  let ?samples = "sample_items (sha1 busy_network) (utc 0)"
  from fa.refresh_refused [OF refusing_busy _ first(2-4) first_day_due] first(5,6) obtain items w' where
    r: "refresh_feed store_facade busy_network first_day = (Inr items, w')" "list_all stock items"
      "item_id ` set items = item_id ` set ?samples" "holds (fa_archive (w_db w')) items (w_now w')"
      "w_now first_day \<le> w_now w'" "w_now w' \<le> w_now first_day + 60 * us_sec" and
    dom: "dom (ar_items (fa_archive (w_db w'))) \<subseteq> dom (ar_items (fa_archive (w_db first_day))) \<union> item_id ` set items" by blast
  let ?A = "fa_archive (w_db w')"
  have t: "0 \<le> w_now first_day" using first(3) by (simp add: us_day_def)
  have d: "dt_range (w_now w')" using t r(5,6) by (intro dt_range_before [OF first(4)]) auto
  have ok: "list_all item_ok items" using r(2) by (simp add: list_all_iff stock_def)
  have "item_id ` set items \<noteq> {}" unfolding r(3) by (simp add: sample_items_def)
  then obtain it where it: "it \<in> set items" by (metis image_is_empty last_in_set list.set(1))
  with r(4) obtain row where row: "ar_items ?A (item_id it) = Some row" by (auto simp: holds_def)
  have dom: "dom (ar_items ?A) \<subseteq> item_id ` set items" using dom first_day_archive(1) by (auto simp: dom_def)
  have dead: "\<not> ar_live ?A"
  proof -
    have "is_sample (a_item q)" if q: "ar_items ?A i = Some q" for i q
    proof -
      from q dom obtain x where x: "x \<in> set items" "i = item_id x" by blast
      with r(4) q have "a_item q = stored_item x" by (auto simp: holds_def)
      with x r(2) show ?thesis by (simp add: stock_def list_all_iff stored_item_def)
    qed
    then show ?thesis by (auto simp: ar_live_def ar_rows_def ran_def)
  qed
  have "card {q \<in> ar_visible ?A. row_key row \<le> row_key q} \<le> nat 50"
  proof -
    have f: "finite (dom (ar_items ?A))" using dom finite_subset by blast
    have "card {q \<in> ar_visible ?A. row_key row \<le> row_key q} \<le> card (ar_rows ?A)"
      using finite_ran [OF f] by (intro card_mono) (auto simp: ar_rows_def ar_visible_def)
    also have "\<dots> \<le> card (dom (ar_items ?A))" unfolding ar_rows_def using f by (rule card_ran_le)
    also have "\<dots> \<le> card (item_id ` set ?samples)" using dom unfolding r(3) by (intro card_mono) auto
    also have "\<dots> \<le> length ?samples" by (metis card_length list.set_map length_map)
    also have "\<dots> \<le> nat 50" by (simp add: sample_items_def)
    finally show ?thesis .
  qed
  from refreshed_items_are_served [OF first(1) empty_ok r(1) t d ok it row dead this, of "new_app busy_network w'"] r(1) it
  show ?thesis by (force simp: new_app_def)
qed

end
