(* ===== verification/Delivery.thy ===== *)
theory Delivery
  imports Facade
begin

text \<open>
  What the alerts promise over the life of the archive (\<open>app/alerts.py\<close>, \<open>app/store.py\<close>,
  \<open>app/pipeline.py\<close>): the archive passes through any sequence of alert runs, upserts, fetch states
  and retention steps, and no run delivers again what one of them delivered, unless the retention
  step has forgotten the item in between. Every refresh is such a sequence.
\<close>

section \<open>The life of the archive\<close>

text \<open>
  What is noted of it, latest first: the ids each run of the alerts delivered (on all channels), with
  its time, and the retention steps, with the bound and the database they left.
\<close>

datatype 'db alert_event = Delivered int "string list" | Pruned int 'db

inductive alert_history :: "'db backend \<Rightarrow> ('db \<Rightarrow> bool) \<Rightarrow> 'db \<Rightarrow> 'db alert_event list \<Rightarrow> bool" for B good where
  start: "good db \<Longrightarrow> alert_history B good db []"
| alerted: "alert_history B good (w_db w) es \<Longrightarrow> send_urgent_alerts B E w = (Inr ids, w') \<Longrightarrow> dt_range (w_now w) \<Longrightarrow>
    alert_history B good (w_db w') (Delivered (w_now w) ids # es)"
| upserted: "alert_history B good db es \<Longrightarrow> upsert_items B t items db = Inr (k, db') \<Longrightarrow> list_all item_ok items \<Longrightarrow> dt_range t \<Longrightarrow>
    alert_history B good db' es"
| fetched: "alert_history B good db es \<Longrightarrow> set_source_state B t sid st db = Inr db' \<Longrightarrow> dt_range t \<Longrightarrow>
    (\<And>f. w_fetched_at st = Some f \<Longrightarrow> dt_range (instant f)) \<Longrightarrow> alert_history B good db' es"
| pruned: "alert_history B good db es \<Longrightarrow> prune_items B bound db = Inr (k, db') \<Longrightarrow> dt_range (instant bound) \<Longrightarrow>
    alert_history B good db' (Pruned (instant bound) db' # es)"

lemma alerted_prune:
  "ar_alerted A i = Some t \<Longrightarrow> ar_alerted (ar_prune c A) i = Some t \<or> t < c \<and> ar_items (ar_prune c A) i = None"
  by (auto simp: ar_prune_def Let_def)

lemma alerted_mark: "ar_alerted A i = Some t \<Longrightarrow> ar_alerted (ar_mark now ids A) i = Some t"
  by (simp add: ar_mark_def)

context storage
begin

lemma history_ok: "alert_history B ok db es \<Longrightarrow> ok db"
proof (induction rule: alert_history.induct)
  case (alerted w es E ids w')
  with alerts_run [of w E] show ?case by auto
next
  case (upserted db es t items k db')
  with upsert [of db items t] show ?case by auto
next
  case (fetched db es t sid st db')
  with set_state [of db t st sid] show ?case by auto
next
  case (pruned db es bound k db')
  with prune [of db bound] show ?case by auto
qed

text \<open>What was delivered stays marked until a retention step forgets it.\<close>

lemma history_marked:
  assumes "alert_history B ok db es" "es = ys @ Delivered t ids # xs" "i \<in> set ids"
  shows "ar_alerted (abs db) i = Some t \<or> (\<exists>c after. Pruned c after \<in> set ys \<and> t < c \<and> ar_items (abs after) i = None)"
  using assms
proof (induction arbitrary: ys rule: alert_history.induct)
  case (alerted w es E new w')
  have w: "inv (w_db w)" "up (w_db w)" using history_ok [OF alerted(1)] by simp_all
  from alerts_run [OF w alerted(3), of E] alerted(2) have
    r: "abs (w_db w') = ar_mark (w_now w) new (abs (w_db w))" "set new \<subseteq> (\<lambda>r. item_id (a_item r)) ` ar_urgent (abs (w_db w))"
    by auto
  show ?case
  proof (cases ys)
    case Nil
    with alerted.prems have "t = w_now w" "i \<in> set new" by auto
    moreover from this(2) r(2) have "ar_alerted (abs (w_db w)) i = None" by (auto simp: ar_urgent_def)
    ultimately show ?thesis by (simp add: r(1) ar_mark_def)
  next
    case (Cons e ys')
    with alerted show ?thesis unfolding r(1) using alerted_mark by fastforce
  qed
next
  case (upserted db es t' items k db')
  with upsert [of db items t'] history_ok [OF upserted(1)] have "ar_alerted (abs db') = ar_alerted (abs db)"
    by (auto simp: alerted_ar_upsert)
  with upserted show ?case by simp
next
  case (fetched db es t' sid st db')
  with set_state [of db t' st sid] history_ok [OF fetched(1)] have "ar_alerted (abs db') = ar_alerted (abs db)"
    by (auto simp: ar_set_state_def)
  with fetched show ?case by simp
next
  case (pruned db es bound k db')
  with prune [of db bound] history_ok [OF pruned(1)] have r: "abs db' = ar_prune (instant bound) (abs db)" by auto
  from pruned.prems(1) obtain ys' where ys: "ys = Pruned (instant bound) db' # ys'" "es = ys' @ Delivered t ids # xs"
    by (auto simp: Cons_eq_append_conv)
  from pruned.IH [OF ys(2) pruned.prems(2)] alerted_prune [of "abs db" i t "instant bound"]
  show ?case unfolding ys(1) r [symmetric] by (metis list.set_intros)
qed simp

text \<open>What a run delivered was urgent and not marked.\<close>

lemma history_delivered:
  assumes "alert_history B ok db es" "es = zs @ Delivered t ids # xs"
  obtains db1 where "alert_history B ok db1 xs" "distinct ids" "length ids \<le> 10"
    "set ids \<subseteq> (\<lambda>r. item_id (a_item r)) ` ar_urgent (abs db1)"
  using assms
proof (induction arbitrary: zs thesis rule: alert_history.induct)
  case (alerted w es E new w')
  have w: "inv (w_db w)" "up (w_db w)" using history_ok [OF alerted(1)] by simp_all
  show ?case
  proof (cases zs)
    case Nil
    with alerted.prems have "new = ids" "es = xs" by auto
    with alerts_run [OF w alerted(3), of E] alerted(1,2) alerted.prems(1) show ?thesis by auto
  next
    case (Cons e zs')
    with alerted.prems(2) show ?thesis by (intro alerted.IH [OF alerted.prems(1)]) auto
  qed
next
  case (pruned db es bound k db')
  then obtain zs' where "es = zs' @ Delivered t ids # xs" by (auto simp: Cons_eq_append_conv)
  with pruned show ?case by blast
qed blast+

lemma delivered_once:
  assumes "alert_history B ok db (zs @ Delivered t' ids' # ys @ Delivered t ids # xs)"
  shows "distinct ids' \<and> length ids' \<le> 10 \<and>
    (\<forall>i \<in> set ids \<inter> set ids'. \<exists>c after. Pruned c after \<in> set ys \<and> t < c \<and> ar_items (abs after) i = None)"
proof -
  from history_delivered [OF assms refl] obtain db1 where
    1: "alert_history B ok db1 (ys @ Delivered t ids # xs)" "distinct ids'" "length ids' \<le> 10"
      "set ids' \<subseteq> (\<lambda>r. item_id (a_item r)) ` ar_urgent (abs db1)" .
  have "\<exists>c after. Pruned c after \<in> set ys \<and> t < c \<and> ar_items (abs after) i = None" if "i \<in> set ids" "i \<in> set ids'" for i
  proof -
    from that(2) 1(4) have "ar_alerted (abs db1) i = None" by (auto simp: ar_urgent_def)
    with history_marked [OF 1(1) refl that(1)] show ?thesis by auto
  qed
  with 1(2,3) show ?thesis by blast
qed

text \<open>Every refresh is a part of the life of the archive: it writes fetch states, upserts, prunes at most
  once and alerts.\<close>

lemma keeps_history_save: "keeps (\<lambda>db. alert_history B ok db es) (save_state B src a b c d e)"
  unfolding keeps_def
proof (intro allI impI)
  fix w :: "'db world"
  assume w: "alert_history B ok (w_db w) es \<and> 0 \<le> w_now w \<and> dt_range (w_now (snd (save_state B src a b c d e w)))"
  then have t: "dt_range (w_now w)"
    using timely_state(2) [of B src a b c d e] dt_range_before unfolding timely_def by blast
  show "alert_history B ok (w_db (snd (save_state B src a b c d e w))) es"
  proof (cases "set_source_state B (w_now w) (src_id src) (fetch_write (w_now w) a b c d e) (w_db w)")
    case (Inl x)
    with w show ?thesis by (simp add: save_state_def catch_def db_write_def run_ret)
  next
    case (Inr db')
    have "alert_history B ok db' es"
      by (rule alert_history.fetched [OF _ Inr t]) (use w t in auto)
    with Inr show ?thesis by (simp add: save_state_def catch_def db_write_def run_ret)
  qed
qed

lemma keeps_history_fetch: "keeps (\<lambda>db. alert_history B ok db es) (fetch_all B E)"
proof -
  have kind: "keeps (\<lambda>db. alert_history B ok db es) (fetch_kind B E src state)" for src state
    unfolding fetch_defs by (intro io_intros keeps_history_save)
  have "keeps (\<lambda>db. alert_history B ok db es) (fetch_source B E src)" for src
    unfolding fetch_source_def fetch_source_once_def record_failure_def by (intro io_intros kind keeps_history_save)
  then show ?thesis unfolding fetch_all_def by (intro io_intros) (auto intro!: io_intros split: prod.split)
qed

lemma history_persist:
  assumes "alert_history B ok (w_db w) es" "dt_range (w_now w)" "list_all item_ok items"
  shows "alert_history B ok (w_db (snd (persist B items w))) es"
proof (cases "upsert_items B (w_now w) items (w_db w)")
  case (Inr p)
  obtain k db' where "p = (k, db')" by (cases p)
  with Inr have u: "upsert_items B (w_now w) items (w_db w) = Inr (k, db')" by simp
  from alert_history.upserted [OF assms(1) u assms(3,2)] u show ?thesis
    by (simp add: persist_def db_update_def bind_def run_ret)
qed (simp add: persist_def db_update_def io_defs assms(1))

lemma history_prune:
  assumes "alert_history B ok (w_db w) es"
  shows "alert_history B ok (w_db (snd (prune B E w))) es \<or>
    (\<exists>c. alert_history B ok (w_db (snd (prune B E w))) (Pruned c (w_db (snd (prune B E w))) # es))"
proof (cases "retention_days (cfg E) \<le> 0 \<or> (case w_pruned w of None \<Rightarrow> False | Some t \<Rightarrow> w_now w - t < prune_interval * us_sec)
    \<or> \<not> dt_range (w_now w - retention_days (cfg E) * us_day)")
  case True
  then have "snd (prune B E w) = w"
    by (auto simp: prune_def pruned_at_def bind_run run_ret Let_def split: if_splits)
  with assms show ?thesis by simp
next
  case False
  let ?cut = "w_now w - retention_days (cfg E) * us_day"
  from prune [of "w_db w" "utc ?cut"] history_ok [OF assms] False obtain db' k where
    p: "prune_items B (utc ?cut) (w_db w) = Inr (k, db')" by auto
  have "w_db (snd (prune B E w)) = db'"
    using False p by (simp add: prune_def pruned_at_def set_pruned_def bind_def db_update_def run_ret Let_def)
  moreover have "dt_range (instant (utc ?cut))" using False by simp
  ultimately show ?thesis using alert_history.pruned [OF assms p] by auto
qed

lemma refresh_history:
  assumes "alert_history B ok (w_db w) es" "refresh_feed B E w = (Inr items, w')" "0 \<le> w_now w" "dt_range (w_now w')"
    "list_all item_ok items"
  obtains ids es' where "alert_history B ok (w_db w') (Delivered (w_now w') ids # es')"
    "es' = es \<or> (\<exists>c db. es' = Pruned c db # es)"
proof -
  obtain items0 errors w0 items1 w1 w2 w3 w4 w5 w6 w7 where
    f: "fetch_all B E w = (Inr (items0, errors), w0)" and e: "enrich E items0 w0 = (Inr items1, w1)" and
    w2: "w2 = w1\<lparr>w_cache := \<lparr>c_fetched_at = Some (utc (w_now w1)), c_generated_at = Some (utc (w_now w1)), c_errors = errors, c_steps = []\<rparr>\<rparr>" and
    w3: "w3 = recorded ''persist'' (persist B items1 w2)" and w4: "w4 = recorded ''prune'' (prune B E w3)" and
    w5: "w5 = recorded ''index'' (index_step B E items1 w4)" and w6: "w6 = recorded ''publish'' (publish_cached (length items1) w5)" and
    w7: "w7 = recorded ''alert'' (alert_step B E w6)" and run: "refresh_feed B E w = (Inr items1, w7)"
    by (rule refresh_worlds [of B E w])
  from run assms(2) have same: "items1 = items" "w7 = w'" by simp_all
  have t1: "w_db w1 = w_db w0" "w_now w1 = w_now w0" using leavesD [OF leaves_enrich e] by auto
  have t0: "w_now w' = w_now w0" using refresh_clock [OF assms(2) f] by simp
  have d: "dt_range (w_now w0)" using t0 assms(4) by simp
  have 2: "alert_history B ok (w_db w2) es" "dt_range (w_now w2)" "w_now w2 = w_now w'"
    using keepsD [OF keeps_history_fetch f assms(1,3) d] t1 t0 d by (simp_all add: w2)
  have 3: "alert_history B ok (w_db w3) es" using history_persist [OF 2(1,2) assms(5)] by (simp add: w3 same)
  from history_prune [OF 3, of E] obtain es' where
    4: "alert_history B ok (w_db w4) es'" "es' = es \<or> (\<exists>c db. es' = Pruned c db # es)" by (auto simp: w4)
  have pub: "leaves (publish_cached (length items1) :: ('db, unit) io)" by (rule leaves_publish_cached)
  have "w_db w5 = w_db w4" using leaves_index_step [of B E items1] unfolding w5 by (simp add: leaves_def)
  then have 6: "w_db w6 = w_db w4" using pub unfolding w6 by (simp add: leaves_def)
  have "w_now w3 = w_now w'" using 2(3) by (simp add: w3 still_now still_steps)
  then have "w_now w4 = w_now w'" by (simp add: w4 still_now still_steps)
  then have "w_now w5 = w_now w'" using leaves_index_step [of B E items1] unfolding w5 by (simp add: leaves_def)
  then have now: "w_now w6 = w_now w'" using pub unfolding w6 by (simp add: leaves_def)
  have "ok (w_db w6)" using history_ok [OF 4(1)] by (simp add: 6)
  with alerts_run [of w6 E] now assms(4) obtain ids w7' where a: "send_urgent_alerts B E w6 = (Inr ids, w7')" by auto
  then have "w_db w' = w_db w7'" unfolding same(2) [symmetric] w7 by (simp add: alert_step_def bind_run run_ret)
  moreover have "alert_history B ok (w_db w7') (Delivered (w_now w6) ids # es')"
    by (rule alert_history.alerted [OF _ a]) (simp_all add: 6 4(1) now assms(4))
  ultimately show ?thesis using 4(2) by (intro that [of ids es']) (simp_all add: now)
qed

end

section \<open>Properties\<close>

text \<open>C5. No item is alerted twice while the archive keeps it: however alert runs, upserts of items (the same
  ones again among them), fetch states and retention steps follow each other on the selected
  database, while it stays up, a run delivers at most ten items, none twice, and an item that an
  earlier run delivered only when a retention step in between deleted the item and forgot the alert.
  (Delivered: accepted by every configured channel and returned by \<open>send_urgent_alerts\<close>; what a
  failing channel does is C39.)\<close>

theorem alerts_not_repeated:
  assumes "alert_history store_facade (\<lambda>db. fa_inv db \<and> fa_up db) db (zs @ Delivered t' ids' # ys @ Delivered t ids # xs)"
  shows "distinct ids' \<and> length ids' \<le> 10 \<and>
    (\<forall>i \<in> set ids \<inter> set ids'. \<exists>c after. Pruned c after \<in> set ys \<and> t < c \<and> ar_items (fa_archive after) i = None)"
  using assms by (rule fa.delivered_once)

definition no_channels :: env where
  "no_channels = offline\<lparr>cfg := default_settings\<lparr>discord_webhook_url := None, slack_webhook_url := None, smtp_host := None\<rparr>\<rparr>"

lemma no_channels_deliver:
  "io_map (alert_one no_channels) (emitted t rows) w = (Inr (map (\<lambda>r. Some (item_id (a_item r))) rows), w)"
proof (induction rows)
  case (Cons r rows)
  obtain s b where "alert_text no_channels (item_to_dict (a_item r) (utc t)) = Inr (s, b)" using alert_text_item by blast
  then have "alert_one no_channels (item_to_dict (a_item r) (utc t)) w = (Inr (Some (item_id (a_item r))), w)"
    by (simp add: alert_one_def deliver_def when_some_def given_def mail_to_def no_channels_def catch_def bind_def run_ret)
  with Cons show ?case by (simp add: bind_def run_ret)
qed (simp add: run_ret)

text \<open>Two runs over the demonstration rows: the first one delivers, the second one nothing of it.\<close>

lemma alerts_not_repeated_witness:
  "\<exists>db ids' ids. alert_history store_facade (\<lambda>db. fa_inv db \<and> fa_up db) db [Delivered 0 ids', Delivered 0 ids] \<and>
     ids \<noteq> [] \<and> set ids \<inter> set ids' = {}"
proof -
  let ?db = "Inr (sq_of demo_db) :: store_db" and ?ok = "\<lambda>db. fa_inv db \<and> fa_up db"
  let ?w = "new_world ?db 0 default_settings"
  have w: "fa_inv (w_db ?w)" "fa_up (w_db ?w)" "dt_range (w_now ?w)" "w_now ?w = 0" "w_db ?w = ?db"
    using demo_inv by (simp_all add: new_world_def fa_inv_def fa_up_def dt_range_def us_day_def)
  from fa.alerts_run [OF w(1-3), of no_channels] obtain ids w1 where
    1: "send_urgent_alerts store_facade no_channels ?w = (Inr ids, w1)" "fa_inv (w_db w1)" "fa_up (w_db w1)" "w_now w1 = 0"
    unfolding w(4) by blast
  from fa.alerts_run [OF 1(2,3), of no_channels] w(3,4) obtain ids' w2 where
    2: "send_urgent_alerts store_facade no_channels w1 = (Inr ids', w2)" unfolding 1(4) by auto
  have "ids \<noteq> []"
  proof -
    from fa.unalerted [OF w(1,2), of 0 max_alerts_per_run] obtain rows where
      rows: "unalerted_urgent_items store_facade 0 max_alerts_per_run (w_db ?w) = Inr (emitted 0 rows)"
      "page (\<lambda>r. fst (row_key r)) max_alerts_per_run (ar_urgent (fa_archive (w_db ?w))) rows" by blast
    have somes: "somes (map (\<lambda>r. Some (f r)) rows) = map f rows" for f :: "arow \<Rightarrow> string" by (induction rows) (simp_all add: somes_def)
    have "ids = map (\<lambda>r. item_id (a_item r)) rows"
    proof (cases "rows = []")
      case False
      from fa.mark [OF w(1-3), of "map (\<lambda>r. item_id (a_item r)) rows"] obtain db' where
        "mark_alerted store_facade 0 (map (\<lambda>r. item_id (a_item r)) rows) (w_db ?w) = Inr db'" unfolding w(4) by blast
      then show ?thesis using 1(1) rows(1) False
        by (simp add: send_urgent_alerts_def db_read_def attempt_def bind_run run_ret w(4) no_channels_deliver somes Let_def
            catch_def db_write_def)
    qed (use 1(1) rows(1) in \<open>simp add: send_urgent_alerts_def db_read_def attempt_def bind_run run_ret w(4) Let_def somes_def\<close>)
    moreover have u: "ar_urgent (fa_archive (w_db ?w)) \<noteq> {}" using demo_urgent by (simp add: w(5) fa_archive_def)
    have "finite (ar_urgent (fa_archive (w_db ?w)))"
      using fa.rows_finite [OF w(1)] by (rule finite_subset [rotated]) (auto simp: ar_urgent_def ar_visible_def)
    then have "0 < card (ar_urgent (fa_archive (w_db ?w)))" using u by (simp add: card_gt_0_iff)
    with rows(2) have "rows \<noteq> []" by (auto simp: page_def max_alerts_per_run_def)
    ultimately show ?thesis by simp
  qed
  have h: "alert_history store_facade ?ok (w_db ?w) []" using w(1,2) by (intro alert_history.start) simp
  from alert_history.alerted [OF alert_history.alerted [OF h 1(1) w(3)] 2] w(3,4) 1(4) have
    h2: "alert_history store_facade ?ok (w_db w2) [Delivered 0 ids', Delivered 0 ids]" by simp
  then have "alert_history store_facade ?ok (w_db w2) ([] @ Delivered 0 ids' # [] @ Delivered 0 ids # [])" by simp
  from alerts_not_repeated [OF this] have "set ids \<inter> set ids' = {}" by auto
  with h2 \<open>ids \<noteq> []\<close> show ?thesis by blast
qed

text \<open>C32. A refresh continues the life of the archive: it adds one run of the alerts at its end, and at most one
  retention step before that, so what it delivers are at most ten items, none twice, and none that
  any earlier run delivered, unless a retention step has deleted the item and forgotten its alert.\<close>

theorem refresh_alerts_once:
  assumes "alert_history store_facade (\<lambda>db. fa_inv db \<and> fa_up db) (w_db w) es" "refresh_feed store_facade E w = (Inr items, w')"
    "0 \<le> w_now w" "dt_range (w_now w')" "list_all item_ok items"
  shows "\<exists>ids' es'. alert_history store_facade (\<lambda>db. fa_inv db \<and> fa_up db) (w_db w') (Delivered (w_now w') ids' # es') \<and>
    (es' = es \<or> (\<exists>c db. es' = Pruned c db # es)) \<and> distinct ids' \<and> length ids' \<le> 10 \<and>
    (\<forall>t ids. Delivered t ids \<in> set es \<longrightarrow> (\<forall>i \<in> set ids \<inter> set ids'.
       \<exists>c after. Pruned c after \<in> set es' \<and> t < c \<and> ar_items (fa_archive after) i = None))"
proof -
  obtain ids' es' where h: "alert_history store_facade fa.ok (w_db w') (Delivered (w_now w') ids' # es')"
    "es' = es \<or> (\<exists>c db. es' = Pruned c db # es)"
    by (rule fa.refresh_history [OF assms])
  have "distinct ids' \<and> length ids' \<le> 10"
    using fa.history_delivered [OF h(1), of "[]" "w_now w'" ids' es'] by auto
  moreover have "\<exists>c after. Pruned c after \<in> set es' \<and> t < c \<and> ar_items (fa_archive after) i = None"
    if "Delivered t ids \<in> set es" "i \<in> set ids" "i \<in> set ids'" for t ids i
  proof -
    from that(1) h(2) have "Delivered t ids \<in> set es'" by auto
    then obtain ys xs where es: "es' = ys @ Delivered t ids # xs" by (meson split_list)
    from fa.delivered_once [where zs = "[]", unfolded append_Nil, OF h(1) [unfolded es]] that(2,3) obtain c after where
      "Pruned c after \<in> set ys" "t < c" "ar_items (fa_archive after) i = None" by blast
    then show ?thesis unfolding es by (intro exI [of _ c] exI [of _ after]) simp
  qed
  ultimately show ?thesis using h by blast
qed

lemma refresh_alerts_once_witness:
  "\<exists>items w' ids' es'. refresh_feed store_facade busy_network first_day = (Inr items, w') \<and> length ids' \<le> 10 \<and>
    alert_history store_facade (\<lambda>db. fa_inv db \<and> fa_up db) (w_db w') (Delivered (w_now w') ids' # es')"
proof -
  note first = first_day_facts
  from fa.refresh_refused [OF refusing_busy _ first(2-4) first_day_due] first(5,6) obtain items w' where
    r: "refresh_feed store_facade busy_network first_day = (Inr items, w')" "list_all stock items"
      "w_now first_day \<le> w_now w'" "w_now w' \<le> w_now first_day + 60 * us_sec" by blast
  have t: "0 \<le> w_now first_day" using first(3) by (simp add: us_day_def)
  have d: "dt_range (w_now w')" using t r(3,4) by (intro dt_range_before [OF first(4)]) auto
  have ok: "list_all item_ok items" using r(2) by (simp add: list_all_iff stock_def)
  have h: "alert_history store_facade (\<lambda>db. fa_inv db \<and> fa_up db) (w_db first_day) []"
    using first(5,6) by (intro alert_history.start) simp
  from refresh_alerts_once [OF h r(1) t d ok] r(1) show ?thesis by blast
qed

end
