(* ===== verification/EventStreams.thy ===== *)
theory EventStreams
  imports Api
begin

text \<open>
  The event streams of \<open>app/main.py\<close> beside the broker of \<open>app/events.py\<close>. A connection subscribes before
  its stream starts; the stream is the asynchronous generator \<open>event_stream\<close>, whose body Python runs from
  one \<open>yield\<close> to the next, and whose \<open>finally\<close> runs when it is closed, or cancelled while it waits, but only
  once the body has been entered. Connections, reads, closings and publications interleave in any
  order. The lemmas show which streams hold a subscription, what each stream has sent, and that
  streams closed before their first read hold theirs for good.
\<close>

section \<open>One stream\<close>

text \<open>\<open>Fresh\<close>: the generator exists and its body has not run; \<open>Open\<close>: it stands at a \<open>yield\<close> or waits
  for an event; \<open>Ended\<close>: it was closed.\<close>

datatype stream_phase = Fresh | Open | Ended

text \<open>\<open>__anext__\<close> of the stream over queue \<open>i\<close>: what it yields (nothing after the end), its phase and
  the broker.\<close>

definition stream_next :: "env \<Rightarrow> nat \<Rightarrow> stream_phase \<Rightarrow> broker \<Rightarrow> string option \<times> stream_phase \<times> broker" where
  "stream_next E i p b =
     (case p of
        Fresh \<Rightarrow> (Some (sse_first E), Open, b)
      | Open \<Rightarrow> (case sse_next E i b of (frame, b') \<Rightarrow> (Some frame, Open, b'))
      | Ended \<Rightarrow> (None, Ended, b))"

text \<open>\<open>aclose\<close>, or the cancellation of the task that reads the stream: of a generator that has not started,
  no statement runs.\<close>

definition stream_close :: "nat \<Rightarrow> stream_phase \<Rightarrow> broker \<Rightarrow> stream_phase \<times> broker" where
  "stream_close i p b = (Ended, case p of Open \<Rightarrow> sse_close i b | _ \<Rightarrow> b)"

section \<open>All streams\<close>

text \<open>The streams are named by the queues they read; the frames and the trace record what was sent.\<close>

record hub =
  h_broker :: broker
  h_phase :: "nat \<Rightarrow> stream_phase option"
  h_frames :: "nat \<Rightarrow> string list"
  h_trace :: trace

definition new_hub :: "int \<Rightarrow> hub" where
  "new_hub n = \<lparr>h_broker = new_broker n, h_phase = (\<lambda>_. None), h_frames = (\<lambda>_. []),
     h_trace = \<lparr>tr_published = (\<lambda>_. []), tr_delivered = (\<lambda>_. [])\<rparr>\<rparr>"

inductive hub_step :: "env \<Rightarrow> hub \<Rightarrow> hub \<Rightarrow> bool" for E where
  hub_connect: "subscribe (h_broker s) = (Some i, b') \<Longrightarrow>
     hub_step E s (s\<lparr>h_broker := b', h_phase := (h_phase s)(i \<mapsto> Fresh)\<rparr>)"
| hub_refuse: "subscribe (h_broker s) = (None, b') \<Longrightarrow> hub_step E s (s\<lparr>h_broker := b'\<rparr>)"
| hub_first: "h_phase s i = Some Fresh \<Longrightarrow> stream_next E i Fresh (h_broker s) = (Some frame, p, b') \<Longrightarrow>
     hub_step E s (s\<lparr>h_broker := b', h_phase := (h_phase s)(i \<mapsto> p), h_frames := (h_frames s)(i := h_frames s i @ [frame])\<rparr>)"
| hub_read: "h_phase s i = Some Open \<Longrightarrow> stream_next E i Open (h_broker s) = (Some frame, p, b') \<Longrightarrow>
     hub_step E s (s\<lparr>h_broker := b', h_phase := (h_phase s)(i \<mapsto> p), h_frames := (h_frames s)(i := h_frames s i @ [frame]),
       h_trace := observe (h_broker s) (Consume i) (Delivered (fst (consume i (h_broker s)))) (h_trace s)\<rparr>)"
| hub_close: "h_phase s i = Some q \<Longrightarrow> stream_close i q (h_broker s) = (p, b') \<Longrightarrow>
     hub_step E s (s\<lparr>h_broker := b', h_phase := (h_phase s)(i \<mapsto> p)\<rparr>)"
| hub_publish: "hub_step E s (s\<lparr>h_broker := publish ev (h_broker s),
     h_trace := observe (h_broker s) (Publish ev) Silent (h_trace s)\<rparr>)"

inductive hub_run :: "env \<Rightarrow> int \<Rightarrow> hub \<Rightarrow> bool" for E n where
  hub_start: "hub_run E n (new_hub n)"
| hub_more: "hub_run E n s \<Longrightarrow> hub_step E s s' \<Longrightarrow> hub_run E n s'"

section \<open>What holds in every run\<close>

definition heartbeat :: string where
  "heartbeat = '': heartbeat'' @ newline @ newline"

definition event_frame :: "env \<Rightarrow> event \<Rightarrow> string" where
  "event_frame E ev = sse_data E (JObj ev)"

lemma event_frame_beats: "event_frame E ev \<noteq> heartbeat"
  by (simp add: event_frame_def sse_data_def heartbeat_def)

text \<open>The streams that were closed before they sent anything.\<close>

definition unread :: "hub \<Rightarrow> nat set" where
  "unread s = {i. h_phase s i = Some Ended \<and> h_frames s i = []}"

definition live :: "hub \<Rightarrow> nat set" where
  "live s = {i. h_phase s i = Some Fresh \<or> h_phase s i = Some Open}"

text \<open>What a stream has sent: the greeting, then the events delivered to it, with heartbeats between.\<close>

definition sent_well :: "env \<Rightarrow> string list \<Rightarrow> event list \<Rightarrow> bool" where
  "sent_well E frames evs \<longleftrightarrow>
     (case frames of [] \<Rightarrow> evs = []
      | f # fs \<Rightarrow> f = sse_first E \<and> filter (\<lambda>f. f \<noteq> heartbeat) fs = map (event_frame E) evs)"

definition hub_inv :: "env \<Rightarrow> int \<Rightarrow> hub \<Rightarrow> bool" where
  "hub_inv E n s \<longleftrightarrow> broker_inv n (h_broker s) \<and> trace_inv (h_broker s) (h_trace s) \<and>
     dom (map_of (subscribers (h_broker s))) = live s \<union> unread s \<and>
     (\<forall>i. (h_phase s i = None \<or> h_phase s i = Some Fresh \<longrightarrow> h_frames s i = []) \<and> (h_phase s i = Some Open \<longrightarrow> h_frames s i \<noteq> [])) \<and>
     (\<forall>i \<ge> next_queue (h_broker s). h_phase s i = None) \<and>
     (\<forall>i. sent_well E (h_frames s i) (tr_delivered (h_trace s) i))"

lemma dom_dict_set: "dom (map_of (dict_set k v d)) = insert k (dom (map_of d))"
  by auto

lemma dom_unsubscribe: "dom (map_of (subscribers (unsubscribe i b))) = dom (map_of (subscribers b)) - {i}"
  by (auto simp: map_of_unsubscribe split: if_splits)

lemma dom_publish: "dom (map_of (subscribers (publish ev b))) = dom (map_of (subscribers b))"
  by (auto simp: map_of_publish)

lemma dom_consume: "consume i b = (evs, b') \<Longrightarrow> dom (map_of (subscribers b')) = dom (map_of (subscribers b))"
  by (auto simp: consume_def split: option.splits prod.splits if_splits)

lemma next_queue_kept:
  "next_queue (publish ev b) = next_queue b" "next_queue (unsubscribe i b) = next_queue b"
  "consume i b = (evs, b') \<Longrightarrow> next_queue b' = next_queue b"
  by (auto simp: publish_def unsubscribe_def consume_def split: option.splits prod.splits)

lemma consume_few: "consume i b = (evs, b') \<Longrightarrow> evs = [] \<or> (\<exists>ev. evs = [ev])"
  by (auto simp: consume_def take_one_def split: option.splits prod.splits)

lemma sent_well_read:
  assumes "sent_well E frames evs" "frames \<noteq> []" "consume i b = (new, b')"
  shows "sent_well E (frames @ [fst (sse_next E i b)]) (evs @ new)" "snd (sse_next E i b) = b'"
  using consume_few [OF assms(3)] assms event_frame_beats [of E]
  by (auto simp: sent_well_def sse_next_def heartbeat_def event_frame_def split: list.splits)

lemma hub_inv_new: "hub_inv E n (new_hub n)"
  using broker_inv_new [of n] broker_run_inv [OF run_init, of n]
  by (auto simp: hub_inv_def new_hub_def live_def unread_def sent_well_def new_broker_def)

lemma hub_inv_step:
  assumes "hub_inv E n s" "hub_step E s s'" shows "hub_inv E n s'"
  using assms(2)
proof cases
  case (hub_connect i b')
  then have st: "broker_step (h_broker s) Subscribe (Subscribed i) b'" by (simp add: broker_step.intros)
  have i: "i = next_queue (h_broker s)" "next_queue b' = Suc i" "dom (map_of (subscribers b')) = insert i (dom (map_of (subscribers (h_broker s))))"
    using hub_connect(2) by (auto simp: subscribe_def dom_dict_set split: if_splits)
  then have new: "h_phase s i = None" using assms(1) by (simp add: hub_inv_def)
  show ?thesis
    using assms(1) broker_inv_step [OF _ st] trace_inv_step [OF _ _ st] i new hub_connect(1)
    by (auto simp: hub_inv_def live_def unread_def)
next
  case (hub_refuse b')
  then have "b' = h_broker s" by (auto simp: subscribe_def split: if_splits)
  with assms(1) hub_refuse show ?thesis by (simp add: hub_inv_def live_def unread_def)
next
  case (hub_first i frame p b')
  then have f: "frame = sse_first E" "p = Open" "b' = h_broker s" by (auto simp: stream_next_def)
  have "h_frames s i = []" "tr_delivered (h_trace s) i = []"
    using assms(1) hub_first(2) by (auto simp: hub_inv_def sent_well_def dest: spec [of _ i])
  with assms(1) f hub_first show ?thesis
    by (auto simp: hub_inv_def live_def unread_def sent_well_def)
next
  case (hub_read i frame p b')
  obtain new b1 where c: "consume i (h_broker s) = (new, b1)" by (cases "consume i (h_broker s)")
  have f: "frame = fst (sse_next E i (h_broker s))" "p = Open" "b' = b1"
    using hub_read(3) sent_well_read(2) [OF _ _ c, of E "[sse_first E]" "[]"]
    by (auto simp: stream_next_def sent_well_def split: prod.splits)
  have w: "sent_well E (h_frames s i) (tr_delivered (h_trace s) i)" "h_frames s i \<noteq> []"
    using assms(1) hub_read(2) by (auto simp: hub_inv_def)
  have st: "broker_step (h_broker s) (Consume i) (Delivered new) b1" using c by (simp add: broker_step.intros)
  have inv: "broker_inv n b1" "trace_inv b1 (observe (h_broker s) (Consume i) (Delivered new) (h_trace s))"
    using assms(1) broker_inv_step [OF _ st] trace_inv_step [OF _ _ st] by (auto simp: hub_inv_def)
  show ?thesis
    using assms(1) inv sent_well_read(1) [OF w c] dom_consume [OF c] next_queue_kept(3) [OF c] hub_read(1,2)
    unfolding hub_inv_def f c by (auto simp: live_def unread_def)
next
  case (hub_close i q p b')
  show ?thesis
  proof (cases "q = Open")
    case True
    then have c: "p = Ended" "b' = unsubscribe i (h_broker s)" using hub_close(3) by (auto simp: stream_close_def sse_close_def)
    have st: "broker_step (h_broker s) (Unsubscribe i) Silent b'" by (simp add: c(2))
    have inv: "broker_inv n b'" "trace_inv b' (h_trace s)"
      using assms(1) broker_inv_step [OF _ st] trace_inv_step [OF _ _ st] by (auto simp: hub_inv_def)
    have "dom (map_of (subscribers b')) = dom (map_of (subscribers (h_broker s))) - {i}" "next_queue b' = next_queue (h_broker s)"
      unfolding c(2) by (rule dom_unsubscribe) (rule next_queue_kept)
    with assms(1) inv hub_close(1,2) True c(1) show ?thesis by (auto simp: hub_inv_def live_def unread_def)
  next
    case False
    then have "p = Ended" "b' = h_broker s" using hub_close(3) by (auto simp: stream_close_def split: stream_phase.splits)
    with assms(1) hub_close(1,2) False show ?thesis by (cases q) (auto simp: hub_inv_def live_def unread_def)
  qed
next
  case (hub_publish ev)
  have st: "broker_step (h_broker s) (Publish ev) Silent (publish ev (h_broker s))" by simp
  have inv: "broker_inv n (publish ev (h_broker s))"
    "trace_inv (publish ev (h_broker s)) (observe (h_broker s) (Publish ev) Silent (h_trace s))"
    using assms(1) broker_inv_step [OF _ st] trace_inv_step [OF _ _ st] by (auto simp: hub_inv_def)
  with assms(1) hub_publish dom_publish [of ev "h_broker s"] next_queue_kept(1) [of ev "h_broker s"] show ?thesis
    by (auto simp: hub_inv_def live_def unread_def)
qed

lemma hub_run_inv: "hub_run E n s \<Longrightarrow> hub_inv E n s"
  by (induction rule: hub_run.induct) (auto intro: hub_inv_new hub_inv_step)

section \<open>Streams closed before their first read\<close>

lemma unread_stays: "hub_inv E n s \<Longrightarrow> hub_step E s s' \<Longrightarrow> unread s \<subseteq> unread s'"
proof -
  assume inv: "hub_inv E n s" and "hub_step E s s'"
  from this(2) show "unread s \<subseteq> unread s'"
  proof cases
    case (hub_connect i b')
    then have "i = next_queue (h_broker s)" by (auto simp: subscribe_def split: if_splits)
    then have "h_phase s i = None" using inv by (simp add: hub_inv_def)
    with hub_connect(1) show ?thesis by (auto simp: unread_def)
  qed (auto simp: unread_def stream_close_def)
qed

lemma unread_forever:
  assumes "(hub_step E)\<^sup>*\<^sup>* s s'" "hub_run E n s" shows "hub_run E n s' \<and> unread s \<subseteq> unread s'"
  using assms(1)
proof (induction rule: rtranclp_induct)
  case (step t u)
  then show ?case using unread_stays [OF hub_run_inv] hub_more by (meson order_trans)
qed (simp add: assms(2))

lemma subscribers_card: "broker_inv n b \<Longrightarrow> length (subscribers b) = card (dom (map_of (subscribers b)))"
  unfolding dom_map_of_conv_image_fst by (metis broker_inv_def dict_ok_def distinct_card length_map list.set_map)

lemma full_of_unread:
  assumes "hub_inv E n s" "0 < n" "n \<le> int (card (unread s))" shows "fst (subscribe (h_broker s)) = None"
proof -
  have "finite (dom (map_of (subscribers (h_broker s))))" by (simp add: finite_dom_map_of)
  moreover have "unread s \<subseteq> dom (map_of (subscribers (h_broker s)))" using assms(1) by (simp add: hub_inv_def)
  ultimately have "card (unread s) \<le> length (subscribers (h_broker s))"
    using subscribers_card assms(1) card_mono by (metis hub_inv_def)
  with assms show ?thesis by (simp add: subscribe_def hub_inv_def broker_inv_def)
qed

lemma unread_reachable: "int k \<le> n \<Longrightarrow> \<exists>s. hub_run E n s \<and> live s = {} \<and> finite (unread s) \<and> card (unread s) = k"
proof (induction k)
  case 0
  show ?case using hub_start [of E n] by (intro exI [of _ "new_hub n"]) (simp add: live_def unread_def new_hub_def)
next
  case (Suc k)
  then obtain s where s: "hub_run E n s" "live s = {}" "finite (unread s)" "card (unread s) = k" by auto
  have inv: "hub_inv E n s" using s(1) by (rule hub_run_inv)
  then have "length (subscribers (h_broker s)) = k" using subscribers_card s(2,4) by (metis hub_inv_def sup_bot_left)
  moreover have "max_subscribers (h_broker s) = n" using inv by (simp add: hub_inv_def broker_inv_def)
  ultimately obtain b' where sub: "subscribe (h_broker s) = (Some (next_queue (h_broker s)), b')"
    using Suc.prems by (auto simp: subscribe_def)
  let ?i = "next_queue (h_broker s)"
  have new: "h_phase s ?i = None" "h_frames s ?i = []" using inv by (auto simp: hub_inv_def)
  define t where "t = s\<lparr>h_broker := b', h_phase := (h_phase s)(?i \<mapsto> Fresh)\<rparr>"
  have t: "hub_run E n t" using hub_more [OF s(1) hub_connect [OF sub]] by (simp add: t_def)
  have c: "h_phase t ?i = Some Fresh" "stream_close ?i Fresh (h_broker t) = (Ended, b')" by (simp_all add: t_def stream_close_def)
  define u where "u = t\<lparr>h_broker := b', h_phase := (h_phase t)(?i \<mapsto> Ended)\<rparr>"
  have u: "hub_run E n u" using hub_more [OF t hub_close [OF c]] by (simp add: u_def)
  have "unread u = insert ?i (unread s)" "live u = {}" "?i \<notin> unread s"
    using new s(2) by (auto simp: u_def t_def unread_def live_def)
  with u s(3,4) show ?case by (intro exI [of _ u]) simp
qed

section \<open>Properties\<close>

text \<open>C10. In every run of the event endpoint, however connections, reads, closings and publications
  interleave: a queue is subscribed exactly while its stream is open or has not started, or when it was
  closed before its first read; and a stream that has sent something sent the greeting first, then,
  apart from heartbeats, frames of events published while it was subscribed, in their order.\<close>

theorem streams_and_subscriptions:
  assumes "hub_run E n s"
  shows "fst ` set (subscribers (h_broker s)) = live s \<union> unread s \<and>
    (h_frames s i \<noteq> [] \<longrightarrow> hd (h_frames s i) = sse_first E) \<and>
    subseq (filter (\<lambda>f. f \<noteq> heartbeat) (tl (h_frames s i))) (map (event_frame E) (tr_published (h_trace s) i))"
proof -
  have inv: "hub_inv E n s" using assms by (rule hub_run_inv)
  then have w: "sent_well E (h_frames s i) (tr_delivered (h_trace s) i)" and "trace_inv (h_broker s) (h_trace s)"
    by (simp_all add: hub_inv_def)
  then have "subseq (tr_delivered (h_trace s) i) (tr_published (h_trace s) i)"
    unfolding trace_inv_def by (meson list_emb_append2 list_emb_prefix subseq_order.trans subseq_rev_drop_many subseq_order.refl)
  then have "subseq (map (event_frame E) (tr_delivered (h_trace s) i)) (map (event_frame E) (tr_published (h_trace s) i))"
    by (rule subseq_map)
  with w have "(h_frames s i \<noteq> [] \<longrightarrow> hd (h_frames s i) = sse_first E) \<and>
    subseq (filter (\<lambda>f. f \<noteq> heartbeat) (tl (h_frames s i))) (map (event_frame E) (tr_published (h_trace s) i))"
    by (auto simp: sent_well_def split: list.splits)
  then show ?thesis using inv by (simp add: hub_inv_def dom_map_of_conv_image_fst)
qed

lemma one_stream:
  "\<exists>s. hub_run offline 1 s \<and> h_frames s 0 = [sse_first offline, event_frame offline [], heartbeat]"
proof -
  let ?b = "snd (subscribe (new_broker 1))"
  define s1 where "s1 = (new_hub 1)\<lparr>h_broker := ?b, h_phase := [0 \<mapsto> Fresh]\<rparr>"
  define s2 where "s2 = s1\<lparr>h_phase := [0 \<mapsto> Open], h_frames := (h_frames s1)(0 := [sse_first offline])\<rparr>"
  define s3 where "s3 = s2\<lparr>h_broker := publish [] ?b, h_trace := observe ?b (Publish []) Silent (h_trace s2)\<rparr>"
  have "hub_step offline (new_hub 1) s1"
    using hub_connect [where s = "new_hub 1" and i = 0 and b' = ?b and E = offline]
    by (simp add: s1_def new_hub_def subscribe_def new_broker_def)
  then have 1: "hub_run offline 1 s1" using hub_more hub_start by blast
  have "hub_step offline s1 s2"
    using hub_first [where s = s1 and i = 0 and frame = "sse_first offline" and p = Open and b' = ?b and E = offline]
    by (simp add: s1_def s2_def new_hub_def stream_next_def)
  then have 2: "hub_run offline 1 s2" using hub_more 1 by blast
  have "hub_step offline s2 s3"
    using hub_publish [where s = s2 and ev = "[]" and E = offline] by (simp add: s1_def s2_def s3_def)
  then have 3: "hub_run offline 1 s3" using hub_more 2 by blast
  obtain s4 where 4: "hub_run offline 1 s4" "h_phase s4 0 = Some Open" "h_broker s4 = ?b"
    "h_frames s4 0 = [sse_first offline, event_frame offline []]"
  proof -
    have "stream_next offline 0 Open (h_broker s3) = (Some (event_frame offline []), Open, ?b)"
      by (simp add: s3_def stream_next_def sse_next_def consume_def publish_def subscribe_def new_broker_def offer_def
          put_nowait_def new_queue_def queue_full_def take_one_def get_nowait_def event_frame_def)
    from hub_more [OF 3 hub_read [OF _ this]] show ?thesis
      by (intro that) (auto simp: s3_def s2_def s1_def new_hub_def)
  qed
  have "stream_next offline 0 Open (h_broker s4) = (Some heartbeat, Open, ?b)"
    by (simp add: 4(3) stream_next_def sse_next_def consume_def subscribe_def new_broker_def new_queue_def
        take_one_def get_nowait_def heartbeat_def)
  from hub_more [OF 4(1) hub_read [OF 4(2) this]] 4(4) show ?thesis by (intro exI) (auto intro: conjI)
qed

lemma streams_and_subscriptions_witness:
  "\<exists>s. hub_run offline 1 s \<and> length (h_frames s 0) = 3 \<and> hd (h_frames s 0) = sse_first offline \<and>
    fst ` set (subscribers (h_broker s)) = live s \<union> unread s"
proof -
  obtain s where s: "hub_run offline 1 s" "h_frames s 0 = [sse_first offline, event_frame offline [], heartbeat]"
    using one_stream by blast
  with streams_and_subscriptions [OF s(1), of 0] show ?thesis by auto
qed

text \<open>C26. A connection subscribes before its stream starts, and a stream that is closed before its first
  read never reaches the code that ends the subscription. With a cap of \<open>n\<close>, \<open>n\<close> such connections lock
  the endpoint: no stream is left, and every later connection is refused, whatever happens.\<close>

theorem unread_streams_exhaust_cap:
  assumes "0 < n"
  shows "\<exists>s. hub_run E n s \<and> live s = {} \<and> (\<forall>s'. (hub_step E)\<^sup>*\<^sup>* s s' \<longrightarrow> fst (subscribe (h_broker s')) = None)"
proof -
  from unread_reachable [of "nat n" n E] assms obtain s where
    s: "hub_run E n s" "live s = {}" "card (unread s) = nat n" by auto
  have "fst (subscribe (h_broker s')) = None" if "(hub_step E)\<^sup>*\<^sup>* s s'" for s'
  proof -
    have run: "hub_run E n s'" "unread s \<subseteq> unread s'" using unread_forever [OF that s(1)] by auto
    have inv: "hub_inv E n s'" using run(1) by (rule hub_run_inv)
    have "finite (unread s')"
    proof (rule finite_subset)
      show "unread s' \<subseteq> dom (map_of (subscribers (h_broker s')))" using inv by (simp add: hub_inv_def)
    qed (simp add: finite_dom_map_of)
    then have "nat n \<le> card (unread s')" using s(3) card_mono [OF _ run(2)] by simp
    then show ?thesis using assms by (intro full_of_unread [OF inv]) auto
  qed
  with s(1,2) show ?thesis by blast
qed

lemma unread_streams_exhaust_cap_witness:
  "\<exists>s. hub_run offline 100 s \<and> live s = {} \<and> fst (subscribe (h_broker s)) = None"
  using unread_streams_exhaust_cap [of 100 offline] by auto

end
