(* ===== verification/Severity.thy ===== *)
theory Severity
  imports Osv Fetcher
begin

text \<open>
  The scale of severities as a linear order. The program keeps severities as texts and ranks them
  with two tables, \<open>SEVERITY_RANK\<close> of \<open>app/fetcher.py\<close> and \<open>SEVERITY_ORDER\<close> of \<open>app/osv.py\<close>; both
  rank as the order does. Over the order, what the components do to severities is a maximum or
  monotone: the inference from a score, the merging of duplicates and the OSV step.
\<close>

section \<open>Levels\<close>

datatype level = Unknown | Low | Medium | High | Critical

fun level_rank :: "level \<Rightarrow> nat" where
  "level_rank Unknown = 0"
| "level_rank Low = 1"
| "level_rank Medium = 2"
| "level_rank High = 3"
| "level_rank Critical = 4"

lemma level_rank_inj [simp]: "level_rank a = level_rank b \<longleftrightarrow> a = b"
  by (cases a; cases b) simp_all

instantiation level :: linorder
begin

definition less_eq_level :: "level \<Rightarrow> level \<Rightarrow> bool" where
  "a \<le> b \<longleftrightarrow> level_rank a \<le> level_rank b"

definition less_level :: "level \<Rightarrow> level \<Rightarrow> bool" where
  "a < b \<longleftrightarrow> level_rank a < level_rank b"

instance
  by standard (auto simp: less_eq_level_def less_level_def simp flip: level_rank_inj)

end

text \<open>A text that is no level ranks as unknown.\<close>

definition level_of :: "string \<Rightarrow> level" where
  "level_of s = (if s = ''critical'' then Critical else if s = ''high'' then High else if s = ''medium'' then Medium
     else if s = ''low'' then Low else Unknown)"

lemma level_of_simps [simp]:
  "level_of ''critical'' = Critical" "level_of ''high'' = High" "level_of ''medium'' = Medium" "level_of ''low'' = Low"
  "level_of ''unknown'' = Unknown"
  by (simp_all add: level_of_def)

section \<open>The two tables rank as the order\<close>

lemma severity_rank_level: "severity_rank s = level_rank (level_of s)"
  by (auto simp: severity_rank_def level_of_def dict_get_def)

lemma osv_key_level: "fst (snd (osv_key it)) = level_rank (level_of (severity it))"
  by (auto simp: osv_key_def level_of_def dict_get_def)

lemma severity_rank_le: "severity_rank s \<le> severity_rank t \<longleftrightarrow> level_of s \<le> level_of t"
  by (simp add: severity_rank_level less_eq_level_def)

section \<open>What the components do to severities\<close>

lemma infer_severity_mono:
  assumes "x \<le> y" shows "level_of (infer_severity text (Some x)) \<le> level_of (infer_severity text' (Some y))"
  using assms by (auto simp: infer_severity_def less_eq_level_def)

lemma merge_item_severity: "level_of (severity (merge_item a b)) = max (level_of (severity a)) (level_of (severity b))"
  using severity_rank_level by (auto simp: merge_item_def max_def less_eq_level_def)

text \<open>An item of the de-duplicated feed has the greatest severity of the items with its id.\<close>

lemma dedupe_severity:
  assumes "it \<in> set (dedupe items)"
  shows "level_of (severity it) = Max ((level_of \<circ> severity) ` {x \<in> set items. item_id x = item_id it})"
proof -
  from assms obtain x xs where x: "filter (\<lambda>y. item_id y = item_id it) items = x # xs" "it = merged x xs"
    unfolding dedupe_in by blast
  then have same: "{y \<in> set items. item_id y = item_id it} = set (x # xs)" by (metis set_filter)
  have "severity it \<in> severity ` set (x # xs)" "\<forall>y \<in> set (x # xs). level_of (severity y) \<le> level_of (severity it)"
    using merged_severity [where x = x and xs = xs] x(2) by (simp_all add: severity_rank_le)
  then show ?thesis unfolding same by (intro Max_eqI [symmetric]) auto
qed

text \<open>The OSV step never lowers a severity.\<close>

lemma osv_severity_mono: "level_of (severity it) \<le> level_of (severity (osv_item osv it))"
proof (cases "severity it = ''unknown''")
  case True
  then show ?thesis by (simp add: less_eq_level_def)
next
  case False
  have "severity (add_osv osv c x) = severity x" if "severity x \<noteq> ''unknown''" for c x
    using that by (simp add: add_osv_def Let_def split: option.split)
  then have "severity (fold (add_osv osv) cs x) = severity x" if "severity x \<noteq> ''unknown''" for cs x
    using that by (induction cs arbitrary: x) auto
  with False show ?thesis by (simp add: osv_item_def)
qed

end
