(* ===== verification/Runners.thy ===== *)
theory Runners
  imports Migrate
begin

text \<open>
  Several migration runners against one server (a deployment starts one per replica). Each runner
  is a session of \<open>apply_pending\<close> after it connected, cut into the steps between which others may
  act: what lies between two commits is one step. A session may also be lost at any point; the
  server then rolls back its transaction and releases its lock. The steps of a session that runs
  alone are the code's session; in every interleaving one runner at a time works, each migration is
  applied at most once and in order, and every session ends.
\<close>

section \<open>A session in steps\<close>

datatype phase =
    Opened
  | Locked
  | Tracked
  | Files "string list" "migration list"
  | Unlocking "string list result"
  | Closing "string list result"
  | Closed "string list result"

definition lock_refused :: exc where
  "lock_refused = migration_error ''another migration runner holds the advisory lock; try again''"

text \<open>The lock and the tracking table; the versions pending; one file; the \<open>finally\<close> block.\<close>

fun session_step :: "'s runner \<Rightarrow> phase \<Rightarrow> ('s server, phase) io" where
  "session_step R Opened =
     bind (query (\<lambda>_. ())) (\<lambda>_.
     bind commit (\<lambda>_.
     bind try_lock (\<lambda>acquired.
     bind commit (\<lambda>_.
     ret (if acquired then Locked else Closing (Inl lock_refused))))))"
| "session_step R Locked = bind ensure_tracking_table (\<lambda>_. ret Tracked)"
| "session_step R Tracked =
     bind (pending_versions R) (\<lambda>p.
     bind commit (\<lambda>_.
     if p = [] then bind (lift (latest_version R)) (\<lambda>_. ret (Unlocking (Inr [])))
     else bind (lift (migration_files R)) (\<lambda>fs. ret (Files p fs))))"
| "session_step R (Files p []) = ret (Unlocking (Inr p))"
| "session_step R (Files p (f # fs)) =
     bind (if fst f \<in> set p then apply_file R f else ret ()) (\<lambda>_. ret (Files p fs))"
| "session_step R (Unlocking r) = bind (bind unlock (\<lambda>_. commit)) (\<lambda>_. ret (Closing r))"
| "session_step R (Closing r) = bind close_conn (\<lambda>_. ret (Closed r))"
| "session_step R (Closed r) = ret (Closed r)"

text \<open>An exception leaves the \<open>try\<close> block; the lock is still held.\<close>

definition next_phase :: "phase result \<Rightarrow> phase" where
  "next_phase r = (case r of Inr p \<Rightarrow> p | Inl e \<Rightarrow> Unlocking (Inl e))"

definition solo :: "'s runner \<Rightarrow> phase \<times> 's server world \<Rightarrow> phase \<times> 's server world" where
  "solo R pw = (case session_step R (fst pw) (snd pw) of (r, w) \<Rightarrow> (next_phase r, w))"

lemma next_phase_simps [simp]: "next_phase (Inr p) = p" "next_phase (Inl e) = Unlocking (Inl e)"
  by (simp_all add: next_phase_def)

section \<open>The steps are the code's session\<close>

definition leads :: "'s runner \<Rightarrow> phase \<times> 's server world \<Rightarrow> phase \<times> 's server world \<Rightarrow> bool" where
  "leads R a b \<longleftrightarrow> (\<exists>n. (solo R ^^ n) a = b)"

lemma leads_refl: "leads R a a"
  unfolding leads_def by (intro exI [of _ 0]) simp

lemma leads_step: "solo R a = b \<Longrightarrow> leads R b c \<Longrightarrow> leads R a c"
  unfolding leads_def by (metis comp_apply funpow_Suc_right)

lemma leads_trans: "leads R a b \<Longrightarrow> leads R b c \<Longrightarrow> leads R a c"
  unfolding leads_def by (metis comp_apply funpow_add)

lemma leads_solo: "solo R a = b \<Longrightarrow> leads R a b"
  using leads_step leads_refl by blast

lemma files_lead:
  assumes "apply_files R p fs w = (r, w')"
  shows "leads R (Files p fs, w) (Unlocking (case r of Inl e \<Rightarrow> Inl e | Inr _ \<Rightarrow> Inr p), w')"
  using assms
proof (induction fs arbitrary: w)
  case Nil
  then show ?case by (auto intro!: leads_solo simp: solo_def run_ret)
next
  case (Cons f fs)
  obtain q v where m: "(if fst f \<in> set p then apply_file R f else ret ()) w = (q, v)" by force
  show ?case
  proof (cases q)
    case (Inl e)
    with m Cons.prems have "solo R (Files p (f # fs), w) = (Unlocking (Inl e), v) \<and> r = Inl e \<and> w' = v"
      by (auto simp: solo_def bind_def)
    then show ?thesis by (auto intro: leads_solo)
  next
    case (Inr u)
    with m Cons.prems have "solo R (Files p (f # fs), w) = (Files p fs, v)" "apply_files R p fs v = (r, w')"
      by (simp_all add: solo_def bind_def run_ret)
    then show ?thesis using Cons.IH leads_step by blast
  qed
qed

lemma tracked_leads:
  assumes "bind (pending_versions R) (\<lambda>p. bind commit (\<lambda>_.
     if p = [] then bind (lift (latest_version R)) (\<lambda>_. ret [])
     else bind (lift (migration_files R)) (\<lambda>fs. bind (apply_files R p fs) (\<lambda>_. ret p)))) w = (r, w')"
  shows "leads R (Tracked, w) (Unlocking r, w')"
proof -
  obtain q v where m: "pending_versions R w = (q, v)" by force
  show ?thesis
  proof (cases q)
    case (Inl e)
    with m assms show ?thesis by (intro leads_solo) (auto simp: solo_def bind_stop)
  next
    case (Inr p)
    obtain u where u: "commit v = (Inr (), u)" by (simp add: commit_def)
    note run = bind_run m [unfolded Inr] u
    show ?thesis
    proof (cases "p = [] \<or> (\<exists>e. migration_files R = Inl e)")
      case True
      then have "solo R (Tracked, w) = (Unlocking r, w')" using assms
        by (cases "latest_version R"; cases "migration_files R") (auto simp: solo_def run bind_def run_ret)
      then show ?thesis by (rule leads_solo)
    next
      case False
      then obtain fs where fs: "p \<noteq> []" "migration_files R = Inr fs" by (cases "migration_files R") auto
      obtain q' w1 where a: "apply_files R p fs u = (q', w1)" by force
      have "solo R (Tracked, w) = (Files p fs, u)" using fs by (simp add: solo_def run bind_def run_ret)
      moreover have "r = (case q' of Inl e \<Rightarrow> Inl e | Inr _ \<Rightarrow> Inr p) \<and> w' = w1"
        using fs a assms by (cases q') (simp_all add: run bind_def run_ret)
      ultimately show ?thesis using files_lead [OF a] leads_step by blast
    qed
  qed
qed

lemma locked_leads:
  assumes "upgrade_session R w = (r, w')" shows "leads R (Locked, w) (Unlocking r, w')"
proof -
  obtain q v where m: "ensure_tracking_table w = (q, v)" by force
  show ?thesis
  proof (cases q)
    case (Inl e)
    with m assms show ?thesis by (intro leads_solo) (auto simp: solo_def upgrade_session_def bind_stop)
  next
    case (Inr u)
    with m have "solo R (Locked, w) = (Tracked, v)" by (simp add: solo_def bind_def run_ret)
    moreover have "leads R (Tracked, v) (Unlocking r, w')"
      using assms m Inr by (intro tracked_leads) (simp add: upgrade_session_def bind_run)
    ultimately show ?thesis by (rule leads_step)
  qed
qed

lemma unlocking_leads:
  assumes "bind unlock (\<lambda>_. commit) w = (Inr (), w1)" "close_conn w1 = (Inr (), w')"
  shows "leads R (Unlocking r, w) (Closed r, w')"
proof (rule leads_step)
  show "solo R (Unlocking r, w) = (Closing r, w1)" using assms(1) by (simp add: solo_def bind_run run_ret)
  show "leads R (Closing r, w1) (Closed r, w')" using assms(2) by (intro leads_solo) (simp add: solo_def bind_run run_ret)
qed

lemma session_leads:
  assumes "ensuring close_conn (locked_session R) w = (r, w')"
  shows "leads R (Opened, w) (Closed r, w')"
proof -
  obtain v1 where v1: "query (\<lambda>_. ()) w = (Inr (), v1)" by (simp add: session_defs Let_def)
  obtain v2 where v2: "commit v1 = (Inr (), v2)" by (simp add: commit_def)
  obtain ok v3 where v3: "try_lock v2 = (Inr ok, v3)"
    by (cases "sv_other (w_db v2)") (auto simp: try_lock_def session_defs Let_def)
  obtain v where v: "commit v3 = (Inr (), v)" by (simp add: commit_def)
  note run = bind_run v1 v2 v3 v
  have opened: "solo R (Opened, w) = (if ok then Locked else Closing (Inl lock_refused), v)"
    by (simp add: solo_def run run_ret)
  have session: "locked_session R w = (if \<not> ok then raise lock_refused else ensuring (bind unlock (\<lambda>_. commit)) (upgrade_session R)) v"
    by (simp add: locked_session_def lock_refused_def run)
  show ?thesis
  proof (cases ok)
    case False
    with session assms have "r = Inl lock_refused" "close_conn v = (Inr (), w')"
      by (auto simp: ensuring_def attempt_def bind_def run_ret close_conn_def)
    then have "leads R (Closing (Inl lock_refused), v) (Closed r, w')"
      by (intro leads_solo) (simp add: solo_def bind_run run_ret)
    with opened False leads_step show ?thesis by simp blast
  next
    case True
    obtain q u where u: "upgrade_session R v = (q, u)" by force
    obtain w1 where w1: "bind unlock (\<lambda>_. commit) u = (Inr (), w1)" by (simp add: unlock_def session_defs Let_def)
    obtain w2 where w2: "close_conn w1 = (Inr (), w2)" by (simp add: close_conn_def)
    have "locked_session R w = (q, w1)"
      using session True u w1 by (simp add: ensuring_def attempt_def bind_run run_ret)
    with assms w2 have "r = q" "w' = w2" by (auto simp: ensuring_def attempt_def bind_run run_ret)
    then show ?thesis using opened True locked_leads [OF u] unlocking_leads [OF w1 w2, of R q] leads_step leads_trans by simp blast
  qed
qed

section \<open>Runners side by side\<close>

text \<open>
  The server's database, the runner that has the advisory lock, and the transaction and the phase
  of every runner. A runner sees the server with its own transaction and its own side of the lock.
\<close>

record 's cluster =
  cl_world :: "'s server world"
  cl_holder :: "nat option"
  cl_work :: "nat \<Rightarrow> 's pgdb option"
  cl_phase :: "nat \<Rightarrow> phase"

abbreviation cl_db :: "'s cluster \<Rightarrow> 's pgdb" where
  "cl_db c \<equiv> sv_db (w_db (cl_world c))"

definition view :: "nat \<Rightarrow> 's cluster \<Rightarrow> 's server world" where
  "view i c = (cl_world c)\<lparr>w_db := \<lparr>sv_db = cl_db c, sv_work = cl_work c i, sv_lock = (cl_holder c = Some i),
     sv_other = (cl_holder c \<noteq> None \<and> cl_holder c \<noteq> Some i)\<rparr>\<rparr>"

definition put :: "nat \<Rightarrow> 's cluster \<Rightarrow> phase \<times> 's server world \<Rightarrow> 's cluster" where
  "put i c pw = (case pw of (p, w) \<Rightarrow> \<lparr>cl_world = w,
     cl_holder = (if sv_lock (w_db w) then Some i else if cl_holder c = Some i then None else cl_holder c),
     cl_work = (cl_work c)(i := sv_work (w_db w)), cl_phase = (cl_phase c)(i := p)\<rparr>)"

text \<open>A runner takes its next step, or its session is lost.\<close>

datatype turn = Advance nat | Lose nat

definition session_lost :: exc where
  "session_lost = Exc ''OperationalError'' OtherExc ''server closed the connection unexpectedly'' None None"

definition lose :: "phase \<times> 's server world \<Rightarrow> phase \<times> 's server world" where
  "lose pw = (case fst pw of Closed r \<Rightarrow> pw | _ \<Rightarrow> (Closed (Inl session_lost), snd (close_conn (snd pw))))"

fun take_turn :: "'s runner \<Rightarrow> turn \<Rightarrow> 's cluster \<Rightarrow> 's cluster" where
  "take_turn R (Advance i) c = put i c (solo R (cl_phase c i, view i c))"
| "take_turn R (Lose i) c = put i c (lose (cl_phase c i, view i c))"

text \<open>Every runner has just connected.\<close>

definition opened :: "'s server world \<Rightarrow> 's cluster" where
  "opened w = \<lparr>cl_world = w, cl_holder = None, cl_work = (\<lambda>_. None), cl_phase = (\<lambda>_. Opened)\<rparr>"

lemma opened_sel [simp]: "cl_phase (opened w) i = Opened" "cl_holder (opened w) = None" "cl_work (opened w) i = None"
    "cl_world (opened w) = w"
  by (simp_all add: opened_def)

definition run_turns :: "'s runner \<Rightarrow> turn list \<Rightarrow> 's cluster \<Rightarrow> 's cluster" where
  "run_turns R ts c = fold (take_turn R) ts c"

section \<open>The invariant\<close>

text \<open>How the upgrade of a session ended when the migrations \<open>rest\<close> are still due on the schema \<open>s\<close>:
  nothing is left, or the next migration fails. A session may also have been refused the lock or lost.\<close>

definition finished :: "'s runner \<Rightarrow> migration list \<Rightarrow> 's \<Rightarrow> string list result \<Rightarrow> bool" where
  "finished R rest s r \<longleftrightarrow> (case r of Inr vs \<Rightarrow> rest = [] | Inl e \<Rightarrow> rest \<noteq> [] \<and> script R (hd rest) s = Inl e)"

definition explained :: "'s runner \<Rightarrow> migration list \<Rightarrow> 's \<Rightarrow> string list result \<Rightarrow> bool" where
  "explained R rest s r \<longleftrightarrow> r = Inl lock_refused \<or> r = Inl session_lost \<or> finished R rest s r"

fun phase_ok :: "'s runner \<Rightarrow> migration list \<Rightarrow> 's pgdb \<Rightarrow> bool \<Rightarrow> 's pgdb option \<Rightarrow> phase \<Rightarrow> bool" where
  "phase_ok R rest d held work Opened \<longleftrightarrow> \<not> held \<and> work = None"
| "phase_ok R rest d held work Locked \<longleftrightarrow> held \<and> work = None"
| "phase_ok R rest d held work Tracked \<longleftrightarrow> held \<and> work = None \<and> pd_versions d \<noteq> None"
| "phase_ok R rest d held work (Files p fs) \<longleftrightarrow>
     held \<and> work = None \<and> pd_versions d \<noteq> None \<and> filter (\<lambda>f. fst f \<in> set p) fs = rest"
| "phase_ok R rest d held work (Unlocking r) \<longleftrightarrow> held \<and> work = None \<and> finished R rest (pd_schema d) r"
| "phase_ok R rest d held work (Closing r) \<longleftrightarrow> \<not> held \<and> work = None \<and> explained R rest (pd_schema d) r"
| "phase_ok R rest d held work (Closed r) \<longleftrightarrow> \<not> held \<and> work = None \<and> explained R rest (pd_schema d) r"

text \<open>The database is the one of the beginning with the first migrations due applied.\<close>

definition progressed :: "'s runner \<Rightarrow> migration list \<Rightarrow> 's pgdb \<Rightarrow> migration list \<Rightarrow> migration list \<Rightarrow> 's pgdb \<Rightarrow> bool" where
  "progressed R fs d don rest d' \<longleftrightarrow> due d fs = don @ rest \<and>
     res_fold (script R) don (pd_schema d) = Inr (pd_schema d') \<and>
     (d' = upgraded d don (pd_schema d') \<or> d' = d \<and> don = [])"

definition cluster_ok :: "'s runner \<Rightarrow> migration list \<Rightarrow> 's pgdb \<Rightarrow> 's cluster \<Rightarrow> bool" where
  "cluster_ok R fs d c \<longleftrightarrow> (\<exists>don rest. progressed R fs d don rest (cl_db c) \<and>
     (\<forall>i. phase_ok R rest (cl_db c) (cl_holder c = Some i) (cl_work c i) (cl_phase c i)))"

lemma res_fold_append: "res_fold f (xs @ ys) s = res_bind (res_fold f xs s) (res_fold f ys)"
proof (induction xs arbitrary: s)
  case (Cons x xs)
  then show ?case by (cases "f x s") simp_all
qed simp

lemma upgraded_again: "d' = upgraded d xs s \<Longrightarrow> upgraded d' ys s' = upgraded d (xs @ ys) s'"
  by simp

lemma progressed_due:
  assumes "progressed R fs d don rest d'" "distinct (map fst fs)"
  shows "due d' fs = rest" and "applied d' = applied d @ map fst don" and "distinct (map fst rest)"
proof -
  have dist: "distinct (map fst (don @ rest))"
    using assms unfolding progressed_def due_def by (metis distinct_map_filter)
  then show "distinct (map fst rest)" by simp
  show app: "applied d' = applied d @ map fst don"
    using assms(1) unfolding progressed_def by (metis append.right_neutral applied_upgraded list.map_disc_iff)
  have "due d' fs = filter (\<lambda>f. fst f \<notin> fst ` set don) (due d fs)"
    by (auto simp: due_def app conj_commute intro!: filter_cong)
  also have "\<dots> = rest" using assms(1) dist by (auto simp: progressed_def filter_id_conv filter_empty_conv)
  finally show "due d' fs = rest" .
qed

lemma progressed_upgraded:
  assumes "progressed R fs d don rest d'" shows "upgraded d' ys s = upgraded d (don @ ys) s"
proof (cases "d' = d \<and> don = []")
  case False
  with assms have "d' = upgraded d don (pd_schema d')" by (auto simp: progressed_def)
  then show ?thesis by (rule upgraded_again)
qed simp

lemma progressed_tracked:
  assumes "progressed R fs d don rest d'" shows "progressed R fs d don rest (upgraded d' [] (pd_schema d'))"
  using assms progressed_upgraded [OF assms] by (simp add: progressed_def)

lemma progressed_apply:
  assumes "progressed R fs d don (f # rest) d'" "script R f (pd_schema d') = Inr s"
  shows "progressed R fs d (don @ [f]) rest (upgraded d' [f] s)"
  using assms progressed_upgraded [OF assms(1)] by (simp add: progressed_def res_fold_append)

section \<open>Every turn keeps the invariant\<close>

lemma opened_step:
  "sv_work (w_db w) = None \<Longrightarrow> session_step R Opened w =
     (Inr (if sv_other (w_db w) then Closing (Inl lock_refused) else Locked),
      w\<lparr>w_db := (w_db w)\<lparr>sv_lock := sv_lock (w_db w) \<or> \<not> sv_other (w_db w)\<rparr>\<rparr>)"
  by (simp add: try_lock_def session_defs Let_def)

lemma locked_step:
  "sv_work (w_db w) = None \<Longrightarrow> session_step R Locked w =
     (Inr Tracked, w\<lparr>w_db := (w_db w)\<lparr>sv_db := upgraded (sv_db (w_db w)) [] (pd_schema (sv_db (w_db w)))\<rparr>\<rparr>)"
  using ensure_tracking_run [of w] by (simp add: bind_run run_ret)

lemma tracked_step:
  assumes "sv_work (w_db w) = None" "migration_files R = Inr fs"
  shows "session_step R Tracked w = (Inr (if due (sv_db (w_db w)) fs = [] then Unlocking (Inr [])
     else Files (map fst (due (sv_db (w_db w)) fs)) fs), w)"
proof -
  let ?u = "w\<lparr>w_db := (w_db w)\<lparr>sv_work := Some (sv_db (w_db w))\<rparr>\<rparr>"
  have "commit ?u = (Inr (), w)" using assms(1) by (simp add: commit_def visible_def)
  with pending_run [OF assms] assms(2) show ?thesis by (simp add: bind_run run_ret latest_version_def)
qed

lemma files_step:
  assumes "sv_work (w_db w) = None" "pd_versions (sv_db (w_db w)) \<noteq> None"
    "fst f \<in> set p \<Longrightarrow> fst f \<notin> set (applied (sv_db (w_db w)))"
  shows "session_step R (Files p (f # fs)) w =
    (if fst f \<notin> set p then (Inr (Files p fs), w)
     else case script R f (pd_schema (sv_db (w_db w))) of
       Inl e \<Rightarrow> (Inl e, w)
     | Inr s \<Rightarrow> (Inr (Files p fs), w\<lparr>w_db := (w_db w)\<lparr>sv_db := upgraded (sv_db (w_db w)) [f] s\<rparr>\<rparr>))"
proof (cases "fst f \<in> set p")
  case True
  from apply_file_run [OF assms(1,2) assms(3) [OF True], of R] True show ?thesis
    by (cases "script R f (pd_schema (sv_db (w_db w)))") (simp_all add: bind_run bind_stop run_ret)
qed (simp add: bind_run run_ret)

lemma unlocking_step:
  "sv_work (w_db w) = None \<Longrightarrow> session_step R (Unlocking r) w = (Inr (Closing r), w\<lparr>w_db := (w_db w)\<lparr>sv_lock := False\<rparr>\<rparr>)"
  by (simp add: unlock_def session_defs Let_def)

lemma closing_step:
  "sv_work (w_db w) = None \<Longrightarrow> session_step R (Closing r) w = (Inr (Closed r), w\<lparr>w_db := (w_db w)\<lparr>sv_lock := False\<rparr>\<rparr>)"
  by (simp add: session_defs)

declare session_step.simps [simp del]

lemma view_sel [simp]:
  "sv_db (w_db (view i c)) = cl_db c" "sv_work (w_db (view i c)) = cl_work c i"
  "sv_lock (w_db (view i c)) = (cl_holder c = Some i)"
  "sv_other (w_db (view i c)) = (cl_holder c \<noteq> None \<and> cl_holder c \<noteq> Some i)"
  by (simp_all add: view_def)

text \<open>A runner without the lock is indifferent to what the holder does, as long as explanations stand.\<close>

lemma phase_ok_waiting:
  assumes "phase_ok R rest d False work p" "\<And>r. explained R rest (pd_schema d) r \<Longrightarrow> explained R rest' (pd_schema d') r"
  shows "phase_ok R rest' d' False work p"
  using assms by (cases p) auto

lemma cluster_ok_put:
  assumes c: "progressed R fs d don rest (cl_db c)"
      "\<And>j. phase_ok R rest (cl_db c) (cl_holder c = Some j) (cl_work c j) (cl_phase c j)"
    and new: "progressed R fs d don' rest' (sv_db (w_db w))" "phase_ok R rest' (sv_db (w_db w)) (sv_lock (w_db w)) (sv_work (w_db w)) p"
    and lock: "sv_lock (w_db w) \<Longrightarrow> cl_holder c = None \<or> cl_holder c = Some i"
    and change: "sv_db (w_db w) = cl_db c \<and> rest' = rest \<or> cl_holder c = Some i \<and>
      (\<forall>r. explained R rest (pd_schema (cl_db c)) r \<longrightarrow> explained R rest' (pd_schema (sv_db (w_db w))) r)"
  shows "cluster_ok R fs d (put i c (p, w))"
proof -
  have "phase_ok R rest' (sv_db (w_db w)) (cl_holder (put i c (p, w)) = Some j) (cl_work (put i c (p, w)) j) (cl_phase (put i c (p, w)) j)" for j
  proof (cases "j = i")
    case True
    with new(2) lock show ?thesis by (auto simp: put_def)
  next
    case False
    then have held: "cl_holder (put i c (p, w)) = Some j \<longleftrightarrow> cl_holder c = Some j" using lock by (auto simp: put_def)
    have same: "cl_work (put i c (p, w)) j = cl_work c j" "cl_phase (put i c (p, w)) j = cl_phase c j"
      using False by (simp_all add: put_def)
    show ?thesis
    proof (cases "sv_db (w_db w) = cl_db c \<and> rest' = rest")
      case True
      with c(2) [of j] show ?thesis unfolding held same by simp
    next
      case nochange: False
      with change False have "\<not> cl_holder c = Some j" by auto
      with c(2) [of j] nochange change show ?thesis unfolding held same
        by (auto intro: phase_ok_waiting)
    qed
  qed
  moreover have "cl_db (put i c (p, w)) = sv_db (w_db w)" by (simp add: put_def)
  ultimately show ?thesis using new(1) unfolding cluster_ok_def by metis
qed

lemma solo_ok:
  assumes c: "progressed R fs d don rest (cl_db c)"
      "\<And>j. phase_ok R rest (cl_db c) (cl_holder c = Some j) (cl_work c j) (cl_phase c j)"
    and fs: "migration_files R = Inr fs" "distinct (map fst fs)"
  shows "cluster_ok R fs d (put i c (solo R (cl_phase c i, view i c)))"
proof -
  note here = c(2) [of i] and due = progressed_due [OF c(1) fs(2)]
  have work: "cl_work c i = None" using here by (cases "cl_phase c i") auto
  then have w: "sv_work (w_db (view i c)) = None" by simp
  note put_same = cluster_ok_put [OF c, where don' = don and rest' = rest and i = i]
  note steps = solo_def opened_step [OF w] locked_step [OF w] tracked_step [OF w fs(1)] unlocking_step [OF w] closing_step [OF w]
  show ?thesis
  proof (cases "cl_phase c i")
    case Opened
    with here work c(1) show ?thesis by (auto simp: steps explained_def finished_def intro!: put_same)
  next
    case Locked
    with here work progressed_tracked [OF c(1)] show ?thesis
      by (auto simp: steps upgraded_def intro!: put_same)
  next
    case Tracked
    have "filter (\<lambda>f. fst f \<in> set (map fst (due (cl_db c) fs))) fs = due (cl_db c) fs"
      unfolding due_def by (rule filter_cong [OF refl]) (auto intro: rev_image_eqI)
    with Tracked here work c(1) due(1) show ?thesis by (auto simp: steps explained_def finished_def intro!: put_same)
  next
    case (Files p todo)
    show ?thesis
    proof (cases todo)
      case Nil
      with Files here work c(1) show ?thesis by (auto simp: solo_def session_step.simps run_ret explained_def finished_def intro!: put_same)
    next
      case (Cons f gs)
      from Files Cons here have held: "cl_holder c = Some i" and tab: "pd_versions (cl_db c) \<noteq> None"
        and rest: "filter (\<lambda>f. fst f \<in> set p) (f # gs) = rest" by auto
      have new: "fst f \<in> set p \<Longrightarrow> fst f \<notin> set (applied (cl_db c))"
        using rest due(1) by (auto simp: due_def filter_eq_Cons_iff)
      note step = files_step [where f = f and p = p and R = R and fs = gs, OF w, unfolded view_sel, OF tab new]
      show ?thesis
      proof (cases "fst f \<in> set p")
        case False
        with Files Cons step held tab rest work c(1) show ?thesis by (auto simp: solo_def intro!: put_same)
      next
        case True
        then obtain rest' where rest': "rest = f # rest'" "filter (\<lambda>f. fst f \<in> set p) gs = rest'" using rest by auto
        show ?thesis
        proof (cases "script R f (pd_schema (cl_db c))")
          case (Inl e)
          with True Files Cons step held rest' work c(1) show ?thesis
            by (auto simp: solo_def explained_def finished_def intro!: put_same)
        next
          case (Inr s)
          have "explained R rest' s r" if "explained R rest (pd_schema (cl_db c)) r" for r
            using that rest'(1) Inr by (auto simp: explained_def finished_def split: sum.splits)
          with True Files Cons step held rest' work Inr progressed_apply [OF c(1) [unfolded rest'(1)] Inr] show ?thesis
            by (auto simp: solo_def upgraded_def intro!: cluster_ok_put [OF c, where don' = "don @ [f]" and rest' = rest' and i = i])
        qed
      qed
    qed
  next
    case (Unlocking r)
    with here work c(1) show ?thesis by (auto simp: steps explained_def intro!: put_same)
  next
    case (Closing r)
    with here work c(1) show ?thesis by (auto simp: steps explained_def intro!: put_same)
  next
    case (Closed r)
    with here work c(1) show ?thesis by (auto simp: solo_def session_step.simps run_ret intro!: put_same)
  qed
qed

lemma lose_ok:
  assumes c: "progressed R fs d don rest (cl_db c)"
      "\<And>j. phase_ok R rest (cl_db c) (cl_holder c = Some j) (cl_work c j) (cl_phase c j)"
  shows "cluster_ok R fs d (put i c (lose (cl_phase c i, view i c)))"
proof -
  note here = c(2) [of i]
  have work: "cl_work c i = None" using here by (cases "cl_phase c i") auto
  obtain p w where pw: "lose (cl_phase c i, view i c) = (p, w)" by force
  have w: "sv_db (w_db w) = cl_db c" "sv_work (w_db w) = None \<and> \<not> sv_lock (w_db w)"
    using here work pw by (cases "cl_phase c i"; auto simp: lose_def close_conn_def)+
  have p: "phase_ok R rest (cl_db c) False None p"
  proof (cases "cl_phase c i")
    case (Closed r)
    with pw have "p = Closed r" by (simp add: lose_def)
    with here work Closed show ?thesis by simp
  qed (use pw in \<open>auto simp: lose_def explained_def\<close>)
  show ?thesis unfolding pw
    by (rule cluster_ok_put [OF c, where don' = don and rest' = rest]) (use w p c(1) in simp_all)
qed

lemma take_turn_ok:
  assumes "cluster_ok R fs d c" "migration_files R = Inr fs" "distinct (map fst fs)"
  shows "cluster_ok R fs d (take_turn R t c)"
proof -
  from assms(1) obtain don rest where "progressed R fs d don rest (cl_db c)"
    "\<And>j. phase_ok R rest (cl_db c) (cl_holder c = Some j) (cl_work c j) (cl_phase c j)"
    unfolding cluster_ok_def by blast
  note c = this
  show ?thesis using solo_ok [OF c assms(2,3)] lose_ok [OF c] by (cases t) simp_all
qed

lemma opened_ok: "cluster_ok R fs (sv_db (w_db w)) (opened w)"
  unfolding cluster_ok_def by (intro exI [of _ "[]"] exI [of _ "due (sv_db (w_db w)) fs"]) (simp add: opened_def progressed_def)

lemma run_turns_ok:
  assumes "cluster_ok R fs d c" "migration_files R = Inr fs" "distinct (map fst fs)"
  shows "cluster_ok R fs d (run_turns R ts c)"
  using assms(1) take_turn_ok [OF _ assms(2,3)] unfolding run_turns_def by (induction ts arbitrary: c) auto

text \<open>The phases between the lock and its release.\<close>

definition works :: "phase \<Rightarrow> bool" where
  "works p \<longleftrightarrow> (case p of Opened \<Rightarrow> False | Closing _ \<Rightarrow> False | Closed _ \<Rightarrow> False | _ \<Rightarrow> True)"

lemma works_held: "phase_ok R rest d held work p \<Longrightarrow> held \<longleftrightarrow> works p"
  by (cases p) (auto simp: works_def)

section \<open>Every session ends\<close>

text \<open>A bound of the turns that a session with at most \<open>n\<close> files still takes.\<close>

fun turns_left :: "nat \<Rightarrow> phase \<Rightarrow> nat" where
  "turns_left n Opened = n + 6"
| "turns_left n Locked = n + 5"
| "turns_left n Tracked = n + 4"
| "turns_left n (Files p fs) = length fs + 3"
| "turns_left n (Unlocking r) = 2"
| "turns_left n (Closing r) = 1"
| "turns_left n (Closed r) = 0"

lemma migration_files_length: "migration_files R = Inr fs \<Longrightarrow> length fs \<le> length (rn_files R)"
proof -
  assume "migration_files R = Inr fs"
  then have "length fs = length (filter (\<lambda>f. suffix ''.sql'' (fst f)) (rn_files R))"
    by (auto simp: migration_files_def Let_def res_map_Inr_iff split: if_splits dest!: list_all2_lengthD)
  then show ?thesis by simp
qed

lemma solo_left: "turns_left (length (rn_files R)) (fst (solo R (p, w))) \<le> turns_left (length (rn_files R)) p - 1"
proof (cases "(R, p)" rule: session_step.cases)
  case (3 R')
  then show ?thesis using migration_files_length [of R]
    by (auto simp: solo_def session_step.simps bind_def run_ret split: sum.splits prod.splits)
qed (auto simp: solo_def session_step.simps bind_def run_ret next_phase_def unlock_def commit_def close_conn_def query_def execute_def
    Let_def split: sum.splits prod.splits)

lemma take_turn_left:
  "turns_left (length (rn_files R)) (cl_phase (take_turn R t c) i) \<le>
     turns_left (length (rn_files R)) (cl_phase c i) - (if t = Advance i then 1 else 0)"
proof (cases t)
  case (Advance j)
  then show ?thesis using solo_left [of R "cl_phase c i" "view i c"] by (auto simp: put_def split: prod.split)
next
  case (Lose j)
  then show ?thesis by (auto simp: put_def lose_def split: prod.split phase.split)
qed

lemma run_turns_left:
  "turns_left (length (rn_files R)) (cl_phase (run_turns R ts c) i) \<le>
     turns_left (length (rn_files R)) (cl_phase c i) - count_list ts (Advance i)"
proof (induction ts arbitrary: c)
  case (Cons t ts)
  have "run_turns R (t # ts) c = run_turns R ts (take_turn R t c)" by (simp add: run_turns_def)
  with take_turn_left [of R t c i] Cons.IH [of "take_turn R t c"] show ?case by (cases "t = Advance i") auto
qed (simp add: run_turns_def)

lemma session_ends:
  assumes "length (rn_files R) + 6 \<le> count_list ts (Advance i)"
  shows "\<exists>r. cl_phase (run_turns R ts (opened w)) i = Closed r"
proof -
  have "turns_left (length (rn_files R)) (cl_phase (run_turns R ts (opened w)) i) = 0"
    using run_turns_left [of R ts "opened w" i] assms by (simp add: opened_def)
  then show ?thesis by (cases "cl_phase (run_turns R ts (opened w)) i") auto
qed

section \<open>The upgrade gets done\<close>

definition under_way :: "'s cluster \<Rightarrow> bool" where
  "under_way c \<longleftrightarrow> (\<forall>i. cl_phase c i = Opened) \<or> (\<exists>i. works (cl_phase c i)) \<or>
     (\<exists>i vs. cl_phase c i = Closing (Inr vs) \<or> cl_phase c i = Closed (Inr vs))"

lemma solo_works:
  "works p \<Longrightarrow> (\<And>r. p \<noteq> Unlocking r) \<Longrightarrow> works (fst (solo R (p, w)))"
  by (cases "(R, p)" rule: session_step.cases)
    (auto simp: solo_def session_step.simps bind_def run_ret next_phase_def works_def split: sum.splits prod.splits)

lemma solo_unlocking: "fst (solo R (Unlocking r, w)) = Closing r"
  and solo_closing: "fst (solo R (Closing r, w)) = Closed r"
  and solo_closed: "fst (solo R (Closed r, w)) = Closed r"
  by (simp_all add: solo_def session_step.simps bind_def run_ret unlock_def commit_def close_conn_def query_def execute_def Let_def)

lemma rest_succeeds:
  assumes "progressed R fs d don rest d'" "res_fold (script R) (due d fs) (pd_schema d) = Inr s" "finished R rest (pd_schema d') r"
  shows "\<exists>vs. r = Inr vs"
proof (cases r)
  case (Inl e)
  with assms show ?thesis by (cases rest) (auto simp: progressed_def res_fold_append finished_def)
qed simp

lemma take_turn_under_way:
  assumes c: "progressed R fs d don rest (cl_db c)"
      "\<And>j. phase_ok R rest (cl_db c) (cl_holder c = Some j) (cl_work c j) (cl_phase c j)"
    and s: "res_fold (script R) (due d fs) (pd_schema d) = Inr s"
    and u: "under_way c"
  shows "under_way (take_turn R (Advance i) c)"
proof -
  let ?c = "take_turn R (Advance i) c"
  obtain p w where pw: "solo R (cl_phase c i, view i c) = (p, w)" by force
  then have i: "cl_phase ?c i = p" and others: "\<And>j. j \<noteq> i \<Longrightarrow> cl_phase ?c j = cl_phase c j"
    by (simp_all add: put_def)
  have "works p \<or> (\<exists>vs. p = Closing (Inr vs) \<or> p = Closed (Inr vs)) \<or> under_way ?c"
  proof (cases "cl_phase c i")
    case Opened
    have "cl_work c i = None" using c(2) [of i] Opened by simp
    then have p: "p = (if cl_holder c \<noteq> None \<and> cl_holder c \<noteq> Some i then Closing (Inl lock_refused) else Locked)"
      using pw opened_step [of "view i c" R] Opened by (simp add: solo_def split: if_splits)
    show ?thesis
    proof (cases "cl_holder c")
      case None
      with p show ?thesis by (simp add: works_def)
    next
      case (Some j)
      with works_held [OF c(2) [of j]] have "works (cl_phase c j)" by simp
      with Opened others [of j] have "works (cl_phase ?c j)" by (cases "j = i") (simp_all add: works_def)
      then show ?thesis unfolding under_way_def by blast
    qed
  next
    case (Unlocking r)
    with c(2) [of i] rest_succeeds [OF c(1) s] pw solo_unlocking [of R r "view i c"] show ?thesis by auto
  next
    case (Closing r)
    with pw have p: "p = Closed r" using solo_closing [of R r "view i c"] by simp
    from u Closing consider j where "works (cl_phase c j)" | j vs where "cl_phase c j = Closing (Inr vs) \<or> cl_phase c j = Closed (Inr vs)"
      unfolding under_way_def by force
    then show ?thesis
    proof cases
      case 1
      with Closing others [of j] have "works (cl_phase ?c j)" by (cases "j = i") (simp_all add: works_def)
      then show ?thesis unfolding under_way_def by blast
    next
      case 2
      with Closing p i others [of j] have "cl_phase ?c j = Closing (Inr vs) \<or> cl_phase ?c j = Closed (Inr vs)"
        by (cases "j = i") auto
      then show ?thesis unfolding under_way_def by blast
    qed
  next
    case (Closed r)
    with pw have "p = cl_phase c i" using solo_closed [of R r "view i c"] by simp
    with i others have "cl_phase ?c j = cl_phase c j" for j by (cases "j = i") simp_all
    with u show ?thesis unfolding under_way_def by simp
  qed (use solo_works [of "cl_phase c i" R "view i c"] pw in \<open>simp_all add: works_def\<close>)
  then show ?thesis using i unfolding under_way_def by blast
qed

lemma run_turns_under_way:
  assumes "cluster_ok R fs d c" "migration_files R = Inr fs" "distinct (map fst fs)"
    "res_fold (script R) (due d fs) (pd_schema d) = Inr s" "under_way c" "\<And>i. Lose i \<notin> set ts"
  shows "under_way (run_turns R ts c)"
  using assms(1,5,6)
proof (induction ts arbitrary: c)
  case (Cons t ts)
  from Cons.prems(3) obtain i where t: "t = Advance i" by (cases t) auto
  from Cons.prems(1) obtain don rest where "progressed R fs d don rest (cl_db c)"
    "\<And>j. phase_ok R rest (cl_db c) (cl_holder c = Some j) (cl_work c j) (cl_phase c j)"
    unfolding cluster_ok_def by blast
  note u = take_turn_under_way [OF this assms(4) Cons.prems(2), of i]
  have "run_turns R (t # ts) c = run_turns R ts (take_turn R t c)" by (simp add: run_turns_def)
  with Cons.IH [OF take_turn_ok [OF Cons.prems(1) assms(2,3)], of t] u t Cons.prems(3) show ?case by simp
qed (simp add: run_turns_def)

lemma idle_runner: "Advance i \<notin> set ts \<Longrightarrow> Lose i \<notin> set ts \<Longrightarrow> cl_phase (run_turns R ts c) i = cl_phase c i"
proof (induction ts arbitrary: c)
  case (Cons t ts)
  have "cl_phase (take_turn R t c) i = cl_phase c i"
    using Cons.prems by (cases t) (auto simp: put_def split: prod.split)
  with Cons show ?case by (simp add: run_turns_def)
qed (simp add: run_turns_def)

section \<open>Side by side\<close>

text \<open>C6. However many runners upgrade one database at the same time, in whatever order their steps fall
  and whichever sessions are lost, the migrations due are applied each at most once and in their
  order: the database is always the one of the beginning with the first of them applied (recorded,
  and run on its schema). Only one runner works at a time. A session that ends without error leaves
  nothing due; one that fails was refused the lock, was lost, or met a migration whose script
  fails, which then stays the next one due.\<close>

theorem concurrent_upgrades:
  assumes "migration_files R = Inr fs" "distinct (map fst fs)"
    and d: "d = sv_db (w_db w)" and c: "c = run_turns R ts (opened w)"
  shows "\<exists>don. due d fs = don @ due (cl_db c) fs \<and> applied (cl_db c) = applied d @ map fst don \<and>
      res_fold (script R) don (pd_schema d) = Inr (pd_schema (cl_db c)) \<and>
      (\<forall>i j. works (cl_phase c i) \<and> works (cl_phase c j) \<longrightarrow> i = j) \<and>
      (\<forall>i r. cl_phase c i = Closed r \<longrightarrow>
        (case r of
           Inr vs \<Rightarrow> due (cl_db c) fs = []
         | Inl e \<Rightarrow> e = lock_refused \<or> e = session_lost \<or>
             due (cl_db c) fs \<noteq> [] \<and> script R (hd (due (cl_db c) fs)) (pd_schema (cl_db c)) = Inl e))"
proof -
  have "cluster_ok R fs d c" unfolding c d by (rule run_turns_ok [OF opened_ok assms(1,2)])
  then obtain don rest where p: "progressed R fs d don rest (cl_db c)"
    and ph: "phase_ok R rest (cl_db c) (cl_holder c = Some i) (cl_work c i) (cl_phase c i)" for i
    unfolding cluster_ok_def by blast
  note due = progressed_due [OF p assms(2)]
  have one: "\<forall>i j. works (cl_phase c i) \<and> works (cl_phase c j) \<longrightarrow> i = j"
    using works_held [OF ph] by (metis option.inject)
  have why: "case r of Inr vs \<Rightarrow> rest = []
      | Inl e \<Rightarrow> e = lock_refused \<or> e = session_lost \<or> rest \<noteq> [] \<and> script R (hd rest) (pd_schema (cl_db c)) = Inl e"
    if "cl_phase c i = Closed r" for i r
  proof -
    have "explained R rest (pd_schema (cl_db c)) r" using ph [of i] that by simp
    then show ?thesis by (cases r) (auto simp: explained_def finished_def)
  qed
  from p have "due d fs = don @ rest" "res_fold (script R) don (pd_schema d) = Inr (pd_schema (cl_db c))"
    by (simp_all add: progressed_def)
  with one why show ?thesis unfolding due(1) by (intro exI [of _ don]) (simp add: due(2))
qed

text \<open>Runner 0 has the lock, runner 1 is refused, runner 0 is lost after its first file, runner 2 does the rest.\<close>

abbreviation demo_turns :: "turn list" where
  "demo_turns \<equiv> [Advance 0, Advance 1, Advance 0, Advance 0, Advance 0, Advance 1, Lose 0] @ replicate 8 (Advance 2)"

lemma concurrent_upgrades_witness:
  "\<exists>c don. c = run_turns (demo_runner [''2_b.sql'', ''1_a.sql'']) demo_turns (opened (at_start fresh_server)) \<and>
     demo_migrations = don @ due (cl_db c) demo_migrations \<and> applied (cl_db c) = map fst don \<and>
     (\<forall>i j. works (cl_phase c i) \<and> works (cl_phase c j) \<longrightarrow> i = j)"
proof -
  have w: "sv_db (w_db (at_start fresh_server)) = sv_db fresh_server" "applied (sv_db fresh_server) = []"
    by (simp_all add: new_world_def fresh_server_def applied_def)
  from concurrent_upgrades [OF demo_files _ w(1) [symmetric] refl, of demo_turns] show ?thesis
    unfolding demo_due w by auto
qed

lemma demo_outcome:
  "(let c = run_turns (demo_runner [''2_b.sql'', ''1_a.sql'']) demo_turns (opened (at_start fresh_server))
    in (applied (cl_db c), map (cl_phase c) [0, 1, 2])) =
   ([''1'', ''2''], [Closed (Inl session_lost), Closed (Inl lock_refused), Closed (Inr [''2''])])"
  by code_simp

text \<open>C21. The upgrade gets done: when the scripts of all migrations due succeed, no session is lost, and
  at least one runner takes part, then as soon as every runner that takes part has had as many
  turns as there are files plus six, all of them have ended, nothing is due, the schema is the one
  the scripts make of it, and at least one runner reports success.\<close>

theorem upgrades_get_done:
  assumes "migration_files R = Inr fs" "distinct (map fst fs)" "\<And>i. Lose i \<notin> set ts" "ts \<noteq> []"
    "\<And>i. Advance i \<in> set ts \<Longrightarrow> length (rn_files R) + 6 \<le> count_list ts (Advance i)"
    "res_fold (script R) (due (sv_db (w_db w)) fs) (pd_schema (sv_db (w_db w))) = Inr s"
    and c: "c = run_turns R ts (opened w)"
  shows "(\<forall>i. Advance i \<in> set ts \<longrightarrow> (\<exists>r. cl_phase c i = Closed r)) \<and>
    due (cl_db c) fs = [] \<and> pd_schema (cl_db c) = s \<and> (\<exists>i vs. cl_phase c i = Closed (Inr vs))"
proof -
  have ends: "\<exists>r. cl_phase c i = Closed r" if "Advance i \<in> set ts" for i
    unfolding c using session_ends assms(5) that by blast
  have idle: "cl_phase c i = Opened" if "Advance i \<notin> set ts" for i
    unfolding c using idle_runner [OF that assms(3), of R "opened w"] by simp
  have ok: "cluster_ok R fs (sv_db (w_db w)) c" unfolding c by (rule run_turns_ok [OF opened_ok assms(1,2)])
  then obtain don rest where p: "progressed R fs (sv_db (w_db w)) don rest (cl_db c)"
    and ph: "phase_ok R rest (cl_db c) (cl_holder c = Some i) (cl_work c i) (cl_phase c i)" for i
    unfolding cluster_ok_def by blast
  have "under_way c" unfolding c
    by (rule run_turns_under_way [OF opened_ok assms(1,2,6) _ assms(3)]) (simp add: under_way_def opened_def)
  moreover obtain i where "Advance i \<in> set ts" using assms(3,4) by (cases "hd ts") (metis hd_in_set)+
  moreover have "\<not> works (cl_phase c j)" for j using ends [of j] idle [of j] by (cases "Advance j \<in> set ts") (auto simp: works_def)
  ultimately obtain j vs where "cl_phase c j = Closing (Inr vs) \<or> cl_phase c j = Closed (Inr vs)"
    using ends unfolding under_way_def by force
  with ends [of j] idle [of j] have j: "cl_phase c j = Closed (Inr vs)" by (cases "Advance j \<in> set ts") auto
  with ph [of j] have rest: "rest = []" by (simp add: explained_def finished_def)
  with p assms(6) have "pd_schema (cl_db c) = s" by (simp add: progressed_def)
  with ends j rest progressed_due(1) [OF p assms(2)] show ?thesis by blast
qed

lemma upgrades_get_done_witness:
  "\<exists>c i vs. c = run_turns (demo_runner [''2_b.sql'', ''1_a.sql'']) (concat (replicate 8 [Advance 0, Advance 1])) (opened (at_start fresh_server)) \<and>
     cl_phase c i = Closed (Inr vs) \<and> pd_schema (cl_db c) = [''1_a.sql'', ''2_b.sql'']"
proof -
  have turns: "concat (replicate 8 [Advance 0, Advance 1]) =
    [Advance 0, Advance 1, Advance 0, Advance 1, Advance 0, Advance 1, Advance 0, Advance 1,
     Advance 0, Advance 1, Advance 0, Advance 1, Advance 0, Advance 1, Advance 0, Advance 1]"
    by (simp add: eval_nat_numeral)
  let ?R = "demo_runner [''2_b.sql'', ''1_a.sql'']" and ?ts = "concat (replicate 8 [Advance 0, Advance 1])"
  let ?c = "run_turns ?R ?ts (opened (at_start fresh_server))"
  have files: "length (rn_files ?R) = 2" by (simp add: demo_runner_def)
  have "(\<forall>i. Advance i \<in> set ?ts \<longrightarrow> (\<exists>r. cl_phase ?c i = Closed r)) \<and> due (cl_db ?c) demo_migrations = [] \<and>
      pd_schema (cl_db ?c) = [''1_a.sql'', ''2_b.sql''] \<and> (\<exists>i vs. cl_phase ?c i = Closed (Inr vs))"
  proof (rule upgrades_get_done [OF demo_files _ _ _ _ _ refl])
    show "length (rn_files ?R) + 6 \<le> count_list ?ts (Advance i)" if "Advance i \<in> set ?ts" for i
      using that unfolding files turns by auto
    have w: "sv_db (w_db (at_start fresh_server)) = sv_db fresh_server" "pd_schema (sv_db fresh_server) = []"
      by (simp_all add: new_world_def fresh_server_def)
    show "res_fold (script ?R) (due (sv_db (w_db (at_start fresh_server))) demo_migrations)
        (pd_schema (sv_db (w_db (at_start fresh_server)))) = Inr [''1_a.sql'', ''2_b.sql'']"
      unfolding w demo_due by (simp add: script_def demo_runner_def)
  qed (simp_all add: turns)
  then show ?thesis by blast
qed

end
