(* ===== verification/Spec2Isabelle.thy ===== *)
theory Spec2Isabelle
  imports Service Delivery EventStreams Severity Runners
begin

text \<open>
  A model of the security news feed, the Python service under \<open>src/app\<close>, with the theorems that make
  it correct. The service fetches advisories and news from a catalogue of sources, enriches them,
  stores them in PostgreSQL or SQLite, mirrors them in OpenSearch, alerts on the urgent ones and
  serves them over HTTP.

  \<^bold>\<open>The program and the theories.\<close> Each theory opens with what it holds; the order is that of the
  imports.

  \<^item> Python itself. \<open>Prelude\<close>: results that may raise, loops over them, dictionaries, stable sorting.
    \<open>PyText\<close>: \<open>str\<close> methods and scanners for the regular expressions. \<open>Calendar\<close> and \<open>PyTime\<close>: dates,
    \<open>datetime\<close>, ISO texts. \<open>Json\<close>: the values of \<open>json.loads\<close> and the dynamic operations on them.
    \<open>Url\<close>: \<open>urllib.parse\<close>. \<open>SqlText\<close>: \<open>LIKE\<close> and its escaping.
  \<^item> Data and settings. \<open>Models\<close> (\<open>models.py\<close>): the record \<open>feed_item\<close> and its dictionary form.
    \<open>Sources\<close> (\<open>sources.py\<close>): the catalogue. \<open>Config\<close> (\<open>config.py\<close>): \<open>from_env\<close> from an environment to
    the record \<open>settings\<close>.
  \<^item> Upstream. \<open>World\<close> (\<open>http_client.py\<close> and the effects of every component): the record \<open>world\<close> of the
    database, the clock, the requests and mails sent and the module globals, and computations over it.
    \<open>Normalize\<close>, \<open>Parsers\<close>, \<open>Fetcher\<close> (\<open>fetcher.py\<close>): text functions, one parser per kind of source, and
    the fetch path with cadence, conditional requests, retry and de-duplication. \<open>Enrich\<close>
    (\<open>enrich.py\<close>): KEV and EPSS. \<open>Osv\<close> (\<open>osv.py\<close>): OSV records. \<open>Severity\<close>: the severity tables as a
    linear order, and what merging and enrichment do to a severity.
  \<^item> Storage. \<open>Store\<close>: the port as the record \<open>backend\<close> of operations, the abstract archive and the
    contract, the locale \<open>storage\<close>. \<open>PgStore\<close> and \<open>PgPool\<close> (\<open>postgres_store.py\<close>), \<open>SqliteStore\<close> and
    \<open>Schema\<close> (\<open>sqlite_store.py\<close>): the adapters, the pool and the completion of old database files.
    \<open>Facade\<close> (\<open>store.py\<close>): the selection of an adapter. \<open>Migrate\<close> (\<open>migrate.py\<close>, and \<open>init_db\<close> of
    \<open>postgres_store.py\<close>): the migration runner over a server with transactions and an advisory lock.
    \<open>Runners\<close>: the sessions of several runners, cut into steps that interleave.
  \<^item> Service. \<open>Search\<close> (\<open>search.py\<close>), \<open>Alerts\<close> (\<open>alerts.py\<close>), \<open>Events\<close> (\<open>events.py\<close>), \<open>RateLimit\<close>
    (\<open>ratelimit.py\<close>); \<open>Pipeline\<close> (\<open>pipeline.py\<close>): the refresh that calls all of these, the cached feed
    and the single flight of refreshes; \<open>Api\<close> (\<open>main.py\<close>): the start, the client identity and the
    handlers; \<open>EventStreams\<close>: the life of the streams of its event endpoint beside the broker;
    \<open>Startup\<close>: the start over the initialisation of each adapter, and the shutdown.
  \<^item> The service as a whole. \<open>Fallback\<close>: one refresh when every upstream service refuses, from the sources
    to the archive. \<open>Delivery\<close>: what the alerts promise over the life of the archive. \<open>Service\<close>: what
    every computation sends, and the way of an item from a refresh to the answer of the items route.

  \<^bold>\<open>How they fit.\<close> A computation maps a world to a result and a world: an exception is an \<open>exc\<close> with
  its class on the left of a sum, and what was changed before it stays changed. The fetcher,
  the alerts, the search and the pipeline take a \<open>backend\<close> and never see an adapter. What they need of
  it is the locale \<open>storage\<close>, whose laws say how each operation acts on the archive (items by id,
  alerted ids, fetch states). Its client lemmas (the cadence, alerts delivered once, what a refresh leaves
  in the archive) are proved once inside it; \<open>pg\<close>, \<open>sq\<close> and \<open>fa\<close> interpret it on the PostgreSQL
  adapter, the SQLite adapter and the facade. SQLite's text columns simulate PostgreSQL's typed ones
  under \<open>sq_of\<close>. Likewise \<open>bounded_fifo\<close> is the contract of the queue the broker hands out (\<open>aq\<close>),
  \<open>window_limiter\<close> that of the rate limiter the handlers use (\<open>rl\<close>), and \<open>initialiser\<close> that of the
  initialisation the start retries (\<open>pgi\<close>, \<open>sqi\<close>), and \<open>failing_network\<close> that of a network on which
  every request fails whoever checks its status, interpreted on the lost network (\<open>lost\<close>) and on the
  one whose services all refuse (\<open>denied\<close>).

  \<^bold>\<open>What is shown.\<close> The properties carry the numbers C1 to C40 in order of importance.

  \<^item> What reaches the archive and the reader: every parsed item is well formed; de-duplication keeps
    each id once; a refresh never raises, reports each step and stores what it returns; a feed query
    is a sorted page of the matching items; both adapters answer alike, up to items that tie;
    payloads and search documents read back; the store operations act exactly as stated. What a refresh returned and archived is in
    the answer of the items route; when every service refuses, that is the sample feed.
  \<^item> Restraint towards others: every request carries the shared user agent and a bounded timeout; a
    source is not asked before its interval has passed, OSV stays within its cap and asks for a CVE
    once a day, no item is alerted twice while the archive keeps it, and refreshes that requests start
    lie further apart than the configured time.
  \<^item> Concurrency: at most one refresh runs, and the broker keeps its caps and its order in every
    interleaving; a queue is subscribed exactly while its stream lives, with one exception, and a stream
    sends events in their order; the limiter refines a log-based specification, and forged headers do
    not escape it.
  \<^item> Migration and start: an upgrade refines a plain specification, changes nothing while another
    runner holds the lock, and its connection loop ends; runners side by side, of which some may be
    lost, apply each migration at most once and in order, and get the upgrade done (a session alone
    is the code's, lemma \<open>session_leads\<close>); which outcomes of the initialisation let the
    service start, and what every route answers while the database is down; the settings accepted.
  \<^item> Flaws that modelling showed, proved on the model: a total outage yields neither items nor
    samples, streams closed before their first read hold their subscription and lock the endpoint, a
    failing alert channel makes the others repeat, the false positives of the SQLite tag
    filter, versions of different length that a correct upgrade leaves refused at the start.

  \<^bold>\<open>Bounds and fuel.\<close> No component is cut off by fuel, and every definition is total. The connection
  loop of the migrations terminates by the measure of the time left to its deadline (a round
  without time-out left returns, any other waits). The five attempts of the start recurse over
  their number. A migration session takes at most as many steps as there are files plus six. Only the reader
  of a stored JSON list counts elements, with the length of the text, which no list exceeds. Integers are Python's unbounded ones, as \<open>int\<close> and \<open>nat\<close>; floats (scores,
  settings, times of the limiter) are exact rationals, without infinities and NaN.

  \<^bold>\<open>Parameters.\<close> Arguments of the definitions stand for what is not under \<open>src\<close>: SHA-1, the entries
  \<open>feedparser\<close> finds, \<open>parsedate_to_datetime\<close>, \<open>repr\<close> of a value, the answers of the network and of
  SMTP, the outcome of a connection and how long it takes, the effect of a migration file on the
  schema, the environment and the files it names, and the classification of driver errors.

  \<^bold>\<open>Simplifications.\<close> A character is a code point below 256; a literal of the source beyond stands as
  \<open>sub_char\<close>. Tasks gathered by asyncio run in the order of their list (each writes no more of the
  database than its own fetch state, and the NVD slots, which they share, are also treated for every
  order of callers); the refresh task, the broker, the limiter,
  the event streams and the migration runners are interleavings of atomic steps (for a runner, what
  lies between two commits). Time passes in sleeping and connecting only, and the wall clock
  and the monotonic clock are one. The payload column of SQLite holds the value its JSON text encodes,
  and an OSV summary that is no text is refused.

  \<^bold>\<open>Not modelled.\<close> FastAPI's routing, validation of parameters, encoding of responses and CORS, the
  argument parser of the migration command, logging, the internals of \<open>psycopg\<close>, its pool and
  \<open>httpx\<close>: the code only calls or configures them. The \<open>db_path\<close> of the store operations, for which
  the service always takes the default.
  \<open>errors.py\<close> (two exception classes, which are classes of the model's exceptions) and the version
  constant hold no operation. The SQL files of the migrations, the static frontend, the deployment
  files and the tests are not part of the Python service.
\<close>

section \<open>Migration and start\<close>

text \<open>C29. The service starts on the database a successful upgrade left, and not before. When the versions of the
  migration files are distinct and all of one length (as the numbers of the repository are), the
  database had no other versions, and the tables that the check requires are there after the upgrade,
  then nothing is pending after it, and the check at startup passes at the first of the five attempts
  at which the database is in reach: the service starts exactly if the archive can be seeded then. Over
  the database before the upgrade, when it lacked the latest version, the service refuses to start at
  that attempt, for the schema is not migrated, and changes nothing. (Versions of different lengths
  may be refused after an upgrade too: \<open>startup_refuses_upgraded\<close>.)\<close>

theorem upgrade_then_start:
  assumes "check_endpoint R u = Inr ()" "\<not> sv_other (w_db w)" "migration_files R = Inr fs" "distinct (map fst fs)"
    "apply_pending R u n w = (Inr vs, w')" "connect R u n w = (Inr (), w1)"
    "\<And>f. f \<in> set fs \<Longrightarrow> length (fst f) = k" "set (applied (sv_db (w_db w))) \<subseteq> set (map fst fs)"
    "list_all (rn_has_table R (pd_schema (sv_db (w_db w')))) required_tables"
    "\<And>t e. conn t = Inl e \<Longrightarrow> exc_class e \<noteq> SchemaNotMigrated"
    "find (\<lambda>t. conn t = Inr ()) (attempt_times (app_now a)) = Some s"
  shows "(fst (lifespan B E (pg_init_io R conn (sv_db (w_db w'))) a) = Inr () \<longleftrightarrow>
      res_ok (seed_if_empty B (sha1 E) s (w_db (a_world a)))) \<and>
    fst (pending_versions R w') = Inr [] \<and>
    (fst (last fs) \<notin> set (applied (sv_db (w_db w))) \<longrightarrow>
      (\<exists>e. lifespan B E (pg_init_io R conn (sv_db (w_db w))) a = (Inl e, a\<lparr>a_world := (a_world a)\<lparr>w_now := s\<rparr>\<rparr>) \<and>
        exc_class e = SchemaNotMigrated))"
proof -
  have up: "pg_init_db R (Inr ()) (sv_db (w_db w')) = Inr ()" "fst (pending_versions R w') = Inr []"
    "fst (last fs) \<notin> set (applied (sv_db (w_db w))) \<Longrightarrow> pg_init_db R (Inr ()) (sv_db (w_db w)) \<noteq> Inr ()"
    using startup_accepts_upgraded [OF assms(1-9)] by simp_all
  show ?thesis
  proof (intro conjI impI up(2))
    show "fst (lifespan B E (pg_init_io R conn (sv_db (w_db w'))) a) = Inr () \<longleftrightarrow>
        res_ok (seed_if_empty B (sha1 E) s (w_db (a_world a)))"
      by (rule start_accepted [OF assms(3) _ assms(11) up(1)]) (rule assms(10))
    assume l: "fst (last fs) \<notin> set (applied (sv_db (w_db w)))"
    show "\<exists>e. lifespan B E (pg_init_io R conn (sv_db (w_db w))) a = (Inl e, a\<lparr>a_world := (a_world a)\<lparr>w_now := s\<rparr>\<rparr>) \<and>
        exc_class e = SchemaNotMigrated"
      by (rule start_refused [OF assms(3) _ assms(11) up(3) [OF l]]) (rule assms(10))
  qed
qed

text \<open>A start whose first attempt does not reach the database.\<close>

definition late_database :: "int \<Rightarrow> unit result" where
  "late_database t = (if t < us_sec then Inl refused else Inr ())"

lemma upgrade_then_start_witness:
  "\<exists>w'. apply_pending (demo_runner [''2_b.sql'', ''1_a.sql'']) ''db'' 60 (at_start fresh_server) = (Inr [''1'', ''2''], w') \<and>
     fst (lifespan postgres_store with_url (pg_init_io (demo_runner [''2_b.sql'', ''1_a.sql'']) late_database (sv_db (w_db w')))
       (new_app with_url (new_world pg_empty 0 default_settings))) = Inr ()"
proof -
  let ?R = "demo_runner [''2_b.sql'', ''1_a.sql'']" and ?w = "at_start fresh_server"
  let ?a = "new_app with_url (new_world pg_empty 0 default_settings)"
  have w: "sv_db (w_db ?w) = sv_db fresh_server" "\<not> sv_other (w_db ?w)" by (simp_all add: new_world_def fresh_server_def)
  obtain w1 where c: "connect ?R ''db'' 60 ?w = (Inr (), w1)" using demo_connect by blast
  obtain w' where a: "apply_pending ?R ''db'' 60 ?w = (Inr [''1'', ''2''], w')"
    and d: "sv_db (w_db w') = upgraded (sv_db fresh_server) demo_migrations [''1_a.sql'', ''2_b.sql'']" using demo_upgrade by blast
  have late: "exc_class e \<noteq> SchemaNotMigrated" if "late_database t = Inl e" for t e
    using that by (auto simp: late_database_def refused_def split: if_splits)
  have first: "find (\<lambda>t. late_database t = Inr ()) (attempt_times (app_now ?a)) = Some us_sec"
    by (simp add: attempt_times_def late_database_def new_app_def new_world_def us_sec_def)
  have "fst (lifespan postgres_store with_url (pg_init_io ?R late_database (sv_db (w_db w'))) ?a) = Inr () \<longleftrightarrow>
      res_ok (seed_if_empty postgres_store (sha1 with_url) us_sec (w_db (a_world ?a)))"
    by (rule upgrade_then_start [OF demo_endpoint w(2) demo_files _ a c _ _ _ late first, where k = 1, THEN conjunct1])
      (auto simp: d applied_def fresh_server_def new_world_def list_all_iff)
  then show ?thesis using a
    by (auto simp: postgres_store_def pg_seed_if_empty_def pg_conn_def pg_empty_def new_app_def new_world_def pg_upsert_items_def Let_def)
qed

end
